(* ===== verification/Prelude.thy ===== *)
theory Prelude
  imports Main "HOL-Library.Word" "HOL-Library.Monad_Syntax"
begin

unbundle bit_operations_syntax

text \<open>
  Shared vocabulary of the development: the machine types of the Go source
  (\<open>byte\<close>, \<open>rune\<close>), string literals as byte slices, the panics of the language as
  values, bounds-checked slicing, and generic facts on lists that the component
  theories use.  The collection \<open>byte_simps\<close> holds the equations that move a
  comparison of bytes to a comparison of natural numbers.
\<close>

section \<open>Machine types\<close>

text \<open>A Go \<open>byte\<close> is an unsigned 8-bit integer, so its arithmetic wraps.  A \<open>rune\<close>
  is an \<open>int32\<close>: every rune that occurs lies between \<open>-1\<close> (the drop marker of
  \<open>bytes.Map\<close>) and \<open>0x10FFFF\<close>, so it is kept as an integer.  Lengths and indices are
  natural numbers; a slice is shorter than \<open>2^63\<close> and no index computation leaves the
  range of \<open>int\<close>.\<close>

type_synonym byte = "8 word"
type_synonym bytes = "byte list"
type_synonym rune = int

named_theorems byte_simps

definition str :: "string \<Rightarrow> bytes" where
  "str s = map of_char s"

lemma str_Nil [simp]: "str [] = []"
  by (simp add: str_def)

lemma str_Cons [simp]: "str (c # cs) = of_char c # str cs"
  by (simp add: str_def)

lemma str_append [simp]: "str (xs @ ys) = str xs @ str ys"
  by (simp add: str_def)

lemma length_str [simp]: "length (str s) = length s"
  by (simp add: str_def)

lemma byte_le_unat [byte_simps]: "(a :: byte) \<le> b \<longleftrightarrow> unat a \<le> unat b"
  by (simp add: word_le_nat_alt)

lemma byte_less_unat [byte_simps]: "(a :: byte) < b \<longleftrightarrow> unat a < unat b"
  by (simp add: word_less_nat_alt)

lemma byte_eq_unat: "(a :: byte) = b \<longleftrightarrow> unat a = unat b"
  by (simp add: word_unat_eq_iff)

lemma unat_byte_less [simp]: "unat (b :: byte) < 256"
  using unsigned_less [of b, where ?'a = nat] by simp

lemma uint_unat_byte: "uint (b :: byte) = int (unat b)"
  by simp

section \<open>Panics\<close>

text \<open>Run-time panics of Go that the modelled code could raise.  An operation that may
  panic returns a value of a sum type with the panic on the left.\<close>

datatype go_panic = NilDereference | SliceBounds

type_synonym 'a result = "go_panic + 'a"

definition bind_result :: "'a result \<Rightarrow> ('a \<Rightarrow> 'b result) \<Rightarrow> 'b result" where
  "bind_result m f = (case m of Inl e \<Rightarrow> Inl e | Inr x \<Rightarrow> f x)"

lemma bind_result_simps [simp]:
  "bind_result (Inl e) f = Inl e"
  "bind_result (Inr x) f = f x"
  by (simp_all add: bind_result_def)

lemma bind_result_Inr_conv:
  "bind_result m f = Inr y \<longleftrightarrow> (\<exists>x. m = Inr x \<and> f x = Inr y)"
  by (cases m) simp_all

text \<open>\<open>s[i:j]\<close>: panics unless \<open>i \<le> j \<le> len(s)\<close>.\<close>

definition slice :: "'a list \<Rightarrow> nat \<Rightarrow> nat \<Rightarrow> 'a list result" where
  "slice s i j = (if i \<le> j \<and> j \<le> length s then Inr (take (j - i) (drop i s)) else Inl SliceBounds)"

lemma slice_ok: "i \<le> j \<Longrightarrow> j \<le> length s \<Longrightarrow> slice s i j = Inr (take (j - i) (drop i s))"
  by (simp add: slice_def)

section \<open>Lists\<close>

lemma take_drop_append:
  "i \<le> j \<Longrightarrow> take (j - i) (drop i s) @ drop j s = drop i s"
  by (metis append_take_drop_id drop_drop le_add_diff_inverse2)

lemma drop_eq_Cons_nth: "i < length xs \<Longrightarrow> drop i xs = xs ! i # drop (Suc i) xs"
  by (rule Cons_nth_drop_Suc [symmetric])

lemma list_all_filter_id: "list_all P xs \<Longrightarrow> filter P xs = xs"
  by (simp add: list_all_iff)

lemma filter_eq_id_conv: "filter P xs = xs \<longleftrightarrow> list_all P xs"
  by (simp add: list_all_iff filter_id_conv)

lemma list_all_take: "list_all P xs \<Longrightarrow> list_all P (take n xs)"
  by (auto simp: list_all_iff dest: in_set_takeD)

lemma list_all_drop: "list_all P xs \<Longrightarrow> list_all P (drop n xs)"
  by (auto simp: list_all_iff dest: in_set_dropD)

lemma length_filter_eq_iff: "length (filter P xs) = length xs \<longleftrightarrow> list_all P xs"
  by (metis filter_eq_id_conv length_filter_less list_all_iff nat_neq_iff)

lemma find_Some_split:
  "find P xs = Some x \<Longrightarrow> P x \<and> x \<in> set xs"
  by (induction xs) (auto split: if_splits)

end
