(* ===== verification/GoText.thy ===== *)
theory GoText
  imports Prelude
begin

text \<open>
  The parts of Go's standard library for text that the source calls: \<open>unicode/utf8\<close>
  (\<open>DecodeRune\<close>, \<open>DecodeLastRune\<close>, \<open>AppendRune\<close>), \<open>unicode.IsSpace\<close>, and the
  functions of package \<open>bytes\<close> (\<open>Map\<close>, \<open>FieldsFunc\<close>, \<open>Split\<close>, \<open>TrimSpace\<close>,
  \<open>IndexByte\<close>, \<open>LastIndexByte\<close>, \<open>HasPrefix\<close>, \<open>HasSuffix\<close>, \<open>Contains\<close>, \<open>ReplaceAll\<close>,
  \<open>ToUpper\<close>, \<open>ToLower\<close>).  The lemmas relate rune-wise decoding to the bytes: an ASCII
  byte always decodes to itself, and the bytes of a longer encoding are never ASCII.
\<close>

section \<open>Decoding UTF-8\<close>

definition RuneError :: rune where
  "RuneError = 0xFFFD"

text \<open>The table \<open>first\<close> with \<open>acceptRanges\<close> of package utf8: for the lead byte of a
  multi-byte encoding, its length and the range of its second byte; \<open>None\<close> for a byte
  that starts no encoding.\<close>

definition utf8_first :: "byte \<Rightarrow> (nat \<times> byte \<times> byte) option" where
  "utf8_first p0 =
     (if p0 < 0xC2 then None
      else if p0 \<le> 0xDF then Some (2, 0x80, 0xBF)
      else if p0 = 0xE0 then Some (3, 0xA0, 0xBF)
      else if p0 = 0xED then Some (3, 0x80, 0x9F)
      else if p0 \<le> 0xEF then Some (3, 0x80, 0xBF)
      else if p0 = 0xF0 then Some (4, 0x90, 0xBF)
      else if p0 \<le> 0xF3 then Some (4, 0x80, 0xBF)
      else if p0 = 0xF4 then Some (4, 0x80, 0x8F)
      else None)"

definition not_cont :: "byte \<Rightarrow> bool" where
  "not_cont b \<longleftrightarrow> b < 0x80 \<or> 0xBF < b"

definition rune_bits :: "byte \<Rightarrow> byte \<Rightarrow> nat \<Rightarrow> rune" where
  "rune_bits b m k = push_bit k (uint (b AND m))"

fun DecodeRune :: "bytes \<Rightarrow> rune \<times> nat" where
  "DecodeRune [] = (RuneError, 0)"
| "DecodeRune (p0 # ps) =
     (if p0 < 0x80 then (uint p0, 1)
      else case utf8_first p0 of
        None \<Rightarrow> (RuneError, 1)
      | Some (sz, lo, hi) \<Rightarrow>
          if Suc (length ps) < sz then (RuneError, 1)
          else if ps ! 0 < lo \<or> hi < ps ! 0 then (RuneError, 1)
          else if sz \<le> 2 then (rune_bits p0 0x1F 6 OR rune_bits (ps ! 0) 0x3F 0, 2)
          else if not_cont (ps ! 1) then (RuneError, 1)
          else if sz \<le> 3 then
            (rune_bits p0 0x0F 12 OR rune_bits (ps ! 0) 0x3F 6 OR rune_bits (ps ! 1) 0x3F 0, 3)
          else if not_cont (ps ! 2) then (RuneError, 1)
          else
            (rune_bits p0 0x07 18 OR rune_bits (ps ! 0) 0x3F 12 OR rune_bits (ps ! 1) 0x3F 6
               OR rune_bits (ps ! 2) 0x3F 0, 4))"

declare DecodeRune.simps(2) [simp del]

lemma DecodeRune_ascii [simp]: "p0 < 0x80 \<Longrightarrow> DecodeRune (p0 # ps) = (uint p0, 1)"
  by (simp add: DecodeRune.simps)

lemma utf8_first_SomeD:
  "utf8_first p0 = Some (sz, lo, hi) \<Longrightarrow>
     2 \<le> sz \<and> sz \<le> 4 \<and> 0x80 \<le> lo \<and> 0xC2 \<le> p0 \<and> (sz = 2 \<longrightarrow> p0 \<le> 0xDF)
     \<and> (sz = 3 \<longrightarrow> 0xE0 \<le> p0 \<and> p0 \<le> 0xEF \<and> (p0 = 0xE0 \<longrightarrow> 0xA0 \<le> lo) \<and> hi \<le> 0xBF)
     \<and> (sz = 4 \<longrightarrow> 0xF0 \<le> p0 \<and> p0 \<le> 0xF4 \<and> (p0 = 0xF0 \<longrightarrow> 0x90 \<le> lo) \<and> hi \<le> 0xBF)"
  unfolding utf8_first_def by (auto simp: byte_simps byte_eq_unat split: if_splits)

lemma DecodeRune_size:
  "s \<noteq> [] \<Longrightarrow> 1 \<le> snd (DecodeRune s) \<and> snd (DecodeRune s) \<le> length s"
  by (cases s) (auto simp: DecodeRune.simps Suc_le_eq split: option.splits dest!: utf8_first_SomeD)

lemma DecodeRune_size_pos: "s \<noteq> [] \<Longrightarrow> 0 < snd (DecodeRune s)"
  using DecodeRune_size by fastforce

lemma rune_bits_nonneg [simp]: "0 \<le> rune_bits b m k"
  by (simp add: rune_bits_def)

lemma rune_bits_mod:
  "m = mask n \<Longrightarrow> rune_bits b m k = 2 ^ k * (uint b mod 2 ^ n)"
proof -
  assume "m = mask n"
  then have "uint (b AND m) = take_bit n (uint b)"
    by (simp only: take_bit_eq_mask [symmetric] unsigned_take_bit_eq)
  then show ?thesis
    by (simp add: rune_bits_def push_bit_eq_mult take_bit_eq_mod)
qed

lemma rune_bits_masks:
  "rune_bits b 0x1F k = 2 ^ k * (uint b mod 32)"
  "rune_bits b 0x0F k = 2 ^ k * (uint b mod 16)"
  "rune_bits b 0x07 k = 2 ^ k * (uint b mod 8)"
  "rune_bits b 0x3F k = 2 ^ k * (uint b mod 64)"
  by (subst rune_bits_mod [where n = 5] rune_bits_mod [where n = 4]
      rune_bits_mod [where n = 3] rune_bits_mod [where n = 6]; simp add: mask_eq_exp_minus_1)+

lemma or3_ge: "0 \<le> b \<Longrightarrow> 0 \<le> c \<Longrightarrow> (a :: int) OR b OR c \<ge> a"
  by (simp add: or_greater_eq)

text \<open>The encodings of a lead byte above ASCII decode to a rune above ASCII.\<close>

lemma decode2_ge: "0xC2 \<le> p0 \<Longrightarrow> p0 \<le> 0xDF \<Longrightarrow> 128 \<le> rune_bits p0 0x1F 6"
proof -
  assume "0xC2 \<le> p0" "p0 \<le> 0xDF"
  then have "0xC2 \<le> uint p0 \<and> uint p0 \<le> 0xDF"
    by (simp add: word_le_def)
  then have "2 \<le> uint p0 mod 32" by presburger
  then show ?thesis by (simp add: rune_bits_masks)
qed

lemma decode3_ge:
  assumes "0xE0 \<le> p0" "p0 \<le> 0xEF" "p0 = 0xE0 \<longrightarrow> 0xA0 \<le> b1" "b1 \<le> 0xBF"
  shows "128 \<le> rune_bits p0 0x0F 12 \<or> 128 \<le> rune_bits b1 0x3F 6"
proof (cases "p0 = 0xE0")
  case True
  with assms have "0xA0 \<le> uint b1 \<and> uint b1 \<le> 0xBF" by (simp add: word_le_def)
  then have "32 \<le> uint b1 mod 64" by presburger
  then show ?thesis by (simp add: rune_bits_masks)
next
  case False
  then have "uint p0 \<noteq> 0xE0" by (simp add: word_uint_eq_iff)
  with assms have "0xE0 < uint p0 \<and> uint p0 \<le> 0xEF" by (simp add: word_le_def)
  then have "1 \<le> uint p0 mod 16" by presburger
  then show ?thesis by (simp add: rune_bits_masks)
qed

lemma decode4_ge:
  assumes "0xF0 \<le> p0" "p0 \<le> 0xF4" "p0 = 0xF0 \<longrightarrow> 0x90 \<le> b1" "b1 \<le> 0xBF"
  shows "128 \<le> rune_bits p0 0x07 18 \<or> 128 \<le> rune_bits b1 0x3F 12"
proof (cases "p0 = 0xF0")
  case True
  with assms have "0x90 \<le> uint b1 \<and> uint b1 \<le> 0xBF" by (simp add: word_le_def)
  then have "16 \<le> uint b1 mod 64" by presburger
  then show ?thesis by (simp add: rune_bits_masks)
next
  case False
  then have "uint p0 \<noteq> 0xF0" by (simp add: word_uint_eq_iff)
  with assms have "0xF0 < uint p0 \<and> uint p0 \<le> 0xF4" by (simp add: word_le_def)
  then have "1 \<le> uint p0 mod 8" by presburger
  then show ?thesis by (simp add: rune_bits_masks)
qed

lemma or_ge_left: "k \<le> a \<Longrightarrow> 0 \<le> b \<Longrightarrow> (k :: int) \<le> a OR b"
  using or_greater_eq [of b a] by simp

lemma or_ge_right: "k \<le> b \<Longrightarrow> 0 \<le> a \<Longrightarrow> (k :: int) \<le> a OR b"
  using or_greater_eq [of a b] by (simp add: or.commute)

lemma DecodeRune_nonascii_rune:
  assumes "\<not> p0 < 0x80"
  shows "128 \<le> fst (DecodeRune (p0 # ps))"
proof (cases "utf8_first p0")
  case None
  with assms show ?thesis by (simp add: DecodeRune.simps RuneError_def)
next
  case (Some a)
  obtain sz lo hi where a: "a = (sz, lo, hi)" by (cases a)
  have f: "utf8_first p0 = Some (sz, lo, hi)" using Some a by simp
  note F = utf8_first_SomeD [OF f]
  have r: "128 \<le> RuneError" by (simp add: RuneError_def)
  consider "sz = 2" | "sz = 3" | "sz = 4" using F by linarith
  then show ?thesis
  proof cases
    case 1
    with assms f F r decode2_ge [of p0] show ?thesis
      by (auto simp: DecodeRune.simps intro!: or_ge_left)
  next
    case 2
    have "128 \<le> rune_bits p0 0x0F 12 OR rune_bits (ps ! 0) 0x3F 6 OR rune_bits (ps ! 1) 0x3F 0"
      if "\<not> (ps ! 0 < lo \<or> hi < ps ! 0)"
    proof -
      have "p0 = 0xE0 \<longrightarrow> 0xA0 \<le> ps ! 0" "ps ! 0 \<le> 0xBF"
        using that F 2 by (auto intro: order_trans)
      then show ?thesis using decode3_ge [of p0 "ps ! 0"] F 2
        by (auto simp: or_ge_left or_ge_right)
    qed
    with 2 assms f r show ?thesis by (simp add: DecodeRune.simps)
  next
    case 3
    have "128 \<le> rune_bits p0 0x07 18 OR rune_bits (ps ! 0) 0x3F 12 OR rune_bits (ps ! 1) 0x3F 6
               OR rune_bits (ps ! 2) 0x3F 0"
      if "\<not> (ps ! 0 < lo \<or> hi < ps ! 0)"
    proof -
      have "p0 = 0xF0 \<longrightarrow> 0x90 \<le> ps ! 0" "ps ! 0 \<le> 0xBF"
        using that F 3 by (auto intro: order_trans)
      then show ?thesis using decode4_ge [of p0 "ps ! 0"] F 3
        by (auto simp: or_ge_left or_ge_right)
    qed
    with 3 assms f r show ?thesis by (simp add: DecodeRune.simps)
  qed
qed

lemma DecodeRune_nonascii_bytes:
  assumes "\<not> p0 < 0x80"
  shows "list_all (\<lambda>b. \<not> b < 0x80) (take (snd (DecodeRune (p0 # ps))) (p0 # ps))"
proof (cases "utf8_first p0")
  case None
  with assms show ?thesis by (simp add: DecodeRune.simps)
next
  case (Some a)
  obtain sz lo hi where a: "a = (sz, lo, hi)" by (cases a)
  have f: "utf8_first p0 = Some (sz, lo, hi)" using Some a by simp
  note F = utf8_first_SomeD [OF f]
  have t1: "take 1 (p0 # ps) = [p0]" by simp
  have two: "length ps \<ge> 1 \<Longrightarrow> take 2 (p0 # ps) = [p0, ps ! 0]"
    by (cases ps) simp_all
  have three: "length ps \<ge> 2 \<Longrightarrow> take 3 (p0 # ps) = [p0, ps ! 0, ps ! 1]"
    by (cases ps; cases "tl ps") simp_all
  have four: "length ps \<ge> 3 \<Longrightarrow> take 4 (p0 # ps) = [p0, ps ! 0, ps ! 1, ps ! 2]"
    by (cases ps; cases "tl ps"; cases "tl (tl ps)") simp_all
  have lo: "\<not> ps ! 0 < lo \<Longrightarrow> \<not> ps ! 0 < 0x80"
    using F by (auto simp: not_less intro: order_trans)
  have sz: "sz = 2 \<or> sz = 3 \<or> sz = 4" using F by linarith
  show ?thesis
    using assms f sz lo two three four
    by (auto simp: DecodeRune.simps(2) not_cont_def)
qed

section \<open>The runes of a byte slice\<close>

text \<open>Every loop of the source over the runes of a slice decodes a rune at the current
  position and advances by its width.  \<open>chunks s\<close> is what such a loop sees: each rune
  with the bytes it was decoded from.\<close>

function chunks :: "bytes \<Rightarrow> (rune \<times> bytes) list" where
  "chunks s = (if s = [] then []
     else (fst (DecodeRune s), take (snd (DecodeRune s)) s) # chunks (drop (snd (DecodeRune s)) s))"
  by pat_completeness auto
termination
  by (relation "measure length") (auto simp: DecodeRune_size_pos)

declare chunks.simps [simp del]

lemma chunks_Nil [simp]: "chunks [] = []"
  by (simp add: chunks.simps)

lemma chunks_ascii [simp]: "b < 0x80 \<Longrightarrow> chunks (b # s) = (uint b, [b]) # chunks s"
  by (subst chunks.simps) simp

lemma chunks_concat: "concat (map snd (chunks s)) = s"
proof (induction s rule: chunks.induct)
  case (1 s)
  then show ?case
    by (subst chunks.simps) (simp add: split_def)
qed

abbreviation runes :: "bytes \<Rightarrow> rune list" where
  "runes s \<equiv> map fst (chunks s)"

definition ascii_chunk :: "rune \<times> bytes \<Rightarrow> bool" where
  "ascii_chunk rc \<longleftrightarrow> (\<exists>b. b < 0x80 \<and> rc = (uint b, [b]))"

definition wide_chunk :: "rune \<times> bytes \<Rightarrow> bool" where
  "wide_chunk rc \<longleftrightarrow> 128 \<le> fst rc \<and> snd rc \<noteq> [] \<and> list_all (\<lambda>b. \<not> b < 0x80) (snd rc)"

lemma DecodeRune_chunk:
  "s \<noteq> [] \<Longrightarrow> ascii_chunk (fst (DecodeRune s), take (snd (DecodeRune s)) s)
     \<or> wide_chunk (fst (DecodeRune s), take (snd (DecodeRune s)) s)"
proof (cases s)
  case (Cons p0 ps)
  show ?thesis
  proof (cases "p0 < 0x80")
    case True
    with Cons show ?thesis by (auto simp: ascii_chunk_def)
  next
    case False
    with Cons DecodeRune_nonascii_rune [OF False, of ps] DecodeRune_nonascii_bytes [OF False, of ps]
      DecodeRune_size_pos [of "p0 # ps"]
    show ?thesis by (simp add: wide_chunk_def)
  qed
qed simp

lemma chunks_cases: "rc \<in> set (chunks s) \<Longrightarrow> ascii_chunk rc \<or> wide_chunk rc"
proof (induction s rule: chunks.induct)
  case (1 s)
  show ?case
  proof (cases "s = []")
    case False
    with 1 DecodeRune_chunk [of s] show ?thesis
      by (auto simp: chunks.simps [of s])
  qed (use 1 in simp)
qed

lemma wide_not_ascii: "wide_chunk rc \<Longrightarrow> \<not> ascii_chunk rc"
  by (auto simp: wide_chunk_def ascii_chunk_def)

lemma ascii_chunk_iff:
  "rc \<in> set (chunks s) \<Longrightarrow> fst rc < 128 \<longleftrightarrow> ascii_chunk rc"
  using chunks_cases [of rc s]
  by (auto simp: wide_chunk_def ascii_chunk_def word_less_def)

text \<open>An ASCII slice decodes byte by byte.\<close>

lemma chunks_all_ascii:
  "list_all (\<lambda>b. b < 0x80) s \<Longrightarrow> chunks s = map (\<lambda>b. (uint b, [b])) s"
  by (induction s) simp_all

lemma runes_all_ascii: "list_all (\<lambda>b. b < 0x80) s \<Longrightarrow> runes s = map uint s"
  by (simp add: chunks_all_ascii comp_def)

text \<open>Cutting a slice after whole chunks does not change how the chunks decode.\<close>

lemma DecodeRune_take:
  assumes "snd (DecodeRune s) \<le> k" "0 < k"
  shows "DecodeRune (take k s) = DecodeRune s"
proof (cases s)
  case (Cons p0 ps)
  obtain k' where k: "k = Suc k'" using assms(2) by (cases k) auto
  show ?thesis
  proof (cases "p0 < 0x80")
    case False
    show ?thesis
    proof (cases "utf8_first p0")
      case None
      with Cons k False show ?thesis by (simp add: DecodeRune.simps)
    next
      case (Some a)
      obtain sz lo hi where a: "a = (sz, lo, hi)" by (cases a)
      have f: "utf8_first p0 = Some (sz, lo, hi)" using Some a by simp
      have sz: "sz = 2 \<or> sz = 3 \<or> sz = 4" using utf8_first_SomeD [OF f] by linarith
      have nth: "i < k' \<Longrightarrow> take k' ps ! i = ps ! i" for i by simp
      have D: "snd (DecodeRune (p0 # ps)) \<le> Suc k'" using assms(1) unfolding Cons k .
      from sz have "DecodeRune (p0 # take k' ps) = DecodeRune (p0 # ps)"
      proof (elim disjE)
        assume "sz = 2"
        with D False f show ?thesis
          by (cases "k' = 0") (simp_all add: DecodeRune.simps(2) nth min_def split: if_splits)
      next
        assume "sz = 3"
        with D False f show ?thesis
          by (cases "k' = 0"; cases "k' = 1")
            (simp_all add: DecodeRune.simps(2) nth min_def split: if_splits)
      next
        assume "sz = 4"
        with D False f show ?thesis
          by (cases "k' = 0"; cases "k' = 1"; cases "k' = 2")
            (simp_all add: DecodeRune.simps(2) nth min_def split: if_splits)
      qed
      then show ?thesis by (simp add: Cons k)
    qed
  qed (use Cons k in simp)
qed simp

lemma chunks_takeWhile:
  "chunks (concat (map snd (takeWhile P (chunks s)))) = takeWhile P (chunks s)"
proof (induction s rule: chunks.induct)
  case (1 s)
  let ?r = "fst (DecodeRune s)" and ?n = "snd (DecodeRune s)"
  show ?case
  proof (cases "s \<noteq> [] \<and> P (?r, take ?n s)")
    case True
    then have ne: "s \<noteq> []" by simp
    define rest where "rest = concat (map snd (takeWhile P (chunks (drop ?n s))))"
    have IH: "chunks rest = takeWhile P (chunks (drop ?n s))"
      using 1 ne by (simp add: rest_def)
    have cs: "chunks s = (?r, take ?n s) # chunks (drop ?n s)"
      using ne by (simp add: chunks.simps [of s])
    have "\<exists>m. rest = take m (drop ?n s)"
    proof -
      have "concat (map snd (takeWhile P (chunks (drop ?n s)))) @
          concat (map snd (dropWhile P (chunks (drop ?n s)))) = drop ?n s"
        by (metis chunks_concat concat_append map_append takeWhile_dropWhile_id)
      then show ?thesis unfolding rest_def by (metis append_eq_conv_conj)
    qed
    then obtain m where m: "rest = take m (drop ?n s)" by blast
    have pre: "take ?n s @ rest = take (?n + m) s" by (simp add: m take_add)
    have dec: "DecodeRune (take (?n + m) s) = DecodeRune s"
      using DecodeRune_take [of s "?n + m"] DecodeRune_size_pos [OF ne] by simp
    have len: "?n \<le> length s" using DecodeRune_size [OF ne] by simp
    have nep: "take (?n + m) s \<noteq> []" using ne DecodeRune_size_pos [OF ne] by simp
    have "chunks (take (?n + m) s) = (?r, take ?n s) # chunks rest"
      using nep by (subst chunks.simps) (simp add: dec m drop_take take_take)
    moreover have "concat (map snd (takeWhile P (chunks s))) = take (?n + m) s"
      using True pre by (simp add: cs rest_def)
    moreover have "takeWhile P (chunks s) = (?r, take ?n s) # chunks rest"
      using True by (simp add: cs IH)
    ultimately show ?thesis by simp
  next
    case False
    then show ?thesis by (auto simp: chunks.simps [of s])
  qed
qed

section \<open>Character classes and case mapping of package unicode\<close>

definition IsSpace :: "rune \<Rightarrow> bool" where
  "IsSpace r \<longleftrightarrow>
     (9 \<le> r \<and> r \<le> 13) \<or> r = 0x20 \<or> r = 0x85 \<or> r = 0xA0 \<or> r = 0x1680
     \<or> (0x2000 \<le> r \<and> r \<le> 0x200A) \<or> r = 0x2028 \<or> r = 0x2029 \<or> r = 0x202F \<or> r = 0x205F \<or> r = 0x3000"

text \<open>\<open>unicode.ToUpper\<close> and \<open>unicode.ToLower\<close>, with the case table of the runes above ASCII
  as the argument \<open>tbl\<close>.\<close>

definition unicode_ToUpper :: "(rune \<Rightarrow> rune) \<Rightarrow> rune \<Rightarrow> rune" where
  "unicode_ToUpper tbl r =
     (if r < 128 then (if 97 \<le> r \<and> r \<le> 122 then r - 32 else r) else tbl r)"

definition unicode_ToLower :: "(rune \<Rightarrow> rune) \<Rightarrow> rune \<Rightarrow> rune" where
  "unicode_ToLower tbl r =
     (if r < 128 then (if 65 \<le> r \<and> r \<le> 90 then r + 32 else r) else tbl r)"

text \<open>The runes above ASCII whose case mapping is an ASCII letter: the dotless i and the
  long s upwards, the dotted capital I and the Kelvin sign downwards.  A case table is
  admissible when it has these entries and maps every other rune above ASCII to a rune
  above ASCII.  \<open>upper_tbl\<close> and \<open>lower_tbl\<close> are the least such tables; the matchers
  that use case mapping only inspect ASCII results, so they give the same answer for
  every admissible table.\<close>

definition upper_tbl :: "rune \<Rightarrow> rune" where
  "upper_tbl r = (if r = 0x131 then 73 else if r = 0x17F then 83 else r)"

definition lower_tbl :: "rune \<Rightarrow> rune" where
  "lower_tbl r = (if r = 0x130 then 105 else if r = 0x212A then 107 else r)"

definition admissible_upper :: "(rune \<Rightarrow> rune) \<Rightarrow> bool" where
  "admissible_upper tbl \<longleftrightarrow> tbl 0x131 = 73 \<and> tbl 0x17F = 83
     \<and> (\<forall>r. 128 \<le> r \<longrightarrow> r \<noteq> 0x131 \<longrightarrow> r \<noteq> 0x17F \<longrightarrow> 128 \<le> tbl r)"

definition admissible_lower :: "(rune \<Rightarrow> rune) \<Rightarrow> bool" where
  "admissible_lower tbl \<longleftrightarrow> tbl 0x130 = 105 \<and> tbl 0x212A = 107
     \<and> (\<forall>r. 128 \<le> r \<longrightarrow> r \<noteq> 0x130 \<longrightarrow> r \<noteq> 0x212A \<longrightarrow> 128 \<le> tbl r)"

lemma admissible_upper_tbl: "admissible_upper upper_tbl"
  by (simp add: admissible_upper_def upper_tbl_def)

lemma admissible_lower_tbl: "admissible_lower lower_tbl"
  by (simp add: admissible_lower_def lower_tbl_def)

section \<open>Package bytes\<close>

definition EncodeRune :: "rune \<Rightarrow> bytes" where
  "EncodeRune r0 =
     (if 0 \<le> r0 \<and> r0 < 0x80 then [word_of_int r0]
      else if 0 \<le> r0 \<and> r0 \<le> 0x7FF then
        [0xC0 OR word_of_int (drop_bit 6 r0), 0x80 OR (word_of_int r0 AND 0x3F)]
      else
        (let r = (if r0 < 0 \<or> 0x10FFFF < r0 \<or> (0xD800 \<le> r0 \<and> r0 \<le> 0xDFFF) then RuneError else r0)
         in if r \<le> 0xFFFF then
              [0xE0 OR word_of_int (drop_bit 12 r), 0x80 OR (word_of_int (drop_bit 6 r) AND 0x3F),
               0x80 OR (word_of_int r AND 0x3F)]
            else
              [0xF0 OR word_of_int (drop_bit 18 r), 0x80 OR (word_of_int (drop_bit 12 r) AND 0x3F),
               0x80 OR (word_of_int (drop_bit 6 r) AND 0x3F), 0x80 OR (word_of_int r AND 0x3F)]))"

definition bytes_Map :: "(rune \<Rightarrow> rune) \<Rightarrow> bytes \<Rightarrow> bytes" where
  "bytes_Map f s = concat (map (\<lambda>r. if 0 \<le> f r then EncodeRune (f r) else []) (runes s))"

definition bytes_ToUpper :: "(rune \<Rightarrow> rune) \<Rightarrow> bytes \<Rightarrow> bytes" where
  "bytes_ToUpper tbl s = bytes_Map (unicode_ToUpper tbl) s"

definition bytes_ToLower :: "(rune \<Rightarrow> rune) \<Rightarrow> bytes \<Rightarrow> bytes" where
  "bytes_ToLower tbl s = bytes_Map (unicode_ToLower tbl) s"

fun fields_loop :: "(rune \<Rightarrow> bool) \<Rightarrow> (rune \<times> bytes) list \<Rightarrow> bytes option \<Rightarrow> bytes list" where
  "fields_loop f [] None = []"
| "fields_loop f [] (Some cur) = [cur]"
| "fields_loop f ((r, c) # cs) None =
     (if f r then fields_loop f cs None else fields_loop f cs (Some c))"
| "fields_loop f ((r, c) # cs) (Some cur) =
     (if f r then cur # fields_loop f cs None else fields_loop f cs (Some (cur @ c)))"

definition FieldsFunc :: "bytes \<Rightarrow> (rune \<Rightarrow> bool) \<Rightarrow> bytes list" where
  "FieldsFunc s f = fields_loop f (chunks s) None"

text \<open>\<open>bytes.Split\<close> and \<open>strings.Split\<close> for a separator of one byte.\<close>

fun Split :: "bytes \<Rightarrow> byte \<Rightarrow> bytes list" where
  "Split [] sep = [[]]"
| "Split (b # s) sep =
     (if b = sep then [] # Split s sep
      else (case Split s sep of [] \<Rightarrow> [[b]] | p # ps \<Rightarrow> (b # p) # ps))"

fun IndexByte :: "bytes \<Rightarrow> byte \<Rightarrow> int" where
  "IndexByte [] c = -1"
| "IndexByte (b # s) c =
     (if b = c then 0 else if IndexByte s c < 0 then -1 else IndexByte s c + 1)"

fun LastIndexByte :: "bytes \<Rightarrow> byte \<Rightarrow> int" where
  "LastIndexByte [] c = -1"
| "LastIndexByte (b # s) c =
     (if 0 \<le> LastIndexByte s c then LastIndexByte s c + 1 else if b = c then 0 else -1)"

definition HasPrefix :: "bytes \<Rightarrow> bytes \<Rightarrow> bool" where
  "HasPrefix s p \<longleftrightarrow> length p \<le> length s \<and> take (length p) s = p"

definition HasSuffix :: "bytes \<Rightarrow> bytes \<Rightarrow> bool" where
  "HasSuffix s p \<longleftrightarrow> length p \<le> length s \<and> drop (length s - length p) s = p"

fun Contains :: "bytes \<Rightarrow> bytes \<Rightarrow> bool" where
  "Contains [] sub = (sub = [])"
| "Contains (b # s) sub = (HasPrefix (b # s) sub \<or> Contains s sub)"

text \<open>\<open>bytes.ReplaceAll(s, c, "")\<close> for a one-byte \<open>c\<close>.\<close>

definition RemoveAll :: "bytes \<Rightarrow> byte \<Rightarrow> bytes" where
  "RemoveAll s c = filter (\<lambda>b. b \<noteq> c) s"

text \<open>\<open>utf8.DecodeLastRune\<close>: the start of the last encoding is searched at most four
  bytes back; \<open>p\<close> is the slice reversed.\<close>

fun last_start :: "bytes \<Rightarrow> nat \<Rightarrow> nat" where
  "last_start [] k = 0"
| "last_start (b # p) k =
     (if k = 0 then 0 else if b AND 0xC0 \<noteq> 0x80 then 1 else Suc (last_start p (k - 1)))"

definition DecodeLastRune :: "bytes \<Rightarrow> rune \<times> nat" where
  "DecodeLastRune s =
     (if s = [] then (RuneError, 0)
      else if last s < 0x80 then (uint (last s), 1)
      else let n = min (length s) (Suc (last_start (tl (rev s)) 3));
               d = DecodeRune (drop (length s - n) s)
           in if snd d = n then d else (RuneError, 1))"

lemma DecodeLastRune_size_pos: "s \<noteq> [] \<Longrightarrow> 0 < snd (DecodeLastRune s)"
  by (auto simp: DecodeLastRune_def Let_def)

function TrimLeftSpace :: "bytes \<Rightarrow> bytes" where
  "TrimLeftSpace s = (if s = [] then []
     else if IsSpace (fst (DecodeRune s)) then TrimLeftSpace (drop (snd (DecodeRune s)) s) else s)"
  by pat_completeness auto
termination
  by (relation "measure length") (auto simp: DecodeRune_size_pos)

function TrimRightSpace :: "bytes \<Rightarrow> bytes" where
  "TrimRightSpace s = (if s = [] then []
     else if IsSpace (fst (DecodeLastRune s))
          then TrimRightSpace (take (length s - snd (DecodeLastRune s)) s) else s)"
  by pat_completeness auto
termination
  by (relation "measure length") (auto simp: DecodeLastRune_size_pos)

declare TrimLeftSpace.simps [simp del] TrimRightSpace.simps [simp del]

definition TrimSpace :: "bytes \<Rightarrow> bytes" where
  "TrimSpace s = TrimRightSpace (TrimLeftSpace s)"

section \<open>From runes back to bytes\<close>

abbreviation ascii :: "byte \<Rightarrow> bool" where
  "ascii b \<equiv> b < 0x80"

lemma uint_ascii: "ascii b \<longleftrightarrow> uint b < 128"
  by (simp add: word_less_def)

lemma EncodeRune_ascii [simp]: "ascii b \<Longrightarrow> EncodeRune (uint b) = [b]"
  by (simp add: EncodeRune_def uint_ascii)

lemma EncodeRune_wide_head:
  "\<not> r < 128 \<Longrightarrow> \<exists>b bs. EncodeRune r = b # bs \<and> \<not> ascii b"
  by (auto simp: EncodeRune_def Let_def not_less intro: order_trans [OF _ le_word_or2])

lemma EncodeRune_nonneg_cases:
  assumes "0 \<le> r"
  shows "(\<exists>b. ascii b \<and> r = uint b \<and> EncodeRune r = [b]) \<or> (128 \<le> r \<and> \<not> list_all ascii (EncodeRune r))"
proof (cases "r < 128")
  case True
  with assms have u: "uint (word_of_int r :: byte) = r"
    by (simp add: uint_word_of_int)
  have a: "ascii (word_of_int r)" unfolding uint_ascii u by (rule True)
  have "EncodeRune r = [word_of_int r]"
    using EncodeRune_ascii [OF a] by (simp only: u)
  with a u show ?thesis by metis
next
  case False
  then obtain b bs where "EncodeRune r = b # bs" "\<not> ascii b"
    using EncodeRune_wide_head by blast
  with False show ?thesis by simp
qed

text \<open>A class of runes that holds ASCII runes only.\<close>

definition ascii_class :: "(rune \<Rightarrow> bool) \<Rightarrow> bool" where
  "ascii_class P \<longleftrightarrow> (\<forall>r. P r \<longrightarrow> 0 \<le> r \<and> r < 128)"

lemma chunk_list_keep:
  assumes "ascii_class K" "\<forall>rc\<in>set cs. ascii_chunk rc \<or> wide_chunk rc"
  shows "concat (map ((\<lambda>r. if 0 \<le> (if K r then r else -1) then EncodeRune (if K r then r else -1) else []) \<circ> fst) cs)
       = filter (\<lambda>b. ascii b \<and> K (uint b)) (concat (map snd cs))"
  using assms(2)
proof (induction cs)
  case (Cons rc cs)
  have wide: "filter (\<lambda>b. ascii b \<and> K (uint b)) (snd rc) = []" "\<not> K (fst rc)" if "wide_chunk rc"
    using that assms(1) by (auto simp: wide_chunk_def list_all_iff filter_empty_conv ascii_class_def)
  show ?case
    using Cons wide by (auto simp: ascii_chunk_def)
qed simp

text \<open>\<open>bytes.Map\<close> with a function that keeps a class of ASCII runes is a filter on bytes.\<close>

lemma bytes_Map_keep:
  "ascii_class K \<Longrightarrow>
     bytes_Map (\<lambda>r. if K r then r else -1) s = filter (\<lambda>b. ascii b \<and> K (uint b)) s"
  unfolding bytes_Map_def map_map
  using chunk_list_keep [of K "chunks s"] chunks_cases [of _ s] by (simp add: chunks_concat)

lemma chunk_list_strip:
  assumes "ascii_class R" "\<forall>rc\<in>set cs. ascii_chunk rc \<or> wide_chunk rc"
  defines "out \<equiv> concat (map ((\<lambda>r. if 0 \<le> (if R r then -1 else r) then EncodeRune (if R r then -1 else r) else []) \<circ> fst) cs)"
  shows "list_all ascii out \<longleftrightarrow> list_all ascii (concat (map snd cs))"
    and "list_all ascii (concat (map snd cs)) \<Longrightarrow> out = filter (\<lambda>b. \<not> R (uint b)) (concat (map snd cs))"
proof -
  have "(list_all ascii out \<longleftrightarrow> list_all ascii (concat (map snd cs))) \<and>
    (list_all ascii (concat (map snd cs)) \<longrightarrow> out = filter (\<lambda>b. \<not> R (uint b)) (concat (map snd cs)))"
    using assms(2) unfolding out_def
  proof (induction cs)
    case (Cons rc cs)
    have wide: "\<not> list_all ascii (EncodeRune (fst rc))" "\<not> list_all ascii (snd rc)" "\<not> R (fst rc)" "0 \<le> fst rc"
      if "wide_chunk rc"
    proof -
      have r: "128 \<le> fst rc" and ne: "snd rc \<noteq> []" and b: "list_all (\<lambda>b. \<not> ascii b) (snd rc)"
        using that by (simp_all add: wide_chunk_def)
      show "0 \<le> fst rc" using r by simp
      show "\<not> R (fst rc)" using r assms(1) by (auto simp: ascii_class_def)
      show "\<not> list_all ascii (snd rc)" using ne b by (cases "snd rc") simp_all
      show "\<not> list_all ascii (EncodeRune (fst rc))"
        using EncodeRune_nonneg_cases [of "fst rc"] r by (auto simp: uint_ascii)
    qed
    show ?case
      using Cons wide by (auto simp: ascii_chunk_def)
  qed simp
  then show "list_all ascii out \<longleftrightarrow> list_all ascii (concat (map snd cs))"
    and "list_all ascii (concat (map snd cs)) \<Longrightarrow> out = filter (\<lambda>b. \<not> R (uint b)) (concat (map snd cs))"
    by blast+
qed

text \<open>\<open>bytes.Map\<close> with a function that drops a class of ASCII runes: the result is ASCII
  exactly when the input is, and then it is a filter on bytes.\<close>

lemma bytes_Map_strip_ascii:
  "ascii_class R \<Longrightarrow>
     list_all ascii (bytes_Map (\<lambda>r. if R r then -1 else r) s) \<longleftrightarrow> list_all ascii s"
  unfolding bytes_Map_def map_map
  using chunk_list_strip(1) [of R "chunks s"] chunks_cases [of _ s] by (simp add: chunks_concat)

lemma bytes_Map_strip:
  "ascii_class R \<Longrightarrow> list_all ascii s \<Longrightarrow>
     bytes_Map (\<lambda>r. if R r then -1 else r) s = filter (\<lambda>b. \<not> R (uint b)) s"
  unfolding bytes_Map_def map_map
  using chunk_list_strip(2) [of R "chunks s"] chunks_cases [of _ s] by (simp add: chunks_concat)

lemma concat_fields_loop:
  "concat (fields_loop f cs cur) =
     (case cur of None \<Rightarrow> [] | Some c \<Rightarrow> c) @ concat (map snd (filter (\<lambda>rc. \<not> f (fst rc)) cs))"
  by (induction f cs cur rule: fields_loop.induct) auto

lemma chunk_list_fields:
  assumes "ascii_class f" "\<forall>rc\<in>set cs. ascii_chunk rc \<or> wide_chunk rc"
  shows "concat (map snd (filter (\<lambda>rc. \<not> f (fst rc)) cs)) = filter (\<lambda>b. \<not> f (uint b)) (concat (map snd cs))"
  using assms(2)
proof (induction cs)
  case (Cons rc cs)
  have wide: "filter (\<lambda>b. \<not> f (uint b)) (snd rc) = snd rc" "\<not> f (fst rc)" if "wide_chunk rc"
    using that assms(1) by (auto simp: wide_chunk_def list_all_iff ascii_class_def filter_id_conv uint_ascii)
  show ?case
    using Cons wide by (auto simp: ascii_chunk_def)
qed simp

text \<open>Joining the fields cut at a class of ASCII runes is a filter on bytes.\<close>

lemma concat_FieldsFunc:
  "ascii_class f \<Longrightarrow> concat (FieldsFunc s f) = filter (\<lambda>b. \<not> f (uint b)) s"
  unfolding FieldsFunc_def
  using chunk_list_fields [of f "chunks s"] chunks_cases [of _ s]
  by (simp add: concat_fields_loop chunks_concat)

lemma ascii_byte_rune:
  assumes "b \<in> set s" "ascii b"
  shows "uint b \<in> set (runes s)"
proof -
  have "b \<in> set (concat (map snd (chunks s)))" unfolding chunks_concat by (rule assms(1))
  then obtain rc where rc: "rc \<in> set (chunks s)" "b \<in> set (snd rc)" by auto
  with assms(2) chunks_cases [OF rc(1)] have "ascii_chunk rc"
    by (auto simp: wide_chunk_def list_all_iff)
  with rc show ?thesis by (force simp: ascii_chunk_def)
qed

section \<open>Searching\<close>

lemma IndexByte_absent: "c \<notin> set s \<Longrightarrow> IndexByte s c = -1"
  by (induction s) auto

lemma IndexByte_split: "c \<notin> set p \<Longrightarrow> IndexByte (p @ c # q) c = int (length p)"
  by (induction p) auto

lemma LastIndexByte_absent: "c \<notin> set s \<Longrightarrow> LastIndexByte s c = -1"
  by (induction s) auto

lemma LastIndexByte_split: "c \<notin> set q \<Longrightarrow> LastIndexByte (p @ c # q) c = int (length p)"
  by (induction p) (auto simp: LastIndexByte_absent)

lemma IndexByte_range: "-1 \<le> IndexByte s c \<and> IndexByte s c < int (length s)"
  by (induction s) auto

lemma LastIndexByte_range: "-1 \<le> LastIndexByte s c \<and> LastIndexByte s c < int (length s)"
  by (induction s) auto

lemma IndexByte_cases:
  obtains "c \<notin> set s" "IndexByte s c = -1"
  | p q where "s = p @ c # q" "c \<notin> set p" "IndexByte s c = int (length p)"
  by (metis IndexByte_absent IndexByte_split split_list_first)

lemma LastIndexByte_cases:
  obtains "c \<notin> set s" "LastIndexByte s c = -1"
  | p q where "s = p @ c # q" "c \<notin> set q" "LastIndexByte s c = int (length p)"
  by (metis LastIndexByte_absent LastIndexByte_split split_list_last)

lemma Split_not_Nil: "Split s sep \<noteq> []"
  by (cases s) (auto split: list.splits)

lemma Split_no_sep: "sep \<notin> set s \<Longrightarrow> Split s sep = [s]"
  by (induction s) auto

lemma Split_length: "length (Split s sep) = Suc (count_list s sep)"
  by (induction s) (auto simp: Split_not_Nil split: list.splits)

lemma set_TrimLeftSpace: "set (TrimLeftSpace s) \<subseteq> set s"
proof (induction s rule: TrimLeftSpace.induct)
  case (1 s)
  show ?case
  proof (cases "s \<noteq> [] \<and> IsSpace (fst (DecodeRune s))")
    case True
    have "set (drop (snd (DecodeRune s)) s) \<subseteq> set s" by (auto dest: in_set_dropD)
    with 1 True show ?thesis by (simp add: TrimLeftSpace.simps [of s])
  qed (auto simp: TrimLeftSpace.simps [of s])
qed

lemma set_TrimRightSpace: "set (TrimRightSpace s) \<subseteq> set s"
proof (induction s rule: TrimRightSpace.induct)
  case (1 s)
  show ?case
  proof (cases "s \<noteq> [] \<and> IsSpace (fst (DecodeLastRune s))")
    case True
    have "set (take (length s - snd (DecodeLastRune s)) s) \<subseteq> set s" by (auto dest: in_set_takeD)
    with 1 True show ?thesis by (simp add: TrimRightSpace.simps [of s])
  qed (auto simp: TrimRightSpace.simps [of s])
qed

lemma set_TrimSpace: "set (TrimSpace s) \<subseteq> set s"
  unfolding TrimSpace_def using set_TrimLeftSpace set_TrimRightSpace by blast

fun join_sep :: "byte \<Rightarrow> bytes list \<Rightarrow> bytes" where
  "join_sep sep [] = []"
| "join_sep sep [p] = p"
| "join_sep sep (p # ps) = p @ sep # join_sep sep ps"

lemma Split_join: "join_sep sep (Split s sep) = s"
proof (induction s)
  case (Cons b s)
  then show ?case
    using Split_not_Nil [of s sep] by (cases "Split s sep"; cases "tl (Split s sep)") auto
qed simp

lemma Split_parts: "p \<in> set (Split s sep) \<Longrightarrow> sep \<notin> set p"
  by (induction s arbitrary: p) (auto split: list.splits if_splits)

text \<open>A chunk of one byte above ASCII is an invalid byte.\<close>

lemma DecodeRune_single:
  "\<not> ascii p0 \<Longrightarrow> snd (DecodeRune (p0 # ps)) = 1 \<Longrightarrow> fst (DecodeRune (p0 # ps)) = RuneError"
  by (auto simp: DecodeRune.simps split: option.splits if_splits)

lemma wide_chunk_single:
  "(r, c) \<in> set (chunks s) \<Longrightarrow> wide_chunk (r, c) \<Longrightarrow> length c = 1 \<Longrightarrow> r = RuneError"
proof (induction s rule: chunks.induct)
  case (1 s)
  from 1(2) have ne: "s \<noteq> []" by auto
  then obtain p0 ps where s: "s = p0 # ps" by (cases s) auto
  have cs: "chunks s = (fst (DecodeRune s), take (snd (DecodeRune s)) s) # chunks (drop (snd (DecodeRune s)) s)"
    using ne by (simp add: chunks.simps [of s])
  show ?case
  proof (cases "(r, c) \<in> set (chunks (drop (snd (DecodeRune s)) s))")
    case True
    then show ?thesis using 1 ne by blast
  next
    case False
    then have rc: "r = fst (DecodeRune s)" "c = take (snd (DecodeRune s)) s" using 1(2) cs by auto
    then have "snd (DecodeRune s) = 1" using 1(4) DecodeRune_size [OF ne] by simp
    moreover have "\<not> ascii p0" using 1(3) rc s calculation by (simp add: wide_chunk_def)
    ultimately show ?thesis using DecodeRune_single s rc by simp
  qed
qed

text \<open>Runes of an ASCII class are as many as bytes of it.\<close>

lemma length_filter_runes:
  assumes "ascii_class K"
  shows "length (filter K (runes s)) = length (filter (\<lambda>b. K (uint b)) s)"
proof -
  have "length (filter K (map fst cs)) = length (filter (\<lambda>b. K (uint b)) (concat (map snd cs)))"
    if "\<forall>rc\<in>set cs. ascii_chunk rc \<or> wide_chunk rc" for cs
    using that
  proof (induction cs)
    case (Cons rc cs)
    have "filter (\<lambda>b. K (uint b)) (snd rc) = []" "\<not> K (fst rc)" if "wide_chunk rc"
      using that assms by (auto simp: wide_chunk_def list_all_iff filter_empty_conv ascii_class_def uint_ascii)
    with Cons show ?case by (auto simp: ascii_chunk_def)
  qed simp
  from this [of "chunks s"] show ?thesis
    using chunks_cases [of _ s] by (simp add: chunks_concat)
qed

end
