(* ===== verification/Monitoring.thy ===== *)
theory Monitoring
  imports Prelude
begin

text \<open>
  \<open>src/monitoring/pattern.go\<close>, \<open>tracing.go\<close> and \<open>cache.go\<close>: what the request context
  carries, and the calls made on the logger and on the tracer.  The log records and the
  spans are values of type \<open>event\<close>: an operation that logs or traces returns the list of
  the calls it makes, in order.  The global tracer is read through the context record
  (\<open>tracer\<close>): it is a parameter of the model, a function that says which values
  \<open>StartSpanFromContext\<close> attaches to the context it returns.  \<open>noopTracer\<close> is the
  tracer that is installed by default.
\<close>

type_synonym trace_values = "string list"

record ctx =
  ctx_logger :: "string option"
  workID :: "string option"
  patternMonitoringEnabled :: "bool option"
  cancelled :: bool
  tracer :: "string \<Rightarrow> trace_values \<Rightarrow> trace_values"
  traceValues :: trace_values

definition noopTracer :: "string \<Rightarrow> trace_values \<Rightarrow> trace_values" where
  "noopTracer op vs = vs"

definition background :: ctx where
  "background = \<lparr>ctx_logger = None, workID = None, patternMonitoringEnabled = None,
     cancelled = False, tracer = noopTracer, traceValues = []\<rparr>"

datatype event =
    SpanStart string
  | SpanTag string string
  | SpanFinish string
  | LogStart string string string
  | LogEnd string string bool string

definition SetGlobalTracer :: "(string \<Rightarrow> trace_values \<Rightarrow> trace_values) \<Rightarrow> ctx \<Rightarrow> ctx" where
  "SetGlobalTracer t c = c\<lparr>tracer := t\<rparr>"

definition GlobalTracer :: "ctx \<Rightarrow> string \<Rightarrow> trace_values \<Rightarrow> trace_values" where
  "GlobalTracer c = tracer c"

text \<open>The DataDog tracer (\<open>src/monitoring/tracing_datadog.go\<close>): the client library is the parameter
  \<open>dd\<close>, which returns the span and then the context; the tracer returns them the other way
  round.  The calls on the span are the events below.\<close>

definition dataDog_StartSpanFromContext :: "(trace_values \<Rightarrow> string \<Rightarrow> 'sp \<times> trace_values) \<Rightarrow> trace_values \<Rightarrow> string \<Rightarrow> trace_values \<times> 'sp" where
  "dataDog_StartSpanFromContext dd vs op = (let (span, newCtx) = dd vs op in (newCtx, span))"

definition NewDatadogTracer :: "(trace_values \<Rightarrow> string \<Rightarrow> 'sp \<times> trace_values) \<Rightarrow> string \<Rightarrow> trace_values \<Rightarrow> trace_values" where
  "NewDatadogTracer dd op vs = fst (dataDog_StartSpanFromContext dd vs op)"

definition WithLogger :: "ctx \<Rightarrow> string \<Rightarrow> ctx" where
  "WithLogger c l = c\<lparr>ctx_logger := Some l\<rparr>"

definition LoggerFromContext :: "ctx \<Rightarrow> string" where
  "LoggerFromContext c = (case ctx_logger c of Some l \<Rightarrow> l | None \<Rightarrow> ''default'')"

text \<open>The fresh UUID of \<open>WithWorkID\<close> comes from a library and is an argument.\<close>

definition WithWorkID :: "ctx \<Rightarrow> string \<Rightarrow> ctx" where
  "WithWorkID c uuid = c\<lparr>workID := Some uuid\<rparr>"

definition WorkIDFromContext :: "ctx \<Rightarrow> string" where
  "WorkIDFromContext c = (case workID c of Some i \<Rightarrow> i | None \<Rightarrow> [])"

definition WithPatternMonitoring :: "ctx \<Rightarrow> bool \<Rightarrow> ctx" where
  "WithPatternMonitoring c enabled = c\<lparr>patternMonitoringEnabled := Some enabled\<rparr>"

definition PatternMonitoringEnabled :: "ctx \<Rightarrow> bool" where
  "PatternMonitoringEnabled c = (case patternMonitoringEnabled c of Some e \<Rightarrow> e | None \<Rightarrow> False)"

definition LogPatternStart :: "ctx \<Rightarrow> string \<Rightarrow> event list" where
  "LogPatternStart c pname = [LogStart (LoggerFromContext c) pname (WorkIDFromContext c)]"

definition LogPatternEnd :: "ctx \<Rightarrow> string \<Rightarrow> bool \<Rightarrow> event list" where
  "LogPatternEnd c pname output = [LogEnd (LoggerFromContext c) pname output (WorkIDFromContext c)]"

definition StartSpanFromContext :: "ctx \<Rightarrow> string \<Rightarrow> ctx \<times> event list" where
  "StartSpanFromContext c op = (c\<lparr>traceValues := GlobalTracer c op (traceValues c)\<rparr>, [SpanStart op])"

text \<open>\<open>TracePattern\<close> returns the new context and the calls of the deferred finish function.\<close>

definition TracePattern :: "ctx \<Rightarrow> string \<Rightarrow> ctx \<times> event list \<times> event list" where
  "TracePattern c pname =
     (fst (StartSpanFromContext c pname), snd (StartSpanFromContext c pname), [SpanFinish pname])"

text \<open>The cache spans are tagged with the first twelve hexadecimal digits of the SHA-256 digest of
  the token, never with the token.  \<open>sha256.Sum256\<close> is the parameter \<open>sha\<close>.\<close>

definition hexDigit :: "nat \<Rightarrow> char" where
  "hexDigit n = ''0123456789abcdef'' ! n"

definition EncodeToString :: "bytes \<Rightarrow> string" where
  "EncodeToString bs = concat (map (\<lambda>b. [hexDigit (unat b div 16), hexDigit (unat b mod 16)]) bs)"

definition tokenDigestPrefix :: "(bytes \<Rightarrow> bytes) \<Rightarrow> bytes \<Rightarrow> string" where
  "tokenDigestPrefix sha token = take 12 (EncodeToString (sha token))"

definition TraceCacheOp :: "(bytes \<Rightarrow> bytes) \<Rightarrow> string \<Rightarrow> ctx \<Rightarrow> bytes \<Rightarrow> ctx \<times> event list \<times> event list" where
  "TraceCacheOp sha op c token =
     (fst (StartSpanFromContext c op),
      snd (StartSpanFromContext c op) @ [SpanTag ''cache.token'' (tokenDigestPrefix sha token)], [SpanFinish op])"

definition TraceCacheGetMatches :: "(bytes \<Rightarrow> bytes) \<Rightarrow> ctx \<Rightarrow> bytes \<Rightarrow> ctx \<times> event list \<times> event list" where
  "TraceCacheGetMatches sha = TraceCacheOp sha ''anonymize_cache_get_matches''"

definition TraceCacheSaveMatches :: "(bytes \<Rightarrow> bytes) \<Rightarrow> ctx \<Rightarrow> bytes \<Rightarrow> ctx \<times> event list \<times> event list" where
  "TraceCacheSaveMatches sha = TraceCacheOp sha ''anonymize_cache_save_matches''"

lemma GlobalTracer_SetGlobalTracer [simp]: "GlobalTracer (SetGlobalTracer t c) = t"
  by (simp add: GlobalTracer_def SetGlobalTracer_def)

lemma hexDigit_set: "n < 16 \<Longrightarrow> hexDigit n \<in> set ''0123456789abcdef''"
  unfolding hexDigit_def by (rule nth_mem) simp

lemma EncodeToString_digits: "set (EncodeToString bs) \<subseteq> set ''0123456789abcdef''"
proof -
  have "unat b < 256" for b :: byte using unsigned_less [of b] by (simp flip: of_nat_less_iff)
  then have "unat b div 16 < 16" for b :: byte by (simp add: less_mult_imp_div_less)
  then have "set [hexDigit (unat b div 16), hexDigit (unat b mod 16)] \<subseteq> set ''0123456789abcdef''" for b :: byte
    using hexDigit_set [of "unat b div 16"] hexDigit_set [of "unat b mod 16"] by simp
  then show ?thesis unfolding EncodeToString_def by fastforce
qed

lemma EncodeToString_length: "length (EncodeToString bs) = 2 * length bs"
  by (induction bs) (simp_all add: EncodeToString_def)

lemma tokenDigestPrefix_hex: "set (tokenDigestPrefix sha token) \<subseteq> set ''0123456789abcdef''"
  unfolding tokenDigestPrefix_def using set_take_subset EncodeToString_digits by fast

lemma tokenDigestPrefix_length: "length (sha token) = 32 \<Longrightarrow> length (tokenDigestPrefix sha token) = 12"
  by (simp add: tokenDigestPrefix_def EncodeToString_length)

section \<open>Well-nested events\<close>

text \<open>Replaying events against the stack of open spans and started matches: every finish
  closes the innermost open span, every end record belongs to the innermost start
  record, and nothing is left open.\<close>

fun replay :: "event list \<Rightarrow> event list \<Rightarrow> event list option" where
  "replay st [] = Some st"
| "replay st (SpanTag k v # es) = replay st es"
| "replay st (SpanStart n # es) = replay (SpanStart n # st) es"
| "replay st (LogStart l n i # es) = replay (LogStart l n i # st) es"
| "replay st (SpanFinish n # es) =
     (case st of SpanStart m # st' \<Rightarrow> if m = n then replay st' es else None | _ \<Rightarrow> None)"
| "replay st (LogEnd l n b i # es) =
     (case st of LogStart l' n' i' # st' \<Rightarrow>
        if l' = l \<and> n' = n \<and> i' = i then replay st' es else None | _ \<Rightarrow> None)"

definition well_nested :: "event list \<Rightarrow> bool" where
  "well_nested es \<longleftrightarrow> (\<forall>st. replay st es = Some st)"

lemma replay_append:
  "replay st (xs @ ys) = (case replay st xs of None \<Rightarrow> None | Some st' \<Rightarrow> replay st' ys)"
  by (induction st xs rule: replay.induct) (auto split: list.splits event.splits)

lemma well_nested_Nil [simp]: "well_nested []"
  by (simp add: well_nested_def)

lemma well_nested_append: "well_nested xs \<Longrightarrow> well_nested ys \<Longrightarrow> well_nested (xs @ ys)"
  by (simp add: well_nested_def replay_append)

lemma well_nested_match:
  "well_nested es \<Longrightarrow>
     well_nested (SpanStart n # LogStart l n i # es @ [LogEnd l n b i, SpanFinish n])"
  by (simp add: well_nested_def replay_append)

end
