(* ===== verification/Pattern.thy ===== *)
theory Pattern
  imports GoText Monitoring
begin

text \<open>
  \<open>src/pattern/pattern.go\<close> and \<open>src/pattern/meta.go\<close>: named patterns, their monitored
  \<open>Match\<close>, and the combinators.  A predicate returns its answer together with the
  monitoring events it emits, so that short-circuit evaluation is visible.  The contract
  every pattern of the package keeps is the locale \<open>pattern_contract\<close>.
\<close>

section \<open>Patterns\<close>

type_synonym PatternPredicate = "ctx \<Rightarrow> bytes \<Rightarrow> bool \<times> event list"

record BasePattern =
  pname :: string
  pfun :: PatternPredicate

definition NewBasePattern :: "string \<Rightarrow> PatternPredicate \<Rightarrow> BasePattern" where
  "NewBasePattern n f = \<lparr>pname = n, pfun = f\<rparr>"

definition Match :: "BasePattern \<Rightarrow> PatternPredicate" where
  "Match p c input =
     (if \<not> PatternMonitoringEnabled c then pfun p c input
      else let (newCtx, start, finish) = TracePattern c (pname p);
               (output, inner) = pfun p newCtx input
           in (output, start @ LogPatternStart newCtx (pname p) @ inner
                 @ LogPatternEnd newCtx (pname p) output @ finish))"

text \<open>\<open>PatternFunc\<close> lifts a match function, which emits nothing itself.  Its symbol, read by
  reflection, is an argument; the name is the part after the last slash.\<close>

fun split_char :: "char \<Rightarrow> string \<Rightarrow> string list" where
  "split_char sep [] = [[]]"
| "split_char sep (x # xs) =
     (if x = sep then [] # split_char sep xs
      else case split_char sep xs of [] \<Rightarrow> [[x]] | p # ps \<Rightarrow> (x # p) # ps)"

definition getFunctionName :: "string \<Rightarrow> string" where
  "getFunctionName fullName = (let parts = split_char (CHR ''/'') fullName in parts ! (length parts - 1))"

definition PatternFunc :: "string \<Rightarrow> (bytes \<Rightarrow> bool) \<Rightarrow> BasePattern" where
  "PatternFunc fullName g = NewBasePattern (getFunctionName fullName) (\<lambda>c s. (g s, []))"

lemma split_char_not_Nil [simp]: "split_char sep s \<noteq> []"
  by (induction s) (auto split: list.split)

lemma split_char_append:
  "split_char sep (p @ sep # s) = split_char sep p @ split_char sep s"
  by (induction p) (auto split: list.split)

lemma split_char_id: "sep \<notin> set s \<Longrightarrow> split_char sep s = [s]"
  by (induction s) auto

lemma getFunctionName_qualified: "CHR ''/'' \<notin> set n \<Longrightarrow> getFunctionName (p @ CHR ''/'' # n) = n"
  by (simp add: getFunctionName_def Let_def split_char_append split_char_id)

section \<open>Combinators\<close>

fun joinNames :: "string \<Rightarrow> string list \<Rightarrow> string" where
  "joinNames sep [] = []"
| "joinNames sep [x] = x"
| "joinNames sep (x # xs) = x @ sep @ joinNames sep xs"

definition Not_pattern :: "BasePattern \<Rightarrow> BasePattern" where
  "Not_pattern f = NewBasePattern (''Not('' @ pname f @ '')'')
     (\<lambda>c s. let (b, ev) = Match f c s in (\<not> b, ev))"

fun all_loop :: "BasePattern list \<Rightarrow> PatternPredicate" where
  "all_loop [] c s = (True, [])"
| "all_loop (f # fs) c s =
     (let (b, ev) = Match f c s in
      if \<not> b then (False, ev) else let (b', ev') = all_loop fs c s in (b', ev @ ev'))"

definition All_pattern :: "BasePattern list \<Rightarrow> BasePattern" where
  "All_pattern funcs = NewBasePattern (''All('' @ joinNames '', '' (map pname funcs) @ '')'')
     (\<lambda>c s. let (b, ev) = all_loop funcs c s in (b \<and> 0 < length funcs, ev))"

definition And_pattern :: "BasePattern \<Rightarrow> BasePattern \<Rightarrow> BasePattern" where
  "And_pattern a b = NewBasePattern (''And('' @ pname a @ '', '' @ pname b @ '')'')
     (\<lambda>c s. let (x, ev) = Match a c s in
        if \<not> x then (False, ev) else let (y, ev') = Match b c s in (y, ev @ ev'))"

fun any_loop :: "BasePattern list \<Rightarrow> PatternPredicate" where
  "any_loop [] c s = (False, [])"
| "any_loop (f # fs) c s =
     (let (b, ev) = Match f c s in
      if b then (True, ev) else let (b', ev') = any_loop fs c s in (b', ev @ ev'))"

definition Any_pattern :: "BasePattern list \<Rightarrow> BasePattern" where
  "Any_pattern funcs = NewBasePattern (''Any('' @ joinNames '', '' (map pname funcs) @ '')'')
     (any_loop funcs)"

definition Or_pattern :: "BasePattern \<Rightarrow> BasePattern \<Rightarrow> BasePattern" where
  "Or_pattern a b = NewBasePattern (''Or('' @ pname a @ '', '' @ pname b @ '')'')
     (\<lambda>c s. let (x, ev) = Match a c s in
        if x then (True, ev) else let (y, ev') = Match b c s in (y, ev @ ev'))"

definition Equal_pattern :: "bytes \<Rightarrow> BasePattern" where
  "Equal_pattern ref = NewBasePattern ''Equal'' (\<lambda>c s. (ref = s, []))"

definition StartsWith :: "bytes \<Rightarrow> BasePattern" where
  "StartsWith ref = NewBasePattern ''StartsWith'' (\<lambda>c s. (HasPrefix s ref, []))"

definition EndsWith :: "bytes \<Rightarrow> BasePattern" where
  "EndsWith ref = NewBasePattern ''EndsWith'' (\<lambda>c s. (HasSuffix s ref, []))"

text \<open>\<open>bytes.EqualFold\<close> needs Unicode folding tables; it is the parameter \<open>equalFold\<close>.\<close>

definition IgnoreCaseEqual :: "(bytes \<Rightarrow> bytes \<Rightarrow> bool) \<Rightarrow> bytes \<Rightarrow> BasePattern" where
  "IgnoreCaseEqual equalFold ref = NewBasePattern ''IgnoreCaseEqual'' (\<lambda>c s. (equalFold ref s, []))"

text \<open>\<open>regexp.Compile\<close> is the parameter \<open>compile\<close>: an error message, or the predicate of the
  compiled expression.  \<open>quote\<close> prints a string for the verb \<open>%q\<close>.\<close>

definition Regex :: "(string \<Rightarrow> string) \<Rightarrow> (string \<Rightarrow> string + (bytes \<Rightarrow> bool)) \<Rightarrow> string \<Rightarrow> string + BasePattern" where
  "Regex quote compile expr =
     (case compile expr of
        Inl err \<Rightarrow> Inl (''failed to compile regex pattern '' @ quote expr @ '': '' @ err)
      | Inr re \<Rightarrow> Inr (NewBasePattern (''Regex('' @ expr @ '')'') (\<lambda>c s. (re s, []))))"

definition clamp_n :: "int \<Rightarrow> nat \<Rightarrow> int" where
  "clamp_n n len = (let n1 = (if n < 1 then 1 else n) in if n1 > int len then int len else n1)"

fun at_least_loop :: "int \<Rightarrow> nat \<Rightarrow> int \<Rightarrow> int \<Rightarrow> BasePattern list \<Rightarrow> PatternPredicate" where
  "at_least_loop n len passes fails [] c s = (False, [])"
| "at_least_loop n len passes fails (f # fs) c s =
     (let (b, ev) = Match f c s;
          passes' = (if b then passes + 1 else passes);
          fails' = (if b then fails else fails + 1)
      in if int len - fails' < n then (False, ev)
         else if passes' \<ge> n then (True, ev)
         else let (b', ev') = at_least_loop n len passes' fails' fs c s in (b', ev @ ev'))"

text \<open>The pattern's name carries the clamped threshold in decimal; \<open>showInt\<close> prints it.\<close>

definition AtLeastN :: "(int \<Rightarrow> string) \<Rightarrow> int \<Rightarrow> BasePattern list \<Rightarrow> BasePattern" where
  "AtLeastN showInt n patterns =
     (let n' = clamp_n n (length patterns) in
      NewBasePattern (''AtLeastN('' @ showInt n' @ '', '' @ joinNames '', '' (map pname patterns) @ '')'')
        (at_least_loop n' (length patterns) 0 0 patterns))"

section \<open>The contract of a pattern\<close>

text \<open>What the analyzer relies on: the answer of a pattern is a function of the input alone
  (its language), and the events it emits are well nested.\<close>

locale pattern_contract =
  fixes p :: BasePattern and lang :: "bytes \<Rightarrow> bool"
  assumes pfun_lang: "fst (pfun p c s) \<longleftrightarrow> lang s"
    and pfun_events: "well_nested (snd (pfun p c s))"
    and pfun_quiet: "\<not> PatternMonitoringEnabled c \<Longrightarrow> snd (pfun p c s) = []"
begin

lemma Match_lang: "fst (Match p c s) \<longleftrightarrow> lang s"
  by (simp add: Match_def TracePattern_def split_def Let_def pfun_lang)

lemma Match_events: "well_nested (snd (Match p c s))"
proof (cases "PatternMonitoringEnabled c")
  case True
  then show ?thesis
    using well_nested_match [OF pfun_events [of "fst (StartSpanFromContext c (pname p))" s]]
    by (simp add: Match_def TracePattern_def split_def Let_def LogPatternStart_def LogPatternEnd_def
        StartSpanFromContext_def)
qed (simp add: Match_def pfun_events)

lemma Match_quiet: "\<not> PatternMonitoringEnabled c \<Longrightarrow> snd (Match p c s) = []"
  by (simp add: Match_def pfun_quiet)

lemma Match_eq: "Match p c s = (lang s, snd (Match p c s))"
  using Match_lang [of c s] by (cases "Match p c s") auto

lemma monitoring_transparent: "fst (Match p c s) = fst (Match p c' s)"
  by (simp add: Match_lang)

end

named_theorems contracts

lemmas contract_facts = pattern_contract.Match_lang pattern_contract.Match_events
  pattern_contract.Match_quiet

lemma PatternFunc_contract [contracts]: "pattern_contract (PatternFunc n g) g"
  by unfold_locales (simp_all add: PatternFunc_def NewBasePattern_def)

lemma Not_contract [contracts]:
  "pattern_contract p L \<Longrightarrow> pattern_contract (Not_pattern p) (\<lambda>s. \<not> L s)"
  by unfold_locales (simp_all add: Not_pattern_def NewBasePattern_def split_def Let_def contract_facts)

lemma And_contract [contracts]:
  "pattern_contract p L \<Longrightarrow> pattern_contract q M \<Longrightarrow>
     pattern_contract (And_pattern p q) (\<lambda>s. L s \<and> M s)"
  by unfold_locales
    (simp_all add: And_pattern_def NewBasePattern_def split_def Let_def contract_facts well_nested_append)

lemma Or_contract [contracts]:
  "pattern_contract p L \<Longrightarrow> pattern_contract q M \<Longrightarrow>
     pattern_contract (Or_pattern p q) (\<lambda>s. L s \<or> M s)"
  by unfold_locales
    (simp_all add: Or_pattern_def NewBasePattern_def split_def Let_def contract_facts well_nested_append)

lemma all_loop_facts:
  assumes "list_all2 pattern_contract ps Ls"
  shows "(fst (all_loop ps c s) \<longleftrightarrow> list_all (\<lambda>L. L s) Ls) \<and> well_nested (snd (all_loop ps c s))
     \<and> (\<not> PatternMonitoringEnabled c \<longrightarrow> snd (all_loop ps c s) = [])"
  using assms
  by (induction rule: list_all2_induct) (auto simp: split_def Let_def contract_facts well_nested_append)

lemma All_contract [contracts]:
  "list_all2 pattern_contract ps Ls \<Longrightarrow>
     pattern_contract (All_pattern ps) (\<lambda>s. Ls \<noteq> [] \<and> list_all (\<lambda>L. L s) Ls)"
  using all_loop_facts [of ps Ls] list_all2_lengthD [of pattern_contract ps Ls]
  by unfold_locales (auto simp: All_pattern_def NewBasePattern_def split_def Let_def)

lemma any_loop_facts:
  assumes "list_all2 pattern_contract ps Ls"
  shows "(fst (any_loop ps c s) \<longleftrightarrow> list_ex (\<lambda>L. L s) Ls) \<and> well_nested (snd (any_loop ps c s))
     \<and> (\<not> PatternMonitoringEnabled c \<longrightarrow> snd (any_loop ps c s) = [])"
  using assms
  by (induction rule: list_all2_induct) (auto simp: split_def Let_def contract_facts well_nested_append)

lemma Any_contract [contracts]:
  "list_all2 pattern_contract ps Ls \<Longrightarrow>
     pattern_contract (Any_pattern ps) (\<lambda>s. list_ex (\<lambda>L. L s) Ls)"
  using any_loop_facts [of ps Ls]
  by unfold_locales (auto simp: Any_pattern_def NewBasePattern_def)

lemma at_least_loop_facts:
  assumes "list_all2 pattern_contract ps Ls"
    and "passes < n" "n \<le> int len - fails" "int len = passes + fails + int (length ps)"
  shows "(fst (at_least_loop n len passes fails ps c s) \<longleftrightarrow> n \<le> passes + int (length (filter (\<lambda>L. L s) Ls)))
     \<and> well_nested (snd (at_least_loop n len passes fails ps c s))
     \<and> (\<not> PatternMonitoringEnabled c \<longrightarrow> snd (at_least_loop n len passes fails ps c s) = [])"
  using assms
proof (induction arbitrary: passes fails rule: list_all2_induct)
  case (Cons f fs L Ls)
  note M = pattern_contract.Match_lang [OF Cons.hyps(1), of c s]
    pattern_contract.Match_events [OF Cons.hyps(1), of c s]
    pattern_contract.Match_quiet [OF Cons.hyps(1), of c s]
  have len: "length fs = length Ls" using Cons.hyps(2) by (rule list_all2_lengthD)
  have few: "int (length (filter (\<lambda>L. L s) Ls)) \<le> int (length Ls)" by simp
  show ?case
  proof (cases "L s")
    case True
    with Cons.prems Cons.IH [of "passes + 1" fails] M len few show ?thesis
      by (auto simp: split_def Let_def well_nested_append)
  next
    case False
    note IH = Cons.IH [of passes "fails + 1"]
    show ?thesis
    proof (cases "int len - (fails + 1) < n")
      case decided: True
      then have "\<not> n \<le> passes + int (length (filter (\<lambda>L. L s) Ls))"
        using Cons.prems(3) len few by (simp del: of_nat_le_iff; linarith)
      with decided False M show ?thesis by (simp add: split_def Let_def)
    next
      case False
      with IH Cons.prems M len \<open>\<not> L s\<close> show ?thesis
        by (auto simp: split_def Let_def well_nested_append)
    qed
  qed
qed simp

lemma AtLeastN_contract [contracts]:
  assumes "list_all2 pattern_contract ps Ls"
  shows "pattern_contract (AtLeastN showInt n ps)
     (\<lambda>s. Ls \<noteq> [] \<and> clamp_n n (length Ls) \<le> int (length (filter (\<lambda>L. L s) Ls)))"
proof (cases "ps = []")
  case True
  with assms have "Ls = []" by simp
  with True show ?thesis
    by unfold_locales (simp_all add: AtLeastN_def NewBasePattern_def Let_def)
next
  case False
  have len: "length ps = length Ls" using assms by (rule list_all2_lengthD)
  have "0 < clamp_n n (length ps)" "clamp_n n (length ps) \<le> int (length ps)"
    using False by (auto simp: clamp_n_def Let_def)
  from at_least_loop_facts [OF assms this(1), of "length ps" 0] this(2) len False
  show ?thesis
    by unfold_locales (auto simp: AtLeastN_def NewBasePattern_def Let_def)
qed

text \<open>Contracts are preserved by every way of building patterns: the language of a pattern
  follows its construction.\<close>

lemma contract_unique: "pattern_contract p L \<Longrightarrow> pattern_contract p L' \<Longrightarrow> L = L'"
  using pattern_contract.Match_lang by blast

section \<open>Compositions\<close>

text \<open>The ways of composing patterns as syntax, the pattern that the calls build and what it
  means.\<close>

datatype composition =
    CFunc string "bytes \<Rightarrow> bool"
  | CNot composition
  | CAnd composition composition
  | COr composition composition
  | CAll "composition list"
  | CAny "composition list"
  | CAtLeast int "composition list"

primrec build :: "(int \<Rightarrow> string) \<Rightarrow> composition \<Rightarrow> BasePattern" where
  "build showInt (CFunc n g) = PatternFunc n g"
| "build showInt (CNot e) = Not_pattern (build showInt e)"
| "build showInt (CAnd e f) = And_pattern (build showInt e) (build showInt f)"
| "build showInt (COr e f) = Or_pattern (build showInt e) (build showInt f)"
| "build showInt (CAll es) = All_pattern (map (build showInt) es)"
| "build showInt (CAny es) = Any_pattern (map (build showInt) es)"
| "build showInt (CAtLeast n es) = AtLeastN showInt n (map (build showInt) es)"

primrec means :: "composition \<Rightarrow> bytes \<Rightarrow> bool" where
  "means (CFunc n g) = g"
| "means (CNot e) = (\<lambda>s. \<not> means e s)"
| "means (CAnd e f) = (\<lambda>s. means e s \<and> means f s)"
| "means (COr e f) = (\<lambda>s. means e s \<or> means f s)"
| "means (CAll es) = (\<lambda>s. es \<noteq> [] \<and> list_all (\<lambda>L. L s) (map means es))"
| "means (CAny es) = (\<lambda>s. list_ex (\<lambda>L. L s) (map means es))"
| "means (CAtLeast n es) = (\<lambda>s. es \<noteq> [] \<and> max 1 (min n (int (length es))) \<le> int (length (filter (\<lambda>L. L s) (map means es))))"

lemma clamp_n_max: "0 < k \<Longrightarrow> clamp_n n k = max 1 (min n (int k))"
  by (simp add: clamp_n_def Let_def max_def min_def)

lemma build_contract: "pattern_contract (build showInt e) (means e)"
proof (induction e)
  case (CAll es)
  then have "list_all2 pattern_contract (map (build showInt) es) (map means es)"
    by (simp add: list_all2_conv_all_nth)
  from All_contract [OF this] show ?case by simp
next
  case (CAny es)
  then have "list_all2 pattern_contract (map (build showInt) es) (map means es)"
    by (simp add: list_all2_conv_all_nth)
  from Any_contract [OF this] show ?case by simp
next
  case (CAtLeast n es)
  then have "list_all2 pattern_contract (map (build showInt) es) (map means es)"
    by (simp add: list_all2_conv_all_nth)
  moreover have "means (CAtLeast n es) = (\<lambda>s. map means es \<noteq> [] \<and>
      clamp_n n (length (map means es)) \<le> int (length (filter (\<lambda>L. L s) (map means es))))"
    by (cases "es = []") (simp_all add: clamp_n_max)
  ultimately show ?case unfolding build.simps by (simp only: AtLeastN_contract)
qed (simp_all add: contracts)

text \<open>\<open>All\<close> of no patterns matches nothing (its documentation says it matches everything);
  of a non-empty list it matches when every pattern does.\<close>

lemma All_empty_never_matches:
  "\<not> fst (Match (All_pattern []) c s) \<and>
   (list_all2 pattern_contract ps Ls \<longrightarrow> ps \<noteq> [] \<longrightarrow>
      (fst (Match (All_pattern ps) c s) \<longleftrightarrow> (\<forall>L\<in>set Ls. L s)))"
proof -
  have "\<not> fst (Match (All_pattern []) c s)"
    using pattern_contract.Match_lang [OF All_contract [of "[]" "[]"]] by simp
  then show ?thesis
    using pattern_contract.Match_lang [OF All_contract] by (auto simp: list_all_iff)
qed

section \<open>Properties\<close>

text \<open>C36: Patterns composed in any way with the combinators, nested as deep as one likes, answer
  exactly what the composition means: \<open>Not\<close>, \<open>And\<close>, \<open>Or\<close> and \<open>Any\<close> are the connectives, \<open>All\<close>
  asks for every pattern and never matches without patterns (its documentation says it
  always does), and \<open>AtLeastN\<close> compares the number of matching patterns with the threshold
  clamped to \<open>1..len\<close>.  The answer does not depend on the context, the monitoring events
  are well nested, and there are none when monitoring is off.\<close>

theorem compositions_denote:
  "(fst (Match (build showInt e) c s) \<longleftrightarrow> means e s)
   \<and> well_nested (snd (Match (build showInt e) c s))
   \<and> (PatternMonitoringEnabled c \<or> snd (Match (build showInt e) c s) = [])"
  using build_contract [of showInt e] contract_facts by blast

end
