(* ===== verification/MatchFuncs.thy ===== *)
theory MatchFuncs
  imports GoText
begin

text \<open>
  The match functions of \<open>src/pattern/regex.go\<close> that are written in plain Go: card
  numbers, repeated digits, file names, phone numbers (V2), email addresses (V2), vehicle
  numbers and UUIDs.  Each is followed by what it accepts, in terms of the bytes of the
  input.
\<close>

section \<open>Definitions\<close>

abbreviation ch :: "char \<Rightarrow> byte" where
  "ch c \<equiv> of_char c"

definition testCreditCardNumbers :: "bytes list" where
  "testCreditCardNumbers = map str
    [''4242424242424242'', ''4012888888881881'', ''4000056655665556'', ''5555555555554444'',
     ''5200828282828210'', ''5105105105105100'', ''378282246310005'', ''371449635398431'',
     ''6011111111111117'', ''6011000990139424'', ''30569309025904'', ''38520000023237'',
     ''3530111333300000'', ''3566002020360505'']"

definition MatchTestCreditCard :: "bytes \<Rightarrow> bool" where
  "MatchTestCreditCard s \<longleftrightarrow> list_ex (\<lambda>cc. cc = s) testCreditCardNumbers"

text \<open>The inner loop of \<open>MatchRepeatingNumber\<close> counts how often the byte at the current
  position repeats after it.\<close>

fun count_same :: "byte \<Rightarrow> bytes \<Rightarrow> nat" where
  "count_same b [] = 0"
| "count_same b (x # xs) = (if x = b then Suc (count_same b xs) else 0)"

fun MatchRepeatingNumber :: "bytes \<Rightarrow> bool" where
  "MatchRepeatingNumber [] = False"
| "MatchRepeatingNumber (b # s) =
     (if b < ch (CHR ''0'') \<or> b > ch (CHR ''9'') then MatchRepeatingNumber s
      else if 1 + count_same b s \<ge> 5 then True
      else MatchRepeatingNumber s)"

definition validFileExtensions :: "string list" where
  "validFileExtensions =
    [''ez'', ''anx'', ''atom'', ''webp'', ''atomcat'', ''atomsrv'', ''lin'', ''cu'',
     ''davmount'', ''dcm'', ''tsp'', ''es'', ''otf'', ''ttf'', ''pfr'', ''woff'', ''spl'',
     ''gz'', ''hta'', ''jar'', ''ser'', ''class'', ''js'', ''json'', ''m3g'', ''hqx'', ''cpt'',
     ''nb'', ''nbp'', ''mbox'', ''mdb'', ''doc'', ''dot'', ''mxf'', ''bin'', ''deploy'', ''msu'',
     ''msp'', ''oda'', ''opf'', ''ogx'', ''one'', ''onetoc2'', ''onetmp'', ''onepkg'', ''pdf'',
     ''pgp'', ''key'', ''sig'', ''prf'', ''ps'', ''ai'', ''eps'', ''epsi'', ''epsf'', ''eps2'',
     ''eps3'', ''rar'', ''rdf'', ''rtf'', ''stl'', ''smi'', ''smil'', ''xhtml'', ''xht'',
     ''xml'', ''xsd'', ''xsl'', ''xslt'', ''xspf'', ''zip'', ''apk'', ''cdy'', ''deb'', ''ddeb'',
     ''udeb'', ''sfd'', ''kml'', ''kmz'', ''xul'', ''xls'', ''xlb'', ''xlt'', ''xlam'', ''xlsb'',
     ''xlsm'', ''xltm'', ''eot'', ''thmx'', ''cat'', ''ppt'', ''pps'', ''ppam'', ''pptm'',
     ''sldm'', ''ppsm'', ''potm'', ''docm'', ''dotm'', ''odc'', ''odb'', ''odf'', ''odg'',
     ''otg'', ''odi'', ''odp'', ''otp'', ''ods'', ''ots'', ''odt'', ''odm'', ''ott'', ''oth'',
     ''pptx'', ''sldx'', ''ppsx'', ''potx'', ''xlsx'', ''xltx'', ''docx'', ''dotx'', ''cod'',
     ''mmf'', ''sdc'', ''sds'', ''sda'', ''sdd'', ''sdf'', ''sdw'', ''sgl'', ''sxc'', ''stc'',
     ''sxd'', ''std'', ''sxi'', ''sti'', ''sxm'', ''sxw'', ''sxg'', ''stw'', ''sis'', ''cap'',
     ''pcap'', ''vsd'', ''vst'', ''vsw'', ''vss'', ''wbxml'', ''wmlc'', ''wmlsc'', ''wpd'',
     ''wp5'', ''wk'', ''7z'', ''abw'', ''dmg'', ''bcpio'', ''torrent'', ''cab'', ''cbr'',
     ''cbz'', ''cdf'', ''cda'', ''vcd'', ''pgn'', ''mph'', ''cpio'', ''csh'', ''dcr'', ''dir'',
     ''dxr'', ''dms'', ''wad'', ''dvi'', ''pfa'', ''pfb'', ''gsf'', ''pcf'', ''pcf.Z'', ''mm'',
     ''gan'', ''gnumeric'', ''sgf'', ''gcf'', ''gtar'', ''tgz'', ''taz'', ''hdf'', ''hwp'',
     ''ica'', ''info'', ''ins'', ''isp'', ''iii'', ''iso'', ''jam'', ''jnlp'', ''jmz'', ''chrt'',
     ''kil'', ''skp'', ''skd'', ''skt'', ''skm'', ''kpr'', ''kpt'', ''ksp'', ''kwd'', ''kwt'',
     ''latex'', ''lha'', ''lyx'', ''lzh'', ''lzx'', ''frm'', ''maker'', ''frame'', ''fm'',
     ''fb'', ''book'', ''fbdoc'', ''mif'', ''m3u8'', ''application'', ''manifest'', ''wmd'',
     ''wmz'', ''com'', ''exe'', ''bat'', ''dll'', ''msi'', ''nc'', ''pac'', ''nwc'', ''o'',
     ''oza'', ''p7r'', ''crl'', ''pyc'', ''pyo'', ''qgs'', ''shp'', ''shx'', ''qtl'', ''rdp'',
     ''rpm'', ''rss'', ''rb'', ''sci'', ''sce'', ''xcos'', ''sh'', ''shar'', ''swf'', ''swfl'',
     ''scr'', ''sql'', ''sit'', ''sitx'', ''sv4cpio'', ''sv4crc'', ''tar'', ''tcl'', ''gf'',
     ''pk'', ''texinfo'', ''texi'', ''~'', ''%'', ''bak'', ''old'', ''sik'', ''t'', ''tr'',
     ''roff'', ''man'', ''me'', ''ms'', ''ustar'', ''src'', ''wz'', ''crt'', ''xcf'', ''fig'',
     ''xpi'', ''xz'', ''amr'', ''awb'', ''axa'', ''au'', ''snd'', ''csd'', ''orc'', ''sco'',
     ''flac'', ''mid'', ''midi'', ''kar'', ''mpga'', ''mpega'', ''mp2'', ''mp3'', ''m4a'',
     ''m3u'', ''oga'', ''ogg'', ''opus'', ''spx'', ''sid'', ''aif'', ''aiff'', ''aifc'', ''gsm'',
     ''wma'', ''wax'', ''ra'', ''rm'', ''ram'', ''pls'', ''sd2'', ''wav'', ''alc'', ''cac'',
     ''cache'', ''csf'', ''cbin'', ''cascii'', ''ctab'', ''cdx'', ''cer'', ''c3d'', ''chm'',
     ''cif'', ''cmdf'', ''cml'', ''cpa'', ''bsd'', ''csml'', ''csm'', ''ctx'', ''cxf'', ''cef'',
     ''emb'', ''embl'', ''spc'', ''inp'', ''gam'', ''gamin'', ''fch'', ''fchk'', ''cub'',
     ''gau'', ''gjc'', ''gjf'', ''gal'', ''gcg'', ''gen'', ''hin'', ''istr'', ''ist'', ''jdx'',
     ''dx'', ''kin'', ''mcm'', ''mmd'', ''mmod'', ''mol'', ''rd'', ''rxn'', ''sd'', ''tgf'',
     ''mcif'', ''mol2'', ''b'', ''gpt'', ''mop'', ''mopcrt'', ''mpc'', ''zmt'', ''moo'', ''mvb'',
     ''asn'', ''prt'', ''ent'', ''val'', ''aso'', ''pdb'', ''ros'', ''sw'', ''vms'', ''vmd'',
     ''xtel'', ''xyz'', ''gif'', ''ief'', ''jp2'', ''jpg2'', ''jpeg'', ''jpg'', ''jpe'', ''jpm'',
     ''jpx'', ''jpf'', ''pcx'', ''png'', ''svg'', ''svgz'', ''tiff'', ''tif'', ''djvu'', ''djv'',
     ''ico'', ''wbmp'', ''cr2'', ''crw'', ''ras'', ''cdr'', ''pat'', ''cdt'', ''erf'', ''art'',
     ''jng'', ''bmp'', ''nef'', ''orf'', ''psd'', ''pnm'', ''pbm'', ''pgm'', ''ppm'', ''rgb'',
     ''xbm'', ''xpm'', ''xwd'', ''eml'', ''igs'', ''iges'', ''msh'', ''mesh'', ''silo'',
     ''vrml'', ''x3dv'', ''x3d'', ''x3db'', ''appcache'', ''ics'', ''icz'', ''css'', ''csv'',
     ''323'', ''html'', ''htm'', ''shtml'', ''uls'', ''mml'', ''asc'', ''txt'', ''text'',
     ''pot'', ''brf'', ''srt'', ''rtx'', ''sct'', ''wsc'', ''tm'', ''tsv'', ''ttl'', ''vcf'',
     ''vcard'', ''jad'', ''wml'', ''wmls'', ''bib'', ''boo'', ''hpp'', ''hxx'', ''hh'', ''cpp'',
     ''cxx'', ''cc'', ''h'', ''htc'', ''c'', ''d'', ''diff'', ''patch'', ''hs'', ''java'',
     ''ly'', ''lhs'', ''moc'', ''p'', ''pas'', ''gcd'', ''pl'', ''pm'', ''py'', ''scala'',
     ''etx'', ''sfv'', ''tk'', ''tex'', ''ltx'', ''sty'', ''cls'', ''vcs'', ''3gp'', ''axv'',
     ''dl'', ''dif'', ''dv'', ''fli'', ''gl'', ''mpeg'', ''mpg'', ''mpe'', ''ts'', ''mp4'',
     ''qt'', ''mov'', ''ogv'', ''webm'', ''mxu'', ''flv'', ''lsf'', ''lsx'', ''mng'', ''asf'',
     ''asx'', ''wm'', ''wmv'', ''wmx'', ''wvx'', ''avi'', ''movie'', ''mpv'', ''mkv'', ''ice'',
     ''sisx'', ''vrm'', ''wrl'']"

definition isValidFilenameChar :: "byte \<Rightarrow> bool" where
  "isValidFilenameChar b \<longleftrightarrow>
     (b \<ge> ch (CHR ''a'') \<and> b \<le> ch (CHR ''z'')) \<or>
     (b \<ge> ch (CHR ''A'') \<and> b \<le> ch (CHR ''Z'')) \<or>
     (b \<ge> ch (CHR ''0'') \<and> b \<le> ch (CHR ''9'')) \<or>
     b = ch (CHR ''-'') \<or> b = ch (CHR ''_'') \<or> b = ch (CHR ''.'') \<or> b = ch (CHR ''+'')"

definition MatchFilename :: "bytes \<Rightarrow> bool" where
  "MatchFilename s =
     (if length s < 3 then False
      else let dotIdx = LastIndexByte s (ch (CHR ''.'')) in
        if dotIdx \<le> 0 \<or> dotIdx = int (length s) - 1 then False
        else if \<not> list_all isValidFilenameChar (take (nat dotIdx) s) then False
        else bytes_ToLower lower_tbl (drop (nat dotIdx + 1) s) \<in> set (map str validFileExtensions))"

definition stripChars :: "rune list \<Rightarrow> bytes \<Rightarrow> bytes" where
  "stripChars removalSet b = bytes_Map (\<lambda>r. if r \<in> set removalSet then -1 else r) b"

fun isAllDigits :: "bytes \<Rightarrow> bool" where
  "isAllDigits [] = True"
| "isAllDigits (c # cs) = (if c < ch (CHR ''0'') \<or> c > ch (CHR ''9'') then False else isAllDigits cs)"

definition phoneFormat1Separators :: "rune list" where
  "phoneFormat1Separators = map of_char '' -.*()''"

definition matchPhoneFormat1 :: "bytes \<Rightarrow> bool" where
  "matchPhoneFormat1 s =
     (let sanitized = stripChars phoneFormat1Separators s in
      case sanitized of
        [] \<Rightarrow> False
      | c # rest \<Rightarrow>
          let hasPlusSign = (c = ch (CHR ''+'')) in
          if \<not> hasPlusSign \<and> Contains sanitized (str ''+'') then False
          else let digitPortion = (if hasPlusSign then rest else sanitized) in
            if \<not> isAllDigits digitPortion then False
            else let l = length digitPortion in
              if hasPlusSign then l \<ge> 10 \<and> l \<le> 13 else l = 10)"

definition digit_group :: "nat \<Rightarrow> bytes \<Rightarrow> bool" where
  "digit_group n part \<longleftrightarrow> length part = n \<and> isAllDigits part"

definition country_code :: "bytes \<Rightarrow> bool" where
  "country_code part =
     (if length part \<noteq> 3 \<or> part ! 0 \<noteq> ch (CHR ''+'') then False else isAllDigits (drop 1 part))"

definition validatePhoneFormat2Parenthetical :: "bytes \<Rightarrow> bool" where
  "validatePhoneFormat2Parenthetical s =
     (let closingParenIdx = IndexByte s (ch (CHR '')'')) in
      if closingParenIdx = -1 then False
      else let k = nat closingParenIdx in
        if \<not> country_code (take (k - 1) (drop 1 s)) then False
        else if k + 1 \<ge> length s \<or> s ! (k + 1) \<noteq> ch (CHR '' '') then False
        else case Split (drop (k + 2) s) (ch (CHR '' '')) of
          [p0, p1, p2] \<Rightarrow> digit_group 2 p0 \<and> digit_group 3 p1 \<and> digit_group 4 p2
        | _ \<Rightarrow> False)"

definition validatePhoneFormat2Plus :: "bytes \<Rightarrow> bool" where
  "validatePhoneFormat2Plus s =
     (case Split s (ch (CHR '' '')) of
        [p0, p1, p2, p3] \<Rightarrow>
          if \<not> country_code p0 then False
          else digit_group 2 p1 \<and> digit_group 3 p2 \<and> digit_group 4 p3
      | _ \<Rightarrow> False)"

definition matchPhoneFormat2 :: "bytes \<Rightarrow> bool" where
  "matchPhoneFormat2 s =
     (let trimmed = TrimSpace s in
      if trimmed = [] then False
      else if HasPrefix trimmed (str ''(+'') then validatePhoneFormat2Parenthetical trimmed
      else if HasPrefix trimmed (str ''+'') then validatePhoneFormat2Plus trimmed
      else False)"

definition MatchPhoneV2 :: "bytes \<Rightarrow> bool" where
  "MatchPhoneV2 s =
     (if s = [] then False
      else if matchPhoneFormat1 s then True
      else if matchPhoneFormat2 s then True
      else False)"

text \<open>The loops of \<open>isDomainAllNumeric\<close> run backwards from the end; \<open>domain_loop\<close> takes the
  reversed input.\<close>

fun domain_loop :: "bytes \<Rightarrow> bool" where
  "domain_loop [] = True"
| "domain_loop (b # bs) =
     (if b = ch (CHR ''@'') then True
      else if (b < ch (CHR ''0'') \<or> b > ch (CHR ''9'')) \<and> b \<noteq> ch (CHR ''.'') then False
      else domain_loop bs)"

definition isDomainAllNumeric :: "bytes \<Rightarrow> bool" where
  "isDomainAllNumeric s = domain_loop (rev s)"

definition MatchEmailV2 :: "bytes \<Rightarrow> bool" where
  "MatchEmailV2 s =
     (if length s < 3 then False
      else let at = IndexByte s (ch (CHR ''@'')) in
        if at \<le> 0 \<or> at \<noteq> LastIndexByte s (ch (CHR ''@'')) \<or> at = int (length s) - 1 then False
        else let local = take (nat at) s; domain = drop (nat at + 1) s in
          if local = [] \<or> domain = [] then False
          else let dot = LastIndexByte domain (ch (CHR ''.'')) in
            if dot \<le> 0 \<or> dot = int (length domain) - 1 then False
            else if isDomainAllNumeric s then False
            else True)"

definition ccStripSet :: "rune list" where
  "ccStripSet = map of_char '' -''"

definition MatchVisaCreditCard :: "bytes \<Rightarrow> bool" where
  "MatchVisaCreditCard input =
     (let clean = stripChars ccStripSet input in
      if length clean \<noteq> 16 then False
      else if \<not> list_all (\<lambda>c. \<not> (c < ch (CHR ''0'') \<or> c > ch (CHR ''9''))) clean then False
      else clean ! 0 = ch (CHR ''4''))"

definition MatchMasterCardCreditCard :: "bytes \<Rightarrow> bool" where
  "MatchMasterCardCreditCard input =
     (let clean = stripChars ccStripSet input in
      if length clean \<noteq> 16 then False
      else if \<not> list_all (\<lambda>c. \<not> (c < ch (CHR ''0'') \<or> c > ch (CHR ''9''))) clean then False
      else if clean ! 0 \<noteq> ch (CHR ''5'') then False
      else if clean ! 1 < ch (CHR ''1'') \<or> clean ! 1 > ch (CHR ''5'') then False
      else True)"

definition isValidVINChar :: "byte \<Rightarrow> bool" where
  "isValidVINChar b =
     (if b \<in> set (str ''IiOoQq'') then False
      else (b \<ge> ch (CHR ''A'') \<and> b \<le> ch (CHR ''Z'')) \<or> (b \<ge> ch (CHR ''a'') \<and> b \<le> ch (CHR ''z''))
        \<or> (b \<ge> ch (CHR ''0'') \<and> b \<le> ch (CHR ''9'')))"

definition MatchVIN :: "bytes \<Rightarrow> bool" where
  "MatchVIN s = (if length s \<noteq> 17 then False else list_all isValidVINChar s)"

definition isHexDigit :: "byte \<Rightarrow> bool" where
  "isHexDigit b =
     (if b \<ge> ch (CHR ''0'') \<and> b \<le> ch (CHR ''9'') then True
      else if b \<ge> ch (CHR ''a'') \<and> b \<le> ch (CHR ''f'') then True
      else if b \<ge> ch (CHR ''A'') \<and> b \<le> ch (CHR ''F'') then True
      else False)"

definition MatchUUID :: "bytes \<Rightarrow> bool" where
  "MatchUUID s =
     (if length s \<noteq> 36 then False
      else list_all (\<lambda>i. if i \<in> {8, 13, 18, 23} then s ! i = ch (CHR ''-'') else isHexDigit (s ! i))
             [0..<36])"


section \<open>What the functions accept\<close>

abbreviation digit_byte :: "byte \<Rightarrow> bool" where
  "digit_byte b \<equiv> 48 \<le> b \<and> b \<le> 57"

lemma digit_byte_ascii: "digit_byte b \<Longrightarrow> ascii b"
  by (simp add: byte_simps)

lemma list_all_digit_ascii: "list_all digit_byte s \<Longrightarrow> list_all ascii s"
  by (auto simp: list_all_iff digit_byte_ascii)

lemma isAllDigits_iff: "isAllDigits s \<longleftrightarrow> list_all digit_byte s"
  by (induction s) (auto simp: not_less)

lemma stripChars_ascii:
  "ascii_class (\<lambda>r. r \<in> set R) \<Longrightarrow> list_all ascii (stripChars R s) \<longleftrightarrow> list_all ascii s"
  by (simp add: stripChars_def bytes_Map_strip_ascii)

lemma stripChars_filter:
  "ascii_class (\<lambda>r. r \<in> set R) \<Longrightarrow> list_all ascii s \<Longrightarrow>
     stripChars R s = filter (\<lambda>b. uint b \<notin> set R) s"
  by (simp add: stripChars_def bytes_Map_strip)

lemma ccStripSet_ascii: "ascii_class (\<lambda>r. r \<in> set ccStripSet)"
  by (simp add: ascii_class_def ccStripSet_def)

lemma phoneFormat1Separators_ascii: "ascii_class (\<lambda>r. r \<in> set phoneFormat1Separators)"
  by (auto simp: ascii_class_def phoneFormat1Separators_def)

text \<open>The digits of a card number: the input without spaces and dashes.\<close>

definition card_digits :: "bytes \<Rightarrow> bytes" where
  "card_digits s = filter (\<lambda>b. b \<noteq> 32 \<and> b \<noteq> 45) s"

lemma uint_eq_numeral: "uint (b :: byte) = 32 \<longleftrightarrow> b = 32" "uint (b :: byte) = 45 \<longleftrightarrow> b = 45"
  by (simp_all add: word_uint_eq_iff)

lemma strip_card: "list_all ascii s \<Longrightarrow> stripChars ccStripSet s = card_digits s"
  by (simp add: stripChars_filter ccStripSet_ascii card_digits_def)
    (simp add: ccStripSet_def uint_eq_numeral)

lemma card_digits_ascii:
  "list_all digit_byte (card_digits s) \<Longrightarrow> list_all ascii s"
proof -
  assume d: "list_all digit_byte (card_digits s)"
  have "ascii b" if "b \<in> set s" for b
  proof (cases "b = 32 \<or> b = 45")
    case False
    then have "b \<in> set (card_digits s)" using that by (simp add: card_digits_def)
    with d show ?thesis by (auto simp: list_all_iff digit_byte_ascii)
  qed auto
  then show ?thesis by (simp add: list_all_iff)
qed

lemma strip_card_digits:
  "list_all digit_byte (stripChars ccStripSet s) \<and> P (stripChars ccStripSet s) \<longleftrightarrow>
   list_all digit_byte (card_digits s) \<and> P (card_digits s)"
proof (cases "list_all ascii s")
  case False
  then have "\<not> list_all digit_byte (stripChars ccStripSet s)"
    using stripChars_ascii [OF ccStripSet_ascii] list_all_digit_ascii by blast
  with False card_digits_ascii show ?thesis by blast
qed (simp add: strip_card)

lemma MatchVisa_iff:
  "MatchVisaCreditCard s \<longleftrightarrow>
     (let d = card_digits s in length d = 16 \<and> list_all digit_byte d \<and> d ! 0 = 52)"
  using strip_card_digits [of s "\<lambda>d. length d = 16 \<and> d ! 0 = 52"]
  by (auto simp: MatchVisaCreditCard_def Let_def not_less)

lemma MatchMasterCard_iff:
  "MatchMasterCardCreditCard s \<longleftrightarrow>
     (let d = card_digits s in length d = 16 \<and> list_all digit_byte d \<and> d ! 0 = 53
        \<and> 49 \<le> d ! 1 \<and> d ! 1 \<le> 53)"
  using strip_card_digits [of s "\<lambda>d. length d = 16 \<and> d ! 0 = 53 \<and> 49 \<le> d ! 1 \<and> d ! 1 \<le> 53"]
  by (auto simp: MatchMasterCardCreditCard_def Let_def not_less)

lemma MatchUUID_nth:
  "MatchUUID s \<Longrightarrow> i < 36 \<Longrightarrow> if i \<in> {8, 13, 18, 23} then s ! i = 45 else isHexDigit (s ! i)"
  unfolding MatchUUID_def by (auto simp: list_all_iff split: if_splits)

lemma MatchUUID_length: "MatchUUID s \<Longrightarrow> length s = 36"
  by (simp add: MatchUUID_def split: if_splits)

lemma isHexDigit_not_dash: "isHexDigit b \<Longrightarrow> b \<noteq> 45 \<and> b \<noteq> 32 \<and> ascii b"
  by (auto simp: isHexDigit_def byte_simps split: if_splits)

text \<open>A run of five equal digits.\<close>

lemma count_same_ge: "n \<le> count_same b s \<longleftrightarrow> (\<exists>t. s = replicate n b @ t)"
proof (induction n arbitrary: s)
  case (Suc n)
  then show ?case by (cases s) auto
qed simp

lemma MatchRepeatingNumber_iff:
  "MatchRepeatingNumber s \<longleftrightarrow> (\<exists>p d q. s = p @ replicate 5 d @ q \<and> digit_byte d)"
proof (induction s)
  case (Cons b s)
  have five: "replicate 5 d = d # replicate 4 d" for d :: byte by (simp add: eval_nat_numeral)
  have "(\<exists>p d q. b # s = p @ replicate 5 d @ q \<and> digit_byte d) \<longleftrightarrow>
      (digit_byte b \<and> (\<exists>q. s = replicate 4 b @ q)) \<or> (\<exists>p d q. s = p @ replicate 5 d @ q \<and> digit_byte d)"
    (is "?L \<longleftrightarrow> ?R")
  proof
    assume ?L
    then obtain p d q where e: "b # s = p @ replicate 5 d @ q" "digit_byte d" by blast
    then show ?R by (cases p) (auto simp: five)
  next
    assume ?R
    then show ?L
    proof
      assume "digit_byte b \<and> (\<exists>q. s = replicate 4 b @ q)"
      then obtain q where "digit_byte b" "b # s = [] @ replicate 5 b @ q" by (auto simp: five)
      then show ?L by blast
    next
      assume "\<exists>p d q. s = p @ replicate 5 d @ q \<and> digit_byte d"
      then show ?L by (metis append_Cons)
    qed
  qed
  moreover have "5 \<le> 1 + count_same b s \<longleftrightarrow> (\<exists>q. s = replicate 4 b @ q)"
    using count_same_ge [of 4 b s] by simp
  ultimately show ?case using Cons.IH by (auto simp: not_less)
qed simp

text \<open>File names and email addresses are characterised by where they split.\<close>

lemma MatchFilename_iff:
  "MatchFilename s \<longleftrightarrow>
     (\<exists>base ext. s = base @ 46 # ext \<and> 46 \<notin> set ext \<and> base \<noteq> [] \<and> ext \<noteq> []
        \<and> list_all isValidFilenameChar base
        \<and> bytes_ToLower lower_tbl ext \<in> set (map str validFileExtensions))" (is "?L \<longleftrightarrow> ?R")
proof (cases rule: LastIndexByte_cases [of 46 s])
  case 1
  then show ?thesis by (auto simp: MatchFilename_def Let_def)
next
  case (2 p q)
  have uniq: "s = base @ 46 # ext \<and> 46 \<notin> set ext \<longleftrightarrow> base = p \<and> ext = q" for base ext
    using 2 by (metis append_Cons_eq_iff split_list_last LastIndexByte_split append_eq_append_conv list.inject of_nat_eq_iff)
  have "?R \<longleftrightarrow> p \<noteq> [] \<and> q \<noteq> [] \<and> list_all isValidFilenameChar p
        \<and> bytes_ToLower lower_tbl q \<in> set (map str validFileExtensions)"
    using uniq by metis
  moreover have "length s < 3 \<Longrightarrow> p = [] \<or> q = []"
    using 2(1) by (cases p; cases q) auto
  ultimately show ?thesis
    using 2 by (auto simp: MatchFilename_def Let_def)
qed

lemma domain_loop_iff:
  "64 \<notin> set d \<Longrightarrow> domain_loop (d @ 64 # p) \<longleftrightarrow> list_all (\<lambda>b. digit_byte b \<or> b = 46) d"
  by (induction d) (auto simp: not_less)

lemma MatchEmailV2_iff:
  "MatchEmailV2 s \<longleftrightarrow>
     (\<exists>local l r. s = local @ 64 # l @ 46 # r \<and> 64 \<notin> set (local @ l @ r) \<and> 46 \<notin> set r
        \<and> local \<noteq> [] \<and> l \<noteq> [] \<and> r \<noteq> [] \<and> \<not> list_all (\<lambda>b. digit_byte b \<or> b = 46) (l @ r))"
  (is "?L \<longleftrightarrow> ?R")
proof
  assume L: ?L
  from L obtain p q where s: "s = p @ 64 # q" "64 \<notin> set p"
    by (cases rule: IndexByte_cases [of 64 s]) (auto simp: MatchEmailV2_def Let_def split: if_splits)
  from L s have q64: "64 \<notin> set q"
    by (cases rule: LastIndexByte_cases [of 64 q])
      (auto simp: MatchEmailV2_def Let_def IndexByte_split LastIndexByte_split
        LastIndexByte_split [of 64 _ "p @ 64 # _", simplified] split: if_splits)
  from L s q64 obtain l r where q: "q = l @ 46 # r" "46 \<notin> set r"
    by (cases rule: LastIndexByte_cases [of 46 q])
      (auto simp: MatchEmailV2_def Let_def IndexByte_split LastIndexByte_split split: if_splits)
  have dom: "isDomainAllNumeric s \<longleftrightarrow> list_all (\<lambda>b. digit_byte b \<or> b = 46) q"
    using s q64 domain_loop_iff [of "rev q" "rev p"] by (simp add: isDomainAllNumeric_def list_all_iff)
  from L s q q64 dom show ?R
    by (intro exI [of _ p] exI [of _ l] exI [of _ r])
      (auto simp: MatchEmailV2_def Let_def IndexByte_split LastIndexByte_split split: if_splits)
next
  assume ?R
  then obtain p l r where R: "s = p @ 64 # l @ 46 # r" "64 \<notin> set (p @ l @ r)" "46 \<notin> set r"
    "p \<noteq> []" "l \<noteq> []" "r \<noteq> []" "\<not> list_all (\<lambda>b. digit_byte b \<or> b = 46) (l @ r)" by blast
  have "isDomainAllNumeric s \<longleftrightarrow> list_all (\<lambda>b. digit_byte b \<or> b = 46) (l @ 46 # r)"
    using R domain_loop_iff [of "rev (l @ 46 # r)" "rev p"]
    by (simp add: isDomainAllNumeric_def list_all_iff Un_commute)
  with R show ?L
    by (simp add: MatchEmailV2_def Let_def IndexByte_split LastIndexByte_split list_all_iff)
qed

section \<open>Phone numbers\<close>

definition phone_sep :: "byte \<Rightarrow> bool" where
  "phone_sep b \<longleftrightarrow> b \<in> set (str '' -.*()'')"

definition phone_digits :: "bytes \<Rightarrow> bytes" where
  "phone_digits s = filter (\<lambda>b. \<not> phone_sep b) s"

lemma phone_sep_uint: "uint b \<in> set phoneFormat1Separators \<longleftrightarrow> phone_sep b"
  by (auto simp: phoneFormat1Separators_def phone_sep_def word_uint_eq_iff)

lemma phone_sep_ascii: "phone_sep b \<Longrightarrow> ascii b"
  by (auto simp: phone_sep_def)

lemma strip_phone: "list_all ascii s \<Longrightarrow> stripChars phoneFormat1Separators s = phone_digits s"
  by (simp add: stripChars_filter phoneFormat1Separators_ascii phone_digits_def phone_sep_uint)

lemma phone_digits_ascii: "list_all ascii (phone_digits s) \<longleftrightarrow> list_all ascii s"
  using phone_sep_ascii by (auto simp: phone_digits_def list_all_iff)

definition format1 :: "bytes \<Rightarrow> bool" where
  "format1 d \<longleftrightarrow> (\<exists>ds. d = 43 # ds \<and> list_all digit_byte ds \<and> 10 \<le> length ds \<and> length ds \<le> 13)
     \<or> (list_all digit_byte d \<and> length d = 10)"

lemma Contains_single: "Contains s [b] \<longleftrightarrow> b \<in> set s"
  by (induction s) (auto simp: HasPrefix_def)

lemma format1_ascii: "format1 d \<Longrightarrow> list_all ascii d"
  by (auto simp: format1_def dest: list_all_digit_ascii)

lemma format1_cond:
  "format1 d \<longleftrightarrow> (case d of [] \<Rightarrow> False
      | c # rest \<Rightarrow>
          let hasPlusSign = (c = 43) in
          if \<not> hasPlusSign \<and> Contains d [43] then False
          else let digitPortion = (if hasPlusSign then rest else d) in
            if \<not> isAllDigits digitPortion then False
            else let l = length digitPortion in
              if hasPlusSign then l \<ge> 10 \<and> l \<le> 13 else l = 10)"
proof (cases d)
  case (Cons c rest)
  have "43 \<notin> set d" if "list_all digit_byte d" using that by (auto simp: list_all_iff byte_simps)
  with Cons show ?thesis
    by (auto simp: format1_def Let_def Contains_single isAllDigits_iff)
qed (simp add: format1_def)

lemma matchPhoneFormat1_iff: "matchPhoneFormat1 s \<longleftrightarrow> format1 (phone_digits s)"
proof -
  have F: "matchPhoneFormat1 s \<longleftrightarrow> format1 (stripChars phoneFormat1Separators s)"
    unfolding matchPhoneFormat1_def format1_cond Let_def
    by (cases "stripChars phoneFormat1Separators s") simp_all
  show ?thesis
  proof (cases "list_all ascii s")
    case True
    with F show ?thesis by (simp add: strip_phone)
  next
    case False
    then have "\<not> list_all ascii (stripChars phoneFormat1Separators s)" "\<not> list_all ascii (phone_digits s)"
      by (simp_all add: stripChars_ascii phoneFormat1Separators_ascii phone_digits_ascii)
    with F format1_ascii show ?thesis by blast
  qed
qed

lemma digit_not_sep: "digit_byte b \<Longrightarrow> \<not> phone_sep b"
  by (auto simp: phone_sep_def byte_simps)

lemma phone_digits_digits: "list_all digit_byte s \<Longrightarrow> phone_digits s = s"
  by (auto simp: phone_digits_def list_all_iff digit_not_sep intro!: filter_True)

lemma phone_digits_append: "phone_digits (x @ y) = phone_digits x @ phone_digits y"
  by (simp add: phone_digits_def)

lemma phone_digits_Cons: "phone_digits (b # y) = (if phone_sep b then phone_digits y else b # phone_digits y)"
  by (simp add: phone_digits_def)

lemma country_code_iff:
  "country_code part \<longleftrightarrow> (\<exists>d. part = 43 # d \<and> list_all digit_byte d \<and> length d = 2)"
proof (cases part)
  case (Cons b d)
  then show ?thesis by (auto simp: country_code_def isAllDigits_iff)
qed (simp add: country_code_def)

lemma plus_not_sep: "\<not> phone_sep 43" "phone_sep 32" "phone_sep 40" "phone_sep 41"
  by (simp_all add: phone_sep_def)

lemma groups_format1:
  assumes "country_code p0" "digit_group 2 p1" "digit_group 3 p2" "digit_group 4 p3"
  shows "format1 (phone_digits p0 @ phone_digits p1 @ phone_digits p2 @ phone_digits p3)"
  using assms
  by (auto simp: country_code_iff digit_group_def isAllDigits_iff phone_digits_digits
      phone_digits_Cons plus_not_sep format1_def)

lemma Plus_format1: "validatePhoneFormat2Plus s \<Longrightarrow> format1 (phone_digits s)"
proof -
  assume v: "validatePhoneFormat2Plus s"
  then obtain p0 p1 p2 p3 where S: "Split s 32 = [p0, p1, p2, p3]"
    and g: "country_code p0" "digit_group 2 p1" "digit_group 3 p2" "digit_group 4 p3"
    by (auto simp: validatePhoneFormat2Plus_def split: list.splits if_splits)
  have "s = p0 @ 32 # p1 @ 32 # p2 @ 32 # p3" using Split_join [of 32 s] S by simp
  then show ?thesis
    using groups_format1 [OF g] by (simp add: phone_digits_append phone_digits_Cons plus_not_sep)
qed

lemma Parenthetical_format1:
  assumes "validatePhoneFormat2Parenthetical s" "HasPrefix s (str ''(+'')"
  shows "format1 (phone_digits s)"
proof -
  from assms(1) obtain k where k: "IndexByte s 41 = int k"
    by (cases rule: IndexByte_cases [of 41 s]) (auto simp: validatePhoneFormat2Parenthetical_def Let_def)
  from assms(1) obtain p1 p2 p3 where S: "Split (drop (k + 2) s) 32 = [p1, p2, p3]"
    and g: "country_code (take (k - 1) (drop 1 s))" "digit_group 2 p1" "digit_group 3 p2" "digit_group 4 p3"
    and sp: "k + 1 < length s" "s ! (k + 1) = 32"
    by (auto simp: validatePhoneFormat2Parenthetical_def Let_def k split: list.splits if_splits)
  have k1: "s ! k = 41" "k < length s"
    using k by (cases rule: IndexByte_cases [of 41 s]; auto)+
  have hd: "s ! 0 = 40" using assms(2) by (cases s) (auto simp: HasPrefix_def)
  have "0 < k" using k1 hd by (cases k) auto
  define cc where "cc = take (k - 1) (drop 1 s)"
  have "drop k s = 41 # 32 # drop (k + 2) s"
    using k1 sp by (simp add: drop_eq_Cons_nth)
  moreover have "drop (k + 2) s = p1 @ 32 # p2 @ 32 # p3"
    using Split_join [of 32 "drop (k + 2) s"] S by simp
  moreover have "take 1 s = [40]" using hd k1 by (cases s) auto
  moreover have "s = take 1 s @ cc @ drop k s"
  proof -
    have "cc @ drop k s = drop 1 s"
      using take_drop_append [of 1 k s] \<open>0 < k\<close> by (simp add: cc_def)
    then show ?thesis by simp
  qed
  ultimately have "s = [40] @ cc @ 41 # 32 # p1 @ 32 # p2 @ 32 # p3" by simp
  then have "phone_digits s = phone_digits ([40] @ cc @ 41 # 32 # p1 @ 32 # p2 @ 32 # p3)"
    by (rule arg_cong)
  then have "phone_digits s = phone_digits cc @ phone_digits p1 @ phone_digits p2 @ phone_digits p3"
    by (simp add: phone_digits_append phone_digits_Cons plus_not_sep)
  moreover have "country_code cc" using g(1) by (simp only: cc_def)
  ultimately show ?thesis using groups_format1 [OF _ g(2-4), of cc] by simp
qed

lemma Format2_format1: "matchPhoneFormat2 s \<Longrightarrow> matchPhoneFormat1 (TrimSpace s)"
  by (auto simp: matchPhoneFormat2_def matchPhoneFormat1_iff Let_def
      intro: Plus_format1 Parenthetical_format1 split: if_splits)

lemma Format2_needs_space: "matchPhoneFormat2 s \<Longrightarrow> 32 \<in> set s"
proof -
  assume f: "matchPhoneFormat2 s"
  have "32 \<in> set (TrimSpace s)"
  proof (cases "validatePhoneFormat2Plus (TrimSpace s)")
    case True
    then have "Split (TrimSpace s) 32 \<noteq> [TrimSpace s]"
      by (auto simp: validatePhoneFormat2Plus_def split: list.splits)
    then show ?thesis using Split_no_sep by blast
  next
    case False
    with f have "validatePhoneFormat2Parenthetical (TrimSpace s)"
      by (auto simp: matchPhoneFormat2_def Let_def split: if_splits)
    then show ?thesis
      by (auto simp: validatePhoneFormat2Parenthetical_def Let_def not_le intro!: nth_mem
          split: if_splits dest: nth_mem)
  qed
  then show ?thesis using set_TrimSpace by blast
qed

end
