(* ===== verification/GoRegexp.thy ===== *)
theory GoRegexp
  imports GoText
begin

text \<open>
  Package \<open>regexp\<close> as far as the source uses it: \<open>Regexp.Match\<close>, that is, whether an
  expression matches anywhere in a slice.  An expression works on the decoded runes of
  the slice (an invalid byte is the rune \<open>U+FFFD\<close>).  \<open>sem\<close> gives each expression the
  relation between the position where a match starts and the position where it ends;
  \<open>ends\<close> computes the end positions, and \<open>set_ends\<close> shows that the two agree.
\<close>

section \<open>Expressions\<close>

text \<open>A class is a list of rune ranges, negated or not.  \<open>WordB\<close> is \<open>\b\<close>, \<open>BeginText\<close> is
  \<open>^\<close> without the m flag.  The bounded repetitions of the concrete syntax are the
  abbreviating functions below.\<close>

datatype regex =
    Eps
  | Class bool "(rune \<times> rune) list"
  | FoldClass bool "(rune \<times> rune) list"
  | WordB
  | BeginText
  | Seq regex regex
  | Alt regex regex
  | Star regex

definition in_ranges :: "(rune \<times> rune) list \<Rightarrow> rune \<Rightarrow> bool" where
  "in_ranges rs r \<longleftrightarrow> (\<exists>(lo, hi)\<in>set rs. lo \<le> r \<and> r \<le> hi)"

text \<open>The case orbit of a rune under simple folding, restricted to the ASCII members and the
  rune itself: \<open>U+017F\<close> folds with s, \<open>U+212A\<close> with k.\<close>

definition fold_orbit :: "rune \<Rightarrow> rune list" where
  "fold_orbit r =
     (if 65 \<le> r \<and> r \<le> 90 then [r, r + 32]
      else if 97 \<le> r \<and> r \<le> 122 then [r, r - 32]
      else if r = 0x17F then [r, 83, 115]
      else if r = 0x212A then [r, 75, 107]
      else [r])"

definition class_match :: "bool \<Rightarrow> (rune \<times> rune) list \<Rightarrow> rune \<Rightarrow> bool" where
  "class_match neg rs r \<longleftrightarrow> in_ranges rs r \<noteq> neg"

definition fold_match :: "bool \<Rightarrow> (rune \<times> rune) list \<Rightarrow> rune \<Rightarrow> bool" where
  "fold_match neg rs r \<longleftrightarrow> list_ex (in_ranges rs) (fold_orbit r) \<noteq> neg"

definition is_word_rune :: "rune \<Rightarrow> bool" where
  "is_word_rune r \<longleftrightarrow> (48 \<le> r \<and> r \<le> 57) \<or> (65 \<le> r \<and> r \<le> 90) \<or> r = 95 \<or> (97 \<le> r \<and> r \<le> 122)"

definition word_boundary :: "rune list \<Rightarrow> nat \<Rightarrow> bool" where
  "word_boundary w i \<longleftrightarrow>
     (0 < i \<and> is_word_rune (w ! (i - 1))) \<noteq> (i < length w \<and> is_word_rune (w ! i))"

section \<open>Meaning\<close>

definition step_rel :: "rune list \<Rightarrow> (rune \<Rightarrow> bool) \<Rightarrow> (nat \<times> nat) set" where
  "step_rel w P = {(i, Suc i) | i. i < length w \<and> P (w ! i)}"

primrec sem :: "rune list \<Rightarrow> regex \<Rightarrow> (nat \<times> nat) set" where
  "sem w Eps = Id"
| "sem w (Class neg rs) = step_rel w (class_match neg rs)"
| "sem w (FoldClass neg rs) = step_rel w (fold_match neg rs)"
| "sem w WordB = {(i, i) | i. word_boundary w i}"
| "sem w BeginText = {(0, 0)}"
| "sem w (Seq a b) = sem w a O sem w b"
| "sem w (Alt a b) = sem w a \<union> sem w b"
| "sem w (Star a) = (sem w a)\<^sup>*"

lemma step_rel_iff [simp]:
  "(i, j) \<in> step_rel w P \<longleftrightarrow> j = Suc i \<and> i < length w \<and> P (w ! i)"
  by (auto simp: step_rel_def)

lemma sem_bounds: "(i, j) \<in> sem w r \<Longrightarrow> i \<le> j \<and> (i \<le> length w \<longrightarrow> j \<le> length w)"
proof (induction r arbitrary: i j)
  case (Star r)
  from Star.prems show ?case
    unfolding sem.simps by (induction rule: rtrancl_induct) (use Star.IH in fastforce)+
qed fastforce+

section \<open>The matcher\<close>

text \<open>All end positions of matches that start at \<open>i\<close>.  For a star the set of positions is
  closed under one more iteration as often as the text has positions left.\<close>

fun close :: "nat \<Rightarrow> (nat \<Rightarrow> nat list) \<Rightarrow> nat list \<Rightarrow> nat list" where
  "close 0 f I = I"
| "close (Suc n) f I = close n f (remdups (I @ concat (map f I)))"

primrec ends :: "rune list \<Rightarrow> regex \<Rightarrow> nat \<Rightarrow> nat list" where
  "ends w Eps i = [i]"
| "ends w (Class neg rs) i = (if i < length w \<and> class_match neg rs (w ! i) then [Suc i] else [])"
| "ends w (FoldClass neg rs) i = (if i < length w \<and> fold_match neg rs (w ! i) then [Suc i] else [])"
| "ends w WordB i = (if word_boundary w i then [i] else [])"
| "ends w BeginText i = (if i = 0 then [i] else [])"
| "ends w (Seq a b) i = remdups (concat (map (ends w b) (ends w a i)))"
| "ends w (Alt a b) i = remdups (ends w a i @ ends w b i)"
| "ends w (Star a) i = close (length w - i) (ends w a) [i]"

lemma set_close: "set (close n f I) = {j. \<exists>i\<in>set I. \<exists>k\<le>n. (i, j) \<in> {(x, y). y \<in> set (f x)} ^^ k}"
proof (induction n arbitrary: I)
  case (Suc n)
  let ?R = "{(x, y). y \<in> set (f x)}"
  have "(\<exists>i\<in>set I. \<exists>k\<le>n. (i, j) \<in> ?R ^^ k) \<or> (\<exists>i\<in>set I. \<exists>i'\<in>set (f i). \<exists>k\<le>n. (i', j) \<in> ?R ^^ k)
      \<longleftrightarrow> (\<exists>i\<in>set I. \<exists>k\<le>Suc n. (i, j) \<in> ?R ^^ k)" (is "?L \<longleftrightarrow> ?Q") for j
  proof
    assume ?L
    then show ?Q
    proof
      assume "\<exists>i\<in>set I. \<exists>i'\<in>set (f i). \<exists>k\<le>n. (i', j) \<in> ?R ^^ k"
      then obtain i i' k where "i \<in> set I" "i' \<in> set (f i)" "k \<le> n" "(i', j) \<in> ?R ^^ k" by blast
      then have "(i, j) \<in> ?R ^^ Suc k" by (intro relpow_Suc_I2) auto
      with \<open>i \<in> set I\<close> \<open>k \<le> n\<close> show ?Q by (metis Suc_le_mono)
    qed (metis le_SucI)
  next
    assume ?Q
    then obtain i k where ik: "i \<in> set I" "k \<le> Suc n" "(i, j) \<in> ?R ^^ k" by blast
    show ?L
    proof (cases k)
      case 0
      with ik show ?thesis by (metis le0)
    next
      case (Suc k')
      with ik obtain i' where "(i, i') \<in> ?R" "(i', j) \<in> ?R ^^ k'" by (metis relpow_Suc_E2)
      with ik Suc show ?thesis by auto
    qed
  qed
  with Suc.IH show ?case by (auto simp: bex_Un)
qed auto

text \<open>A productive iteration of a star moves forward, so a path never needs more iterations
  than there are positions left.\<close>

lemma relpow_forward:
  assumes fw: "\<And>i j. (i, j) \<in> R \<Longrightarrow> i \<le> j \<and> (i \<le> n \<longrightarrow> j \<le> n)"
  shows "(i, j) \<in> R\<^sup>* \<Longrightarrow> i \<le> n \<Longrightarrow> i \<le> j \<and> j \<le> n \<and> (\<exists>k\<le>j - i. (i, j) \<in> R ^^ k)"
proof (induction rule: rtrancl_induct)
  case base
  then show ?case by (auto intro: exI [of _ 0])
next
  case (step y z)
  then obtain k where k: "i \<le> y" "y \<le> n" "k \<le> y - i" "(i, y) \<in> R ^^ k" by blast
  have yz: "y \<le> z" "z \<le> n" using fw [OF step.hyps(2)] k by auto
  show ?case
  proof (cases "y = z")
    case True
    with k yz show ?thesis by blast
  next
    case False
    with yz k have "Suc k \<le> z - i" by arith
    moreover have "(i, z) \<in> R ^^ Suc k" using k(4) step.hyps(2) by (rule relpow_Suc_I)
    ultimately show ?thesis using k yz by (meson order_trans)
  qed
qed

lemma set_ends: "i \<le> length w \<Longrightarrow> set (ends w r i) = sem w r `` {i}"
proof (induction r arbitrary: i)
  case (Seq a b)
  have "set (ends w b k) = sem w b `` {k}" if "k \<in> set (ends w a i)" for k
    using that Seq sem_bounds [of i k w a] by (intro Seq.IH) auto
  with Seq show ?case by (auto simp: relcomp.simps; blast)
next
  case (Star a)
  let ?R = "{(x, y). y \<in> set (ends w a x)}"
  have eq: "y \<in> set (ends w a x) \<longleftrightarrow> (x, y) \<in> sem w a" if "x \<le> length w" for x y
    using Star.IH [OF that] by auto
  have pow: "(i, j) \<in> ?R ^^ k \<longleftrightarrow> (i, j) \<in> sem w a ^^ k" for j k
  proof (induction k arbitrary: j)
    case (Suc k)
    have "x \<le> length w" if "(i, x) \<in> sem w a ^^ k" for x
      using that Star.prems relpow_forward [of "sem w a" "length w" i x] sem_bounds [of _ _ w a]
      by (auto dest: relpow_imp_rtrancl)
    with Suc eq show ?case by (auto simp: relcomp.simps)
  qed simp
  have "(\<exists>k\<le>length w - i. (i, j) \<in> sem w a ^^ k) \<longleftrightarrow> (i, j) \<in> (sem w a)\<^sup>*" for j
  proof
    assume "(i, j) \<in> (sem w a)\<^sup>*"
    then obtain k where "j \<le> length w" "k \<le> j - i" "(i, j) \<in> sem w a ^^ k"
      using Star.prems relpow_forward [of "sem w a" "length w" i j] sem_bounds [of _ _ w a] by blast
    then show "\<exists>k\<le>length w - i. (i, j) \<in> sem w a ^^ k" by (metis diff_le_mono order_trans)
  qed (auto dest: relpow_imp_rtrancl)
  then show ?case by (auto simp: set_close pow)
qed auto

text \<open>\<open>Regexp.Match\<close>: is there a match anywhere?\<close>

definition regexp_Match :: "regex \<Rightarrow> bytes \<Rightarrow> bool" where
  "regexp_Match r s = list_ex (\<lambda>i. ends (runes s) r i \<noteq> []) [0..<Suc (length (runes s))]"

lemma regexp_Match_iff:
  "regexp_Match r s \<longleftrightarrow> (\<exists>i\<le>length (runes s). \<exists>j. (i, j) \<in> sem (runes s) r)"
proof -
  have "ends (runes s) r i \<noteq> [] \<longleftrightarrow> (\<exists>j. (i, j) \<in> sem (runes s) r)" if "i \<le> length (runes s)" for i
    using set_ends [OF that, of r] by (metis Image_singleton_iff ex_in_conv set_empty)
  then show ?thesis
    by (auto simp: regexp_Match_def list_ex_iff less_Suc_eq_le simp del: upt_Suc)
qed

section \<open>Concrete syntax\<close>

text \<open>The forms of the expression syntax that the source's patterns use: concatenation and
  alternatives, \<open>?\<close>, \<open>+\<close>, \<open>{n}\<close>, \<open>{m,n}\<close>, \<open>{m,}\<close>, literals, classes written as pairs of
  range ends and as single characters, and the Perl classes \<open>\d\<close>, \<open>\s\<close>, \<open>\w\<close>.  The names
  with an f are the forms under \<open>(?i)\<close>.\<close>

primrec cat :: "regex list \<Rightarrow> regex" where
  "cat [] = Eps"
| "cat (r # rs) = Seq r (cat rs)"

fun alts :: "regex list \<Rightarrow> regex" where
  "alts [] = Class False []"
| "alts [r] = r"
| "alts (r # rs) = Alt r (alts rs)"

definition opt :: "regex \<Rightarrow> regex" where
  "opt r = Alt r Eps"

definition one_or_more :: "regex \<Rightarrow> regex" where
  "one_or_more r = Seq r (Star r)"

definition exactly :: "nat \<Rightarrow> regex \<Rightarrow> regex" where
  "exactly n r = cat (replicate n r)"

primrec upto_n :: "nat \<Rightarrow> regex \<Rightarrow> regex" where
  "upto_n 0 r = Eps"
| "upto_n (Suc n) r = Alt (Seq r (upto_n n r)) Eps"

definition rep :: "nat \<Rightarrow> nat \<Rightarrow> regex \<Rightarrow> regex" where
  "rep m n r = Seq (exactly m r) (upto_n (n - m) r)"

definition rep_min :: "nat \<Rightarrow> regex \<Rightarrow> regex" where
  "rep_min m r = Seq (exactly m r) (Star r)"

fun ranges :: "string \<Rightarrow> (rune \<times> rune) list" where
  "ranges (lo # hi # cs) = (of_char lo, of_char hi) # ranges cs"
| "ranges cs = []"

definition ones :: "string \<Rightarrow> (rune \<times> rune) list" where
  "ones cs = map (\<lambda>c. (of_char c, of_char c)) cs"

definition cls :: "(rune \<times> rune) list \<Rightarrow> regex" where
  "cls rs = Class False rs"

definition ncls :: "(rune \<times> rune) list \<Rightarrow> regex" where
  "ncls rs = Class True rs"

definition fcls :: "(rune \<times> rune) list \<Rightarrow> regex" where
  "fcls rs = FoldClass False rs"

definition fncls :: "(rune \<times> rune) list \<Rightarrow> regex" where
  "fncls rs = FoldClass True rs"

definition lit :: "string \<Rightarrow> regex" where
  "lit cs = cat (map (\<lambda>c. cls (ones [c])) cs)"

definition flit :: "string \<Rightarrow> regex" where
  "flit cs = cat (map (\<lambda>c. fcls (ones [c])) cs)"

definition digit_cls :: "(rune \<times> rune) list" where
  "digit_cls = ranges ''09''"

definition space_cls :: "(rune \<times> rune) list" where
  "space_cls = [(9, 10), (12, 13), (32, 32)]"

definition word_cls :: "(rune \<times> rune) list" where
  "word_cls = ranges ''09AZaz'' @ ones ''_''"

lemmas regex_forms = cat.simps alts.simps opt_def one_or_more_def exactly_def upto_n.simps rep_def rep_min_def
  ranges.simps ones_def cls_def ncls_def fcls_def fncls_def lit_def flit_def digit_cls_def space_cls_def word_cls_def

section \<open>Reasoning about matches\<close>

lemma sem_cat_append: "sem w (cat (rs @ rs')) = sem w (cat rs) O sem w (cat rs')"
  by (induction rs) auto

lemma sem_cat_mono:
  "list_all2 (\<lambda>a b. sem w a \<subseteq> sem w b) rs rs' \<Longrightarrow> sem w (cat rs) \<subseteq> sem w (cat rs')"
  by (induction rule: list_all2_induct) (auto intro!: relcomp_mono)

text \<open>A class repeated a fixed number of times.\<close>

lemma sem_exactly_step:
  assumes "sem w r = step_rel w P"
  shows "(i, j) \<in> sem w (exactly n r) \<longleftrightarrow> j = i + n \<and> (n = 0 \<or> i + n \<le> length w) \<and> (\<forall>k<n. P (w ! (i + k)))"
proof (induction n arbitrary: i)
  case (Suc n)
  have "(i, j) \<in> sem w (exactly (Suc n) r) \<longleftrightarrow> i < length w \<and> P (w ! i) \<and> (Suc i, j) \<in> sem w (exactly n r)"
    using assms by (auto simp: exactly_def)
  also have "\<dots> \<longleftrightarrow> j = i + Suc n \<and> i + Suc n \<le> length w \<and> P (w ! i) \<and> (\<forall>k<n. P (w ! (Suc i + k)))"
    using Suc.IH [of "Suc i"] by auto
  also have "\<dots> \<longleftrightarrow> j = i + Suc n \<and> i + Suc n \<le> length w \<and> (\<forall>k<Suc n. P (w ! (i + k)))"
    by (auto simp: less_Suc_eq_0_disj)
  finally show ?case by simp
qed (auto simp: exactly_def)

lemma sem_cls: "sem w (cls rs) = step_rel w (in_ranges rs)"
  by (simp add: cls_def class_match_def [abs_def])

lemma sem_fcls: "sem w (fcls rs) = step_rel w (\<lambda>r. list_ex (in_ranges rs) (fold_orbit r))"
  by (simp add: fcls_def fold_match_def [abs_def])

lemma sem_lit1: "sem w (lit [c]) = step_rel w (\<lambda>r. r = of_char c)"
  by (auto simp: lit_def sem_cls ones_def in_ranges_def)

lemma sem_opt: "sem w (opt r) = sem w r \<union> Id"
  by (simp add: opt_def)

text \<open>A lower bound on how many runes of a class every match of an expression contains.\<close>

definition min_count :: "rune list \<Rightarrow> (rune \<Rightarrow> bool) \<Rightarrow> regex \<Rightarrow> nat \<Rightarrow> bool" where
  "min_count w P r n \<longleftrightarrow>
     (\<forall>i j. (i, j) \<in> sem w r \<longrightarrow> n \<le> length (filter P (take (j - i) (drop i w))))"

lemma min_count_zero: "min_count w P r 0"
  by (simp add: min_count_def)

lemma min_count_Seq: "min_count w P a m \<Longrightarrow> min_count w P b n \<Longrightarrow> min_count w P (Seq a b) (m + n)"
proof (clarsimp simp: min_count_def)
  fix i j k
  assume a: "\<forall>i j. (i, j) \<in> sem w a \<longrightarrow> m \<le> length (filter P (take (j - i) (drop i w)))"
    and b: "\<forall>i j. (i, j) \<in> sem w b \<longrightarrow> n \<le> length (filter P (take (j - i) (drop i w)))"
    and k: "(i, k) \<in> sem w a" "(k, j) \<in> sem w b"
  have "i \<le> k" "k \<le> j" using sem_bounds [OF k(1)] sem_bounds [OF k(2)] by auto
  then have "take (j - i) (drop i w) = take (k - i) (drop i w) @ take (j - k) (drop k w)"
    using take_add [of "k - i" "j - k" "drop i w"] by simp
  moreover have "m \<le> length (filter P (take (k - i) (drop i w)))" "n \<le> length (filter P (take (j - k) (drop k w)))"
    using a b k by blast+
  ultimately show "m + n \<le> length (filter P (take (j - i) (drop i w)))" by simp
qed

lemma min_count_Alt: "min_count w P a n \<Longrightarrow> min_count w P b n \<Longrightarrow> min_count w P (Alt a b) n"
  by (auto simp: min_count_def)

lemma min_count_exactly:
  assumes "sem w r = step_rel w Q" "\<And>x. Q x \<Longrightarrow> P x"
  shows "min_count w P (exactly n r) n"
  unfolding min_count_def
proof (intro allI impI)
  fix i j
  assume "(i, j) \<in> sem w (exactly n r)"
  then have j: "j = i + n" "n = 0 \<or> i + n \<le> length w" "\<forall>k<n. P (w ! (i + k))"
    using assms by (auto simp: sem_exactly_step)
  then have "list_all P (take (j - i) (drop i w))" by (auto simp: list_all_length)
  then have "filter P (take (j - i) (drop i w)) = take (j - i) (drop i w)" by (rule list_all_filter_id)
  with j show "n \<le> length (filter P (take (j - i) (drop i w)))" by auto
qed

lemma min_count_Match:
  assumes "min_count (runes s) P r n" "regexp_Match r s"
  shows "n \<le> length (filter P (runes s))"
proof -
  obtain i j where ij: "(i, j) \<in> sem (runes s) r" using assms(2) by (auto simp: regexp_Match_iff)
  let ?w = "runes s"
  have "filter P ?w = filter P (take i ?w) @ filter P (take (j - i) (drop i ?w)) @ filter P (drop j ?w)"
    using sem_bounds [OF ij] take_drop_append [of i j ?w]
    by (metis append_take_drop_id filter_append)
  then have "length (filter P (take (j - i) (drop i ?w))) \<le> length (filter P ?w)" by simp
  then show ?thesis using assms(1) ij by (fastforce simp: min_count_def)
qed

end
