(* ===== verification/RegexSyntax.thy ===== *)
theory RegexSyntax
  imports GoRegexp
begin

text \<open>
  \<open>regexp.MustCompile\<close> for the syntax the pattern constants use.  \<open>parse_loop\<close> is the loop of
  Go's \<open>syntax.Parse\<close> with its stack of open groups, on the tokens of the pattern; \<open>compile\<close> gives the parsed expression its
  meaning as a term of \<^theory_text>\<open>GoRegexp\<close>.  What the constants do not use (\<open>$\<close>, named groups, flags other than i,
  Unicode and POSIX classes, negated Perl classes inside brackets, numeric escapes) is
  the error \<open>OutsideSubset\<close>.  Go also refuses expressions that are too large or nested too
  deeply; these limits, which the constants are far below, are not modelled.
\<close>

section \<open>Parsed expressions\<close>

text \<open>A class carries the fold flag under which it was read and its negation.  A repetition has
  a lower and, unless it is open, an upper bound.\<close>

datatype syn =
    SEmpty
  | SClass bool bool "(rune \<times> rune) list"
  | SWordB
  | SBegin
  | SCat "syn list"
  | SAlt "syn list"
  | SStar syn
  | SPlus syn
  | SQuest syn
  | SRepeat int "int option" syn

datatype regexp_error =
    MissingParen | UnexpectedParen | MissingBracket | MissingRepeatArgument | InvalidRepeatOp
  | InvalidRepeatSize | InvalidCharRange | InvalidEscape | TrailingBackslash | OutsideSubset

text \<open>The frame of an open group: the flag to restore, the items of the branch being read (last
  first) and the branches before it (last first).\<close>

record frame =
  fr_fold :: bool
  fr_items :: "syn list"
  fr_branches :: "syn list"

record parser =
  current :: frame
  open_groups :: "frame list"
  lastRepeat :: bool

definition is_digit_char :: "char \<Rightarrow> bool" where
  "is_digit_char c \<longleftrightarrow> (48 :: int) \<le> of_char c \<and> of_char c \<le> (57 :: int)"

definition is_alnum_char :: "char \<Rightarrow> bool" where
  "is_alnum_char c \<longleftrightarrow> is_digit_char c \<or> ((65 :: int) \<le> of_char c \<and> of_char c \<le> (90 :: int))
     \<or> ((97 :: int) \<le> of_char c \<and> of_char c \<le> (122 :: int))"

text \<open>\<open>parseEscape\<close> after the backslash.\<close>

definition parseEscape :: "char \<Rightarrow> regexp_error + rune" where
  "parseEscape c =
     (if c = CHR ''a'' then Inr 7 else if c = CHR ''f'' then Inr 12 else if c = CHR ''n'' then Inr 10
      else if c = CHR ''r'' then Inr 13 else if c = CHR ''t'' then Inr 9 else if c = CHR ''v'' then Inr 11
      else if is_digit_char c \<or> c = CHR ''x'' then Inl OutsideSubset
      else if is_alnum_char c \<or> (128 :: int) \<le> of_char c then Inl InvalidEscape
      else Inr (of_char c))"

definition perl_class :: "char \<Rightarrow> (bool \<times> (rune \<times> rune) list) option" where
  "perl_class c =
     (if c = CHR ''d'' then Some (False, digit_cls) else if c = CHR ''D'' then Some (True, digit_cls)
      else if c = CHR ''s'' then Some (False, space_cls) else if c = CHR ''S'' then Some (True, space_cls)
      else if c = CHR ''w'' then Some (False, word_cls) else if c = CHR ''W'' then Some (True, word_cls)
      else None)"

text \<open>One character of a class, escaped or not, and the rest.\<close>

fun parseClassChar :: "string \<Rightarrow> regexp_error + rune \<times> string" where
  "parseClassChar [] = Inl MissingBracket"
| "parseClassChar (c # s) =
     (if c = CHR 0x5C then
        (case s of [] \<Rightarrow> Inl TrailingBackslash
         | d # s' \<Rightarrow> (case parseEscape d of Inl e \<Rightarrow> Inl e | Inr r \<Rightarrow> Inr (r, s')))
      else if (128 :: int) \<le> of_char c then Inl OutsideSubset
      else Inr (of_char c, s))"

lemma parseClassChar_shorter: "parseClassChar s = Inr (r, s') \<Longrightarrow> length s' < length s"
  by (cases s) (auto split: if_splits list.splits sum.splits)

text \<open>The next item of a class, or its end; \<open>first\<close> lets a bracket stand for itself.\<close>

definition class_range :: "string \<Rightarrow> regexp_error + (rune \<times> rune) list option \<times> string" where
  "class_range s =
     (case parseClassChar s of
        Inl e \<Rightarrow> Inl e
      | Inr (lo, t) \<Rightarrow>
          if take 1 t = ''-'' \<and> tl t \<noteq> [] \<and> hd (tl t) \<noteq> CHR '']'' then
            (case parseClassChar (tl t) of
               Inl e \<Rightarrow> Inl e
             | Inr (hi, u) \<Rightarrow> if hi < lo then Inl InvalidCharRange else Inr (Some [(lo, hi)], u))
          else Inr (Some [(lo, lo)], t))"

definition class_item :: "bool \<Rightarrow> string \<Rightarrow> regexp_error + (rune \<times> rune) list option \<times> string" where
  "class_item first s =
     (case s of
        [] \<Rightarrow> Inl MissingBracket
      | c # rest \<Rightarrow>
          if c = CHR '']'' \<and> \<not> first then Inr (None, rest)
          else if c = CHR ''['' \<and> take 1 rest = '':'' then Inl OutsideSubset
          else if c = CHR 0x5C \<and> rest \<noteq> [] then
            (case perl_class (hd rest) of
               Some (neg, rs) \<Rightarrow> if neg then Inl OutsideSubset else Inr (Some rs, tl rest)
             | None \<Rightarrow> class_range s)
          else class_range s)"

lemma class_range_shorter: "class_range s = Inr (i, t) \<Longrightarrow> length t < length s"
  by (fastforce simp: class_range_def split: sum.splits prod.splits if_splits dest!: parseClassChar_shorter)

lemma class_item_shorter: "class_item first s = Inr (i, t) \<Longrightarrow> length t < length s"
  by (cases s) (auto simp: class_item_def split: if_splits option.splits prod.splits dest: class_range_shorter)

function parse_items :: "bool \<Rightarrow> (rune \<times> rune) list \<Rightarrow> string \<Rightarrow> regexp_error + (rune \<times> rune) list \<times> string" where
  "parse_items first acc s =
     (case class_item first s of
        Inl e \<Rightarrow> Inl e
      | Inr (None, t) \<Rightarrow> Inr (acc, t)
      | Inr (Some rs, t) \<Rightarrow> parse_items False (acc @ rs) t)"
  by pat_completeness auto
termination
  by (relation "measure (\<lambda>(first, acc, s). length s)") (auto dest: class_item_shorter)

declare parse_items.simps [simp del]

section \<open>Repetitions\<close>

definition number_of :: "string \<Rightarrow> int" where
  "number_of ds = foldl (\<lambda>n c. 10 * n + (of_char c - 48)) 0 ds"

text \<open>\<open>parseInt\<close> accepts no leading zero.\<close>

definition parseInt :: "string \<Rightarrow> (int \<times> string) option" where
  "parseInt s =
     (let ds = takeWhile is_digit_char s in
      if ds = [] \<or> (tl ds \<noteq> [] \<and> hd ds = CHR ''0'') then None
      else Some (number_of ds, dropWhile is_digit_char s))"

text \<open>The bounds of \<open>{n}\<close>, \<open>{n,}\<close> and \<open>{n,m}\<close> after the opening brace; anything else makes the
  brace a literal.\<close>

definition parse_bounds :: "string \<Rightarrow> (int \<times> int option \<times> string) option" where
  "parse_bounds s =
     (case parseInt s of
        None \<Rightarrow> None
      | Some (m, t) \<Rightarrow>
          if take 1 t = ''}'' then Some (m, Some m, drop 1 t)
          else if take 2 t = '',}'' then Some (m, None, drop 2 t)
          else if take 1 t = '','' then
            (case parseInt (drop 1 t) of
               None \<Rightarrow> None
             | Some (n, u) \<Rightarrow> if take 1 u = ''}'' then Some (m, Some n, drop 1 u) else None)
          else None)"

text \<open>\<open>repeatIsValid\<close>: nested repetitions multiply to at most the limit.\<close>

fun repeatIsValid :: "int \<Rightarrow> syn \<Rightarrow> bool" where
  "repeatIsValid n (SRepeat lo hi r) =
     (let m = (case hi of None \<Rightarrow> lo | Some h \<Rightarrow> h) in
      if hi = Some 0 then True
      else if n < m then False
      else repeatIsValid (if 0 < m then n div m else n) r)"
| "repeatIsValid n (SCat rs) = list_all (repeatIsValid n) rs"
| "repeatIsValid n (SAlt rs) = list_all (repeatIsValid n) rs"
| "repeatIsValid n (SStar r) = repeatIsValid n r"
| "repeatIsValid n (SPlus r) = repeatIsValid n r"
| "repeatIsValid n (SQuest r) = repeatIsValid n r"
| "repeatIsValid n r = True"

section \<open>Tokens\<close>

text \<open>The characters of a pattern are first grouped: classes, bounds, escapes, group openings and
  lazy operators become one token each.  An error ends the sequence, so that errors are
  still met in the order of the text.\<close>

datatype op = OStar | OPlus | OQuest | OBounds int "int option"

datatype token =
    TLiteral rune
  | TClass bool "(rune \<times> rune) list"
  | TAny
  | TWordB
  | TBegin
  | TOpen
  | TOpenFold
  | TFold
  | TBar
  | TClose
  | TRepeat op
  | TError regexp_error

text \<open>After \<open>(?\<close>: a group without a number, or the flag i for the rest of the group or for a
  group of its own.\<close>

definition parsePerlFlags :: "string \<Rightarrow> token \<times> string" where
  "parsePerlFlags s =
     (if take 1 s = '':'' then (TOpen, drop 1 s)
      else if take 2 s = ''i)'' then (TFold, drop 2 s)
      else if take 2 s = ''i:'' then (TOpenFold, drop 2 s)
      else if s = [] then (TError MissingParen, [])
      else (TError OutsideSubset, []))"

text \<open>A question mark after a repetition makes it lazy, which does not change whether there is a
  match.\<close>

definition repeat_token :: "op \<Rightarrow> string \<Rightarrow> token \<times> string" where
  "repeat_token f s = (TRepeat f, if take 1 s = ''?'' then drop 1 s else s)"

definition bounds_token :: "string \<Rightarrow> token \<times> string" where
  "bounds_token s =
     (case parse_bounds s of
        None \<Rightarrow> (TLiteral 123, s)
      | Some (m, n, t) \<Rightarrow>
          if 1000 < m \<or> (case n of None \<Rightarrow> False | Some k \<Rightarrow> 1000 < k \<or> k < m) then (TError InvalidRepeatSize, [])
          else repeat_token (OBounds m n) t)"

definition class_token :: "string \<Rightarrow> token \<times> string" where
  "class_token s =
     (let neg = (take 1 s = ''^'') in
      case parse_items True [] (if neg then drop 1 s else s) of
        Inl e \<Rightarrow> (TError e, [])
      | Inr (rs, t) \<Rightarrow> (TClass neg rs, t))"

definition escape_token :: "string \<Rightarrow> token \<times> string" where
  "escape_token s =
     (case s of
        [] \<Rightarrow> (TError TrailingBackslash, [])
      | d # t \<Rightarrow>
          if d = CHR ''b'' then (TWordB, t)
          else if d = CHR ''A'' then (TBegin, t)
          else if d \<in> set ''BQzpP'' then (TError OutsideSubset, [])
          else case perl_class d of
            Some (neg, rs) \<Rightarrow> (TClass neg rs, t)
          | None \<Rightarrow> (case parseEscape d of Inl e \<Rightarrow> (TError e, []) | Inr r \<Rightarrow> (TLiteral r, t)))"

definition next_token :: "char \<Rightarrow> string \<Rightarrow> token \<times> string" where
  "next_token c s =
     (if c = CHR ''('' then (if take 1 s = ''?'' then parsePerlFlags (drop 1 s) else (TOpen, s))
      else if c = CHR ''|'' then (TBar, s)
      else if c = CHR '')'' then (TClose, s)
      else if c = CHR ''^'' then (TBegin, s)
      else if c = CHR ''$'' then (TError OutsideSubset, [])
      else if c = CHR ''.'' then (TAny, s)
      else if c = CHR ''['' then class_token s
      else if c = CHR ''*'' then repeat_token OStar s
      else if c = CHR ''+'' then repeat_token OPlus s
      else if c = CHR ''?'' then repeat_token OQuest s
      else if c = CHR ''{'' then bounds_token s
      else if c = CHR 0x5C then escape_token s
      else if (128 :: int) \<le> of_char c then (TError OutsideSubset, [])
      else (TLiteral (of_char c), s))"

lemma parse_items_shorter: "parse_items first acc s = Inr (rs, t) \<Longrightarrow> length t < length s"
proof (induction first acc s rule: parse_items.induct)
  case (1 first acc s)
  obtain i u where u: "class_item first s = Inr (i, u)"
    using "1.prems" by (subst (asm) parse_items.simps) (auto split: sum.splits)
  show ?case
  proof (cases i)
    case None
    with "1.prems" u have "t = u" by (subst (asm) parse_items.simps) simp
    then show ?thesis using class_item_shorter [OF u] by simp
  next
    case (Some rs')
    with "1.prems" u have "parse_items False (acc @ rs') u = Inr (rs, t)" by (subst (asm) parse_items.simps) simp
    then have "length t < length u" using "1.IH" [OF u refl Some] by simp
    then show ?thesis using class_item_shorter [OF u] by simp
  qed
qed

lemma parseInt_shorter: "parseInt s = Some (m, t) \<Longrightarrow> length t \<le> length s"
  by (auto simp: parseInt_def Let_def length_dropWhile_le split: if_splits)

lemma parse_bounds_shorter: "parse_bounds s = Some (m, n, t) \<Longrightarrow> length t \<le> length s"
  by (fastforce simp: parse_bounds_def split: option.splits if_splits prod.splits dest!: parseInt_shorter)

lemma class_token_shorter: "length (snd (class_token s)) \<le> length s"
  using parse_items_shorter [of True "[]" s] parse_items_shorter [of True "[]" "drop 1 s"]
  by (fastforce simp: class_token_def Let_def split: sum.splits)

lemma bounds_token_shorter: "length (snd (bounds_token s)) \<le> length s"
  using parse_bounds_shorter [of s] by (fastforce simp: bounds_token_def repeat_token_def split: option.splits)

lemma next_token_shorter: "length (snd (next_token c s)) \<le> length s"
  using class_token_shorter [of s] bounds_token_shorter [of s]
  by (simp add: next_token_def repeat_token_def parsePerlFlags_def escape_token_def split: list.split option.split sum.split)

function tokens_of :: "string \<Rightarrow> token list" where
  "tokens_of [] = []"
| "tokens_of (c # s) = fst (next_token c s) # tokens_of (snd (next_token c s))"
  by pat_completeness auto
termination
  by (relation "measure length") (simp_all add: le_imp_less_Suc next_token_shorter)

section \<open>The parser\<close>

definition push :: "syn \<Rightarrow> parser \<Rightarrow> parser" where
  "push x p = p\<lparr>current := (current p)\<lparr>fr_items := x # fr_items (current p)\<rparr>, lastRepeat := False\<rparr>"

definition alternation :: "frame \<Rightarrow> syn" where
  "alternation f = SAlt (rev (SCat (rev (fr_items f)) # fr_branches f))"

definition parseVerticalBar :: "parser \<Rightarrow> parser" where
  "parseVerticalBar p =
     p\<lparr>current := (current p)\<lparr>fr_items := [], fr_branches := SCat (rev (fr_items (current p))) # fr_branches (current p)\<rparr>,
       lastRepeat := False\<rparr>"

definition parseLeftParen :: "bool \<Rightarrow> parser \<Rightarrow> parser" where
  "parseLeftParen fc p =
     p\<lparr>current := \<lparr>fr_fold = fc, fr_items = [], fr_branches = []\<rparr>,
       open_groups := current p # open_groups p, lastRepeat := False\<rparr>"

definition parseRightParen :: "parser \<Rightarrow> regexp_error + parser" where
  "parseRightParen p =
     (case open_groups p of
        [] \<Rightarrow> Inl UnexpectedParen
      | f # fs \<Rightarrow> Inr (push (alternation (current p)) (p\<lparr>current := f, open_groups := fs\<rparr>)))"

fun apply_op :: "op \<Rightarrow> syn \<Rightarrow> syn" where
  "apply_op OStar x = SStar x"
| "apply_op OPlus x = SPlus x"
| "apply_op OQuest x = SQuest x"
| "apply_op (OBounds m n) x = SRepeat m n x"

text \<open>A repetition takes the last item; repetitions cannot be stacked.\<close>

definition repeat_last :: "op \<Rightarrow> parser \<Rightarrow> regexp_error + parser" where
  "repeat_last f p =
     (if lastRepeat p then Inl InvalidRepeatOp
      else case fr_items (current p) of
        [] \<Rightarrow> Inl MissingRepeatArgument
      | x # xs \<Rightarrow>
          if repeatIsValid 1000 (apply_op f x)
          then Inr (p\<lparr>current := (current p)\<lparr>fr_items := apply_op f x # xs\<rparr>, lastRepeat := True\<rparr>)
          else Inl InvalidRepeatSize)"

fun parse_token :: "token \<Rightarrow> parser \<Rightarrow> regexp_error + parser" where
  "parse_token (TLiteral r) p = Inr (push (SClass (fr_fold (current p)) False [(r, r)]) p)"
| "parse_token (TClass neg rs) p = Inr (push (SClass (fr_fold (current p)) neg rs) p)"
| "parse_token TAny p = Inr (push (SClass False True [(10, 10)]) p)"
| "parse_token TWordB p = Inr (push SWordB p)"
| "parse_token TBegin p = Inr (push SBegin p)"
| "parse_token TOpen p = Inr (parseLeftParen (fr_fold (current p)) p)"
| "parse_token TOpenFold p = Inr (parseLeftParen True p)"
| "parse_token TFold p = Inr (p\<lparr>current := (current p)\<lparr>fr_fold := True\<rparr>, lastRepeat := False\<rparr>)"
| "parse_token TBar p = Inr (parseVerticalBar p)"
| "parse_token TClose p = parseRightParen p"
| "parse_token (TRepeat f) p = repeat_last f p"
| "parse_token (TError e) p = Inl e"

text \<open>The loop, and the end: the last group must be closed.\<close>

definition finish_parse :: "parser \<Rightarrow> regexp_error + syn" where
  "finish_parse p = (if open_groups p = [] then Inr (alternation (current p)) else Inl MissingParen)"

primrec parse_loop :: "token list \<Rightarrow> parser \<Rightarrow> regexp_error + syn" where
  "parse_loop [] p = finish_parse p"
| "parse_loop (t # ts) p =
     (case parse_token t p of
        Inl e \<Rightarrow> Inl e
      | Inr p' \<Rightarrow> parse_loop ts p')"

definition start_parser :: parser where
  "start_parser =
     \<lparr>current = \<lparr>fr_fold = False, fr_items = [], fr_branches = []\<rparr>, open_groups = [], lastRepeat = False\<rparr>"

definition syntax_Parse :: "string \<Rightarrow> regexp_error + syn" where
  "syntax_Parse s = parse_loop (tokens_of s) start_parser"

section \<open>Compilation\<close>

fun compile :: "syn \<Rightarrow> regex" where
  "compile SEmpty = Eps"
| "compile (SClass fc neg rs) = (if fc then FoldClass neg rs else Class neg rs)"
| "compile SWordB = WordB"
| "compile SBegin = BeginText"
| "compile (SCat xs) = cat (map compile xs)"
| "compile (SAlt xs) = alts (map compile xs)"
| "compile (SStar x) = Star (compile x)"
| "compile (SPlus x) = one_or_more (compile x)"
| "compile (SQuest x) = opt (compile x)"
| "compile (SRepeat m None x) = rep_min (nat m) (compile x)"
| "compile (SRepeat m (Some n) x) = rep (nat m) (nat n) (compile x)"

definition regexp_Compile :: "string \<Rightarrow> regexp_error + regex" where
  "regexp_Compile s = map_sum id compile (syntax_Parse s)"

section \<open>Evaluation\<close>

text \<open>The recursive calls as equations by pattern, for evaluation in the kernel.\<close>

definition items_continue :: "(rune \<times> rune) list \<Rightarrow> regexp_error + (rune \<times> rune) list option \<times> string \<Rightarrow>
    regexp_error + (rune \<times> rune) list \<times> string" where
  "items_continue acc r =
     (case r of
        Inl e \<Rightarrow> Inl e
      | Inr (None, t) \<Rightarrow> Inr (acc, t)
      | Inr (Some rs, t) \<Rightarrow> parse_items False (acc @ rs) t)"

lemma items_continue_code [code]:
  "items_continue acc (Inl e) = Inl e"
  "items_continue acc (Inr (None, t)) = Inr (acc, t)"
  "items_continue acc (Inr (Some rs, t)) = parse_items False (acc @ rs) t"
  by (simp_all add: items_continue_def)

lemma parse_items_code [code]: "parse_items first acc s = items_continue acc (class_item first s)"
  by (subst parse_items.simps) (simp only: items_continue_def)

definition tokens_continue :: "token \<times> string \<Rightarrow> token list" where
  "tokens_continue r = fst r # tokens_of (snd r)"

lemma tokens_of_code [code]:
  "tokens_of [] = []"
  "tokens_of (c # s) = tokens_continue (next_token c s)"
  "tokens_continue (t, u) = t # tokens_of u"
  by (simp_all add: tokens_continue_def)

definition loop_continue :: "token list \<Rightarrow> regexp_error + parser \<Rightarrow> regexp_error + syn" where
  "loop_continue ts r = (case r of Inl e \<Rightarrow> Inl e | Inr p \<Rightarrow> parse_loop ts p)"

lemma parse_loop_code [code]:
  "parse_loop [] p = finish_parse p"
  "parse_loop (t # ts) p = loop_continue ts (parse_token t p)"
  "loop_continue ts (Inl e) = Inl e"
  "loop_continue ts (Inr p) = parse_loop ts p"
  by (simp_all add: loop_continue_def)

section \<open>Equal up to grouping\<close>

text \<open>Sequences and alternatives grouped to the right, without empty parts of sequences.\<close>

fun join_seq :: "regex \<Rightarrow> regex \<Rightarrow> regex" where
  "join_seq Eps r = r"
| "join_seq (Seq a b) r = Seq a (join_seq b r)"
| "join_seq a r = (if r = Eps then a else Seq a r)"

fun join_alt :: "regex \<Rightarrow> regex \<Rightarrow> regex" where
  "join_alt (Alt a b) r = Alt a (join_alt b r)"
| "join_alt a r = Alt a r"

primrec canon :: "regex \<Rightarrow> regex" where
  "canon Eps = Eps"
| "canon (Class neg rs) = Class neg rs"
| "canon (FoldClass neg rs) = FoldClass neg rs"
| "canon WordB = WordB"
| "canon BeginText = BeginText"
| "canon (Seq a b) = join_seq (canon a) (canon b)"
| "canon (Alt a b) = join_alt (canon a) (canon b)"
| "canon (Star a) = Star (canon a)"

lemma sem_join_seq: "sem w (join_seq a r) = sem w a O sem w r"
  by (induction a r rule: join_seq.induct) (auto simp: O_assoc)

lemma sem_join_alt: "sem w (join_alt a r) = sem w a \<union> sem w r"
  by (induction a r rule: join_alt.induct) auto

lemma sem_canon: "sem w (canon r) = sem w r"
  by (induction r) (simp_all add: sem_join_seq sem_join_alt)

text \<open>Two expressions that differ in grouping only match the same slices.\<close>

lemma canon_Match:
  assumes "canon r = canon r'"
  shows "sem w r = sem w r'" "regexp_Match r d = regexp_Match r' d"
proof -
  show "sem w r = sem w r'" for w using sem_canon [of w r] sem_canon [of w r'] assms by simp
  then show "regexp_Match r d = regexp_Match r' d" by (simp add: regexp_Match_iff)
qed

section \<open>Compiling or panicking\<close>

text \<open>\<open>MustCompile\<close> panics on an error, which here is the expression that matches nothing; the
  lemmas of \<open>RegexPatterns\<close> show that no constant of the source has an error.\<close>

definition MustCompile :: "string \<Rightarrow> regex" where
  "MustCompile s = (case regexp_Compile s of Inl e \<Rightarrow> Class False [] | Inr r \<Rightarrow> r)"

end
