(* ===== verification/RegexPatterns.thy ===== *)
theory RegexPatterns
  imports RegexSyntax
begin

text \<open>
  The pattern constants of \<open>src/pattern/regex.go\<close> as they are written there, and the compiled
  expressions, in the order of the source's \<open>regexp.MustCompile\<close> block.  The constants that
  are not compiled are left out.
\<close>

section \<open>Pattern constants\<close>

text \<open>A raw string literal contains no backquote, and here the backquote stands for the
  backslash.\<close>

definition raw :: "string \<Rightarrow> string" where
  "raw s = map (\<lambda>c. if c = CHR 0x60 then CHR 0x5C else c) s"

definition phonePattern :: string where
  "phonePattern = raw
    ''(?:(?:`+?`d{1,3}[-.`s*]?)?(?:`(?`d{3}`)?[-.`s*]?)?`d{3}[-.`s*]?`d{4,6})|(?:(?:(?:`(`+?`d{2}`))|(?:`+?`d{2}))`s*`d{2}`s*`d{3}`s*`d{4})''"

definition cnpjAlphanumPattern :: string where
  "cnpjAlphanumPattern = raw
    ''([A-Z0-9]{2}`.?[A-Z0-9]{3}`.?[A-Z0-9]{3}/?[A-Z0-9]{4}-?[A-Z0-9]{2}|[A-Z0-9]{14})''"

definition phonesWithExtsPattern :: string where
  "phonesWithExtsPattern = raw
    ''(?i)(?:(?:`+?1`s*(?:[.-]`s*)?)?(?:`(`s*(?:[2-9]1[02-9]|[2-9][02-8]1|[2-9][02-8][02-9])`s*`)|(?:[2-9]1[02-9]|[2-9][02-8]1|[2-9][02-8][02-9]))`s*(?:[.-]`s*)?)?(?:[2-9]1[02-9]|[2-9][02-9]1|[2-9][02-9]{2})`s*(?:[.-]`s*)?(?:[0-9]{4})(?:`s*(?:#|x`.?|ext`.?|extension)`s*(?:`d+)?)''"

definition emailPattern :: string where
  "emailPattern = raw
    ''(?i)([A-Za-z0-9!#$%&\\'*+`/=?^_{|.}~-]+@(?:[a-z0-9](?:[a-z0-9-]*[a-z0-9])?`.)+[a-z0-9](?:[a-z0-9-]*[a-z0-9])?)''"

definition ipv4Pattern :: string where
  "ipv4Pattern = raw
    ''(`b25[0-5]|`b2[0-4][0-9]|`b[01]?[0-9][0-9]?)(`.(25[0-5]|2[0-4][0-9]|[01]?[0-9][0-9]?)){3}''"

definition ipv6Pattern :: string where
  "ipv6Pattern = raw
    ''(([0-9a-fA-F]{1,4}:){7,7}[0-9a-fA-F]{1,4}|([0-9a-fA-F]{1,4}:){1,7}:|([0-9a-fA-F]{1,4}:){1,6}:[0-9a-fA-F]{1,4}|([0-9a-fA-F]{1,4}:){1,5}(:[0-9a-fA-F]{1,4}){1,2}|([0-9a-fA-F]{1,4}:){1,4}(:[0-9a-fA-F]{1,4}){1,3}|([0-9a-fA-F]{1,4}:){1,3}(:[0-9a-fA-F]{1,4}){1,4}|([0-9a-fA-F]{1,4}:){1,2}(:[0-9a-fA-F]{1,4}){1,5}|[0-9a-fA-F]{1,4}:((:[0-9a-fA-F]{1,4}){1,6})|:((:[0-9a-fA-F]{1,4}){1,7}|:)|fe80:(:[0-9a-fA-F]{0,4}){0,4}%[0-9a-zA-Z]{1,}|::(ffff(:0{1,4}){0,1}:){0,1}((25[0-5]|(2[0-4]|1{0,1}[0-9]){0,1}[0-9])`.){3,3}(25[0-5]|(2[0-4]|1{0,1}[0-9]){0,1}[0-9])|([0-9a-fA-F]{1,4}:){1,4}:((25[0-5]|(2[0-4]|1{0,1}[0-9]){0,1}[0-9])`.){3,3}(25[0-5]|(2[0-4]|1{0,1}[0-9]){0,1}[0-9]))''"

definition streetAddressPattern :: string where
  "streetAddressPattern = raw
    ''(?i)`d{1,4} [`w ]{1,20}(?:street|st|avenue|ave|road|rd|highway|hwy|square|sq|trail|trl|drive|dr|court|ct|park|parkway|pkwy|circle|cir|boulevard|blvd)`W?''"

definition zipCodePattern :: string where
  "zipCodePattern = raw
    ''`b`d{5}(?:[- ]`d{4})?`b''"

definition poBoxPattern :: string where
  "poBoxPattern = raw
    ''(?i)P`.? ?O`.? Box `d+''"

definition ssnPattern :: string where
  "ssnPattern = raw
    ''`b`d{3}[- ]`d{2}[- ]`d{4}''"

definition guidPattern :: string where
  "guidPattern = raw
    ''[0-9a-fA-F]{8}-?[a-fA-F0-9]{4}-?[a-fA-F0-9]{4}-?[a-fA-F0-9]{4}-?[a-fA-F0-9]{12}''"

definition ibanPattern :: string where
  "ibanPattern = raw
    ''(?i)[a-zA-Z]{2}[0-9]{2}[`t`f ]?[a-zA-Z0-9]{4}[`t`f ]?[0-9]{4}[`t`f ]?[0-9]{3}([a-zA-Z0-9][`t`f ]?[a-zA-Z0-9]{0,4}[`t`f ]?[a-zA-Z0-9]{0,4}[`t`f ]?[a-zA-Z0-9]{0,4}[`t`f ]?[a-zA-Z0-9]{0,3})?''"

definition uuid3Pattern :: string where
  "uuid3Pattern = raw
    ''(?i)[0-9a-f]{8}-[0-9a-f]{4}-3[0-9a-f]{3}-[0-9a-f]{4}-[0-9a-f]{12}''"

definition uuid4Pattern :: string where
  "uuid4Pattern = raw
    ''(?i)[0-9a-f]{8}-[0-9a-f]{4}-4[0-9a-f]{3}-[89ab][0-9a-f]{3}-[0-9a-f]{12}''"

definition uuid5Pattern :: string where
  "uuid5Pattern = raw
    ''(?i)[0-9a-f]{8}-[0-9a-f]{4}-5[0-9a-f]{3}-[89ab][0-9a-f]{3}-[0-9a-f]{12}''"

definition urlPattern :: string where
  "urlPattern = raw
    ''(http(s)?:`/`/.)?(www`.)?[-a-zA-Z0-9@:%._`+~#=]{2,256}`.[a-z]{2,6}`b([-a-zA-Z0-9@:%_`+.~#?&//=]*)''"

section \<open>Compiled expressions\<close>

definition phoneRegexp :: regex where
  "phoneRegexp = MustCompile phonePattern"

definition cnpjAlphanumRegexp :: regex where
  "cnpjAlphanumRegexp = MustCompile cnpjAlphanumPattern"

definition phonesWithExtsRegexp :: regex where
  "phonesWithExtsRegexp = MustCompile phonesWithExtsPattern"

definition emailRegexp :: regex where
  "emailRegexp = MustCompile emailPattern"

definition ipv4Regexp :: regex where
  "ipv4Regexp = MustCompile ipv4Pattern"

definition ipv6Regexp :: regex where
  "ipv6Regexp = MustCompile ipv6Pattern"

definition streetAddressRegexp :: regex where
  "streetAddressRegexp = MustCompile streetAddressPattern"

definition zipCodeRegexp :: regex where
  "zipCodeRegexp = MustCompile zipCodePattern"

definition poBoxRegexp :: regex where
  "poBoxRegexp = MustCompile poBoxPattern"

definition ssnRegexp :: regex where
  "ssnRegexp = MustCompile ssnPattern"

definition guidRegexp :: regex where
  "guidRegexp = MustCompile guidPattern"

definition ibanRegexp :: regex where
  "ibanRegexp = MustCompile ibanPattern"

definition uuid3Regexp :: regex where
  "uuid3Regexp = MustCompile uuid3Pattern"

definition uuid4Regexp :: regex where
  "uuid4Regexp = MustCompile uuid4Pattern"

definition uuid5Regexp :: regex where
  "uuid5Regexp = MustCompile uuid5Pattern"

definition urlRegexp :: regex where
  "urlRegexp = MustCompile urlPattern"

section \<open>Readable forms\<close>

text \<open>The meaning of the expressions the language theorems are about, written with the forms of
  \<^theory_text>\<open>GoRegexp\<close>; they differ from the compiled terms in grouping only.\<close>

definition cnpjAlphanum_form :: regex where
  "cnpjAlphanum_form =
      alts [cat [exactly 2 (cls (ranges ''AZ09'')), opt (lit ''.''),
      exactly 3 (cls (ranges ''AZ09'')), opt (lit ''.''), exactly 3 (cls (ranges ''AZ09'')),
      opt (lit ''/''), exactly 4 (cls (ranges ''AZ09'')), opt (lit ''-''),
      exactly 2 (cls (ranges ''AZ09''))], exactly 14 (cls (ranges ''AZ09''))]"

definition guid_form :: regex where
  "guid_form =
      cat [exactly 8 (cls (ranges ''09afAF'')), opt (lit ''-''),
      exactly 4 (cls (ranges ''afAF09'')), opt (lit ''-''),
      exactly 4 (cls (ranges ''afAF09'')), opt (lit ''-''),
      exactly 4 (cls (ranges ''afAF09'')), opt (lit ''-''),
      exactly 12 (cls (ranges ''afAF09''))]"

definition uuid3_form :: regex where
  "uuid3_form =
      cat [exactly 8 (fcls (ranges ''09af'')), flit ''-'', exactly 4 (fcls (ranges ''09af'')),
      flit ''-3'', exactly 3 (fcls (ranges ''09af'')), flit ''-'',
      exactly 4 (fcls (ranges ''09af'')), flit ''-'', exactly 12 (fcls (ranges ''09af''))]"

definition uuid4_form :: regex where
  "uuid4_form =
      cat [exactly 8 (fcls (ranges ''09af'')), flit ''-'', exactly 4 (fcls (ranges ''09af'')),
      flit ''-4'', exactly 3 (fcls (ranges ''09af'')), flit ''-'', fcls (ones ''89ab''),
      exactly 3 (fcls (ranges ''09af'')), flit ''-'', exactly 12 (fcls (ranges ''09af''))]"

definition uuid5_form :: regex where
  "uuid5_form =
      cat [exactly 8 (fcls (ranges ''09af'')), flit ''-'', exactly 4 (fcls (ranges ''09af'')),
      flit ''-5'', exactly 3 (fcls (ranges ''09af'')), flit ''-'', fcls (ones ''89ab''),
      exactly 3 (fcls (ranges ''09af'')), flit ''-'', exactly 12 (fcls (ranges ''09af''))]"

lemma cnpjAlphanum_canon: "canon cnpjAlphanumRegexp = canon cnpjAlphanum_form"
  by code_simp

lemma guid_canon: "canon guidRegexp = canon guid_form"
  by code_simp

lemma uuid3_canon: "canon uuid3Regexp = canon uuid3_form"
  by code_simp

lemma uuid4_canon: "canon uuid4Regexp = canon uuid4_form"
  by code_simp

lemma uuid5_canon: "canon uuid5Regexp = canon uuid5_form"
  by code_simp

lemma regexp_forms:
  "sem w cnpjAlphanumRegexp = sem w cnpjAlphanum_form"
  "sem w guidRegexp = sem w guid_form"
  "sem w uuid3Regexp = sem w uuid3_form"
  "sem w uuid4Regexp = sem w uuid4_form"
  "sem w uuid5Regexp = sem w uuid5_form"
  by (rule canon_Match cnpjAlphanum_canon guid_canon uuid3_canon uuid4_canon uuid5_canon)+

end
