(* ===== verification/GoNetip.thy ===== *)
theory GoNetip
  imports GoText
begin

text \<open>
  \<open>net.ParseIP\<close> of the standard library, which decides the IP matchers: the dotted decimal
  form, the hexadecimal form with an optional ellipsis and an optional embedded IPv4
  part, and the rejection of zones.  The parsers return the 16 bytes of the address.
\<close>

section \<open>IPv4\<close>

text \<open>The loop of \<open>parseIPv4Fields\<close>: \<open>prev\<close> is the byte before the current one.\<close>

fun ipv4_loop :: "bytes \<Rightarrow> byte option \<Rightarrow> nat \<Rightarrow> nat \<Rightarrow> nat \<Rightarrow> nat list \<Rightarrow> nat list option" where
  "ipv4_loop [] prev val pos digLen fields = (if pos < 3 then None else Some (fields @ [val]))"
| "ipv4_loop (c # cs) prev val pos digLen fields =
     (if 48 \<le> c \<and> c \<le> 57 then
        (if digLen = 1 \<and> val = 0 then None
         else let v = val * 10 + (unat c - 48) in
           if v > 255 then None else ipv4_loop cs (Some c) v pos (digLen + 1) fields)
      else if c = 46 then
        (if prev = None \<or> cs = [] \<or> prev = Some 46 then None
         else if pos = 3 then None
         else ipv4_loop cs (Some c) 0 (pos + 1) 0 (fields @ [val]))
      else None)"

definition parseIPv4Fields :: "bytes \<Rightarrow> nat list option" where
  "parseIPv4Fields s = ipv4_loop s None 0 0 0 []"

section \<open>IPv6\<close>

definition hexval :: "byte \<Rightarrow> nat option" where
  "hexval c =
     (if 48 \<le> c \<and> c \<le> 57 then Some (unat c - 48)
      else if 97 \<le> c \<and> c \<le> 102 then Some (unat c - 97 + 10)
      else if 65 \<le> c \<and> c \<le> 70 then Some (unat c - 65 + 10)
      else None)"

fun hex_group :: "bytes \<Rightarrow> nat \<Rightarrow> nat \<Rightarrow> (nat \<times> nat \<times> bytes) option" where
  "hex_group [] off acc = Some (off, acc, [])"
| "hex_group (c # cs) off acc =
     (case hexval c of
        None \<Rightarrow> Some (off, acc, c # cs)
      | Some v \<Rightarrow>
          let acc' = acc * 16 + v in
          if off > 3 then None
          else if acc' > 65535 then None
          else hex_group cs (off + 1) acc')"

text \<open>The main loop: \<open>ip\<close> holds the address bytes read so far, \<open>ellipsis\<close> the position of
  the double colon.\<close>

function v6_loop :: "bytes \<Rightarrow> nat list \<Rightarrow> nat option \<Rightarrow> (bytes \<times> nat list \<times> nat option) option" where
  "v6_loop s ip ellipsis =
     (if length ip < 16 then
        (case hex_group s 0 0 of
           None \<Rightarrow> None
         | Some (off, acc, rest) \<Rightarrow>
             if off = 0 then None
             else if rest \<noteq> [] \<and> hd rest = 46 then
               (if ellipsis = None \<and> length ip \<noteq> 12 then None
                else if length ip + 4 > 16 then None
                else case parseIPv4Fields s of
                  None \<Rightarrow> None
                | Some f \<Rightarrow> Some ([], ip @ f, ellipsis))
             else
               let ip' = ip @ [acc div 256, acc mod 256] in
               case rest of
                 [] \<Rightarrow> Some ([], ip', ellipsis)
               | c # r \<Rightarrow>
                   if c \<noteq> 58 then None
                   else if r = [] then None
                   else if hd r = 58 then
                     (if ellipsis \<noteq> None then None
                      else if tl r = [] then Some ([], ip', Some (length ip'))
                      else v6_loop (tl r) ip' (Some (length ip')))
                   else v6_loop r ip' ellipsis)
      else Some (s, ip, ellipsis))"
  by pat_completeness auto
termination
  by (relation "measure (\<lambda>(s, ip, e). 16 - length ip)") auto

declare v6_loop.simps [simp del]

definition v6_finish :: "bytes \<times> nat list \<times> nat option \<Rightarrow> nat list option" where
  "v6_finish st =
     (case st of (s, ip, ellipsis) \<Rightarrow>
        if s \<noteq> [] then None
        else if length ip < 16 then
          (case ellipsis of
             None \<Rightarrow> None
           | Some e \<Rightarrow> Some (take e ip @ replicate (16 - length ip) 0 @ drop e ip))
        else if ellipsis \<noteq> None then None
        else Some ip)"

definition parseIPv6Addr :: "bytes \<Rightarrow> nat list option" where
  "parseIPv6Addr s =
     (if HasPrefix s (str ''::'') then
        (if drop 2 s = [] then Some (replicate 16 0)
         else Option.bind (v6_loop (drop 2 s) [] (Some 0)) v6_finish)
      else Option.bind (v6_loop s [] None) v6_finish)"

text \<open>An address with the text of its zone.\<close>

definition parseIPv6 :: "bytes \<Rightarrow> (nat list \<times> bytes) option" where
  "parseIPv6 s =
     (let i = IndexByte s 37 in
      if i \<noteq> -1 then
        (let zone = drop (nat i + 1) s in
         if zone = [] then None else map_option (\<lambda>a. (a, zone)) (parseIPv6Addr (take (nat i) s)))
      else map_option (\<lambda>a. (a, [])) (parseIPv6Addr s))"

definition parseIPv4 :: "bytes \<Rightarrow> (nat list \<times> bytes) option" where
  "parseIPv4 s = map_option (\<lambda>f. (replicate 10 0 @ [255, 255] @ f, [])) (parseIPv4Fields s)"

fun parse_addr_loop :: "bytes \<Rightarrow> bytes \<Rightarrow> (nat list \<times> bytes) option" where
  "parse_addr_loop s [] = None"
| "parse_addr_loop s (c # cs) =
     (if c = 46 then parseIPv4 s
      else if c = 58 then parseIPv6 s
      else if c = 37 then None
      else parse_addr_loop s cs)"

definition ParseIP :: "bytes \<Rightarrow> nat list option" where
  "ParseIP s =
     (case parse_addr_loop s s of
        None \<Rightarrow> None
      | Some (addr, zone) \<Rightarrow> if zone \<noteq> [] then None else Some addr)"

lemmas ip_eval = ParseIP_def parseIPv4_def parseIPv4Fields_def parseIPv6_def parseIPv6Addr_def
  v6_loop.simps v6_finish_def hexval_def HasPrefix_def Let_def

section \<open>What the parsers accept\<close>

text \<open>Every accepted text is ASCII.\<close>

lemma ipv4_loop_ascii: "ipv4_loop s prev val pos digLen fields \<noteq> None \<Longrightarrow> list_all ascii s"
  by (induction s prev val pos digLen fields rule: ipv4_loop.induct)
    (auto simp: Let_def byte_simps split: if_splits)

lemma hexval_ascii: "hexval c = Some v \<Longrightarrow> ascii c"
  by (auto simp: hexval_def byte_simps split: if_splits)

lemma hex_group_prefix:
  "hex_group s off acc = Some (off', acc', rest) \<Longrightarrow> \<exists>p. s = p @ rest \<and> list_all ascii p"
proof (induction s off acc rule: hex_group.induct)
  case (2 c cs off acc)
  show ?case
  proof (cases "hexval c")
    case (Some v)
    with 2 obtain p where "cs = p @ rest" "list_all ascii p"
      by (auto simp: Let_def split: if_splits)
    with hexval_ascii [OF Some] show ?thesis by (intro exI [of _ "c # p"]) simp
  qed (use 2 in auto)
qed simp

lemma v6_loop_ascii:
  "v6_loop s ip e = Some (rest, ip', e') \<Longrightarrow> \<exists>p. s = p @ rest \<and> list_all ascii p"
proof (induction s ip e rule: v6_loop.induct)
  case (1 s ip e)
  note unf = v6_loop.simps [of s ip e]
  show ?case
  proof (cases "length ip < 16")
    case True
    then obtain off acc r where g: "hex_group s 0 0 = Some (off, acc, r)" "off \<noteq> 0"
      using "1.prems" by (auto simp: unf split: option.splits if_splits)
    then obtain p where p: "s = p @ r" "list_all ascii p" using hex_group_prefix by blast
    show ?thesis
    proof (cases "r \<noteq> [] \<and> hd r = 46")
      case dot: True
      then have "parseIPv4Fields s \<noteq> None" "rest = []"
        using "1.prems" True g by (auto simp: unf split: option.splits if_splits)
      then show ?thesis using ipv4_loop_ascii by (auto simp: parseIPv4Fields_def)
    next
      case nodot: False
      show ?thesis
      proof (cases r)
        case Nil
        with "1.prems" True g have "rest = []" by (simp add: unf Let_def)
        with Nil p show ?thesis by simp
      next
        case (Cons c r')
        have step: "r' \<noteq> []" "c = 58"
          using "1.prems" True g nodot Cons by (auto simp: unf Let_def split: if_splits)
        then show ?thesis
        proof (cases "hd r' = 58")
          case ell: True
          have "\<exists>q. tl r' = q @ rest \<and> list_all ascii q"
          proof (cases "tl r' = []")
            case True
            with "1.prems" \<open>length ip < 16\<close> g nodot Cons step ell show ?thesis
              by (auto simp: unf Let_def split: if_splits)
          next
            case False
            with "1.prems" "1.IH" (1) \<open>length ip < 16\<close> g nodot Cons step ell show ?thesis
              by (simp add: unf Let_def split: if_splits)
          qed
          then obtain q where q: "tl r' = q @ rest" "list_all ascii q" by blast
          have "s = (p @ [58, 58] @ q) @ rest"
            using p(1) Cons step ell q(1) by (cases r') auto
          with p(2) q(2) show ?thesis by (intro exI [of _ "p @ [58, 58] @ q"]) simp
        next
          case False
          then have "\<exists>q. r' = q @ rest \<and> list_all ascii q"
            using "1.prems" "1.IH" (2) \<open>length ip < 16\<close> g nodot Cons step
            by (simp add: unf Let_def)
          then obtain q where q: "r' = q @ rest" "list_all ascii q" by blast
          with p Cons step show ?thesis by (intro exI [of _ "p @ [58] @ q"]) simp
        qed
      qed
    qed
  qed (use "1.prems" in \<open>auto simp: unf\<close>)
qed

lemma parseIPv6Addr_ascii: "parseIPv6Addr s \<noteq> None \<Longrightarrow> list_all ascii s"
proof -
  assume s: "parseIPv6Addr s \<noteq> None"
  have fin: "list_all ascii t" if "Option.bind (v6_loop t [] e) v6_finish \<noteq> None" (is ?b) for t e
  proof -
    obtain ip e' where "v6_loop t [] e = Some ([], ip, e')"
      using \<open>?b\<close> by (cases "v6_loop t [] e") (auto simp: v6_finish_def split: if_splits)
    then show ?thesis using v6_loop_ascii by fastforce
  qed
  show ?thesis
  proof (cases "HasPrefix s (str ''::'')")
    case True
    then have "s = [58, 58] @ drop 2 s"
      using append_take_drop_id [of 2 s] by (simp add: HasPrefix_def numeral_2_eq_2)
    moreover have "list_all ascii (drop 2 s)"
      using s True fin by (auto simp: parseIPv6Addr_def split: if_splits)
    moreover have "list_all ascii [58, 58]" by simp
    ultimately show ?thesis by (metis list_all_append)
  qed (use s fin in \<open>auto simp: parseIPv6Addr_def\<close>)
qed

lemma parse_addr_loop_cases:
  "parse_addr_loop s t = Some a \<Longrightarrow> parseIPv4 s = Some a \<or> parseIPv6 s = Some a"
  by (induction s t rule: parse_addr_loop.induct) (auto split: if_splits)

lemma ParseIP_ascii:
  assumes "ParseIP s \<noteq> None"
  shows "list_all ascii s"
proof -
  obtain a where "parse_addr_loop s s = Some (a, [])"
    using assms by (auto simp: ParseIP_def split: option.splits if_splits)
  from parse_addr_loop_cases [OF this] show ?thesis
  proof
    assume "parseIPv4 s = Some (a, [])"
    then have "ipv4_loop s None 0 0 0 [] \<noteq> None" by (auto simp: parseIPv4_def parseIPv4Fields_def)
    then show ?thesis by (rule ipv4_loop_ascii)
  next
    assume "parseIPv6 s = Some (a, [])"
    then show ?thesis using parseIPv6Addr_ascii by (auto simp: parseIPv6_def Let_def split: if_splits)
  qed
qed

section \<open>Printing and parsing IPv4\<close>

definition dig :: "nat \<Rightarrow> byte" where
  "dig k = of_nat (48 + k)"

definition dec_octet :: "nat \<Rightarrow> bytes" where
  "dec_octet n =
     (if n < 10 then [dig n]
      else if n < 100 then [dig (n div 10), dig (n mod 10)]
      else [dig (n div 100), dig (n div 10 mod 10), dig (n mod 10)])"

definition dotted :: "nat \<Rightarrow> nat \<Rightarrow> nat \<Rightarrow> nat \<Rightarrow> bytes" where
  "dotted a b c d = dec_octet a @ 46 # dec_octet b @ 46 # dec_octet c @ 46 # dec_octet d"

lemma digit_word: "k < 10 \<Longrightarrow> unat (dig k) = 48 + k"
  by (simp add: dig_def unat_of_nat del: of_nat_add)

lemma ipv4_digit:
  assumes "k < 10" "\<not> (digLen = 1 \<and> val = 0)" "val * 10 + k \<le> 255"
  shows "ipv4_loop (dig k # cs) prev val pos digLen fields =
     ipv4_loop cs (Some (dig k)) (val * 10 + k) pos (digLen + 1) fields"
  using assms digit_word [OF assms(1)] by (auto simp: byte_simps Let_def)

lemma ipv4_octet:
  assumes "n < 256"
  shows "\<exists>c k. c \<noteq> 46 \<and> ipv4_loop (dec_octet n @ cs) prev 0 pos 0 fields = ipv4_loop cs (Some c) n pos k fields"
proof -
  have ne: "k < 10 \<Longrightarrow> dig k \<noteq> 46" for k
    using digit_word [of k] by (auto simp: byte_eq_unat)
  consider "n < 10" | "10 \<le> n" "n < 100" | "100 \<le> n" by linarith
  then show ?thesis
  proof cases
    case 1
    then show ?thesis using ipv4_digit [of n 0 0] ne [of n]
      by (auto simp: dec_octet_def simp del: ipv4_loop.simps)
  next
    case 2
    then have q: "n div 10 < 10" "n div 10 \<noteq> 0" "n mod 10 < 10" by auto
    have "ipv4_loop (dec_octet n @ cs) prev 0 pos 0 fields
        = ipv4_loop cs (Some (dig (n mod 10))) n pos 2 fields"
      using 2 q ipv4_digit [of "n div 10" 0 0] ipv4_digit [of "n mod 10" 1 "n div 10"] assms
      by (simp add: dec_octet_def numeral_2_eq_2 del: ipv4_loop.simps)
    then show ?thesis using ne [OF q(3)] by blast
  next
    case 3
    then have q: "n div 100 < 10" "n div 100 \<noteq> 0" "n div 10 mod 10 < 10" "n mod 10 < 10"
      using assms by auto
    have "n div 100 = n div 10 div 10" by (simp flip: div_mult2_eq)
    then have e: "n div 100 * 10 + n div 10 mod 10 = n div 10" by simp
    have "ipv4_loop (dec_octet n @ cs) prev 0 pos 0 fields
        = ipv4_loop (dig (n div 10 mod 10) # dig (n mod 10) # cs) (Some (dig (n div 100))) (n div 100) pos 1 fields"
      using 3 ipv4_digit [of "n div 100" 0 0, OF q(1)] q(1) by (simp add: dec_octet_def del: ipv4_loop.simps)
    also have "\<dots> = ipv4_loop (dig (n mod 10) # cs) (Some (dig (n div 10 mod 10))) (n div 10) pos 2 fields"
      using ipv4_digit [of "n div 10 mod 10" 1 "n div 100"] q e assms
      by (simp add: numeral_2_eq_2 del: ipv4_loop.simps)
    also have "\<dots> = ipv4_loop cs (Some (dig (n mod 10))) n pos (2 + 1) fields"
      using ipv4_digit [of "n mod 10" 2 "n div 10"] q assms by (simp del: ipv4_loop.simps)
    finally have "ipv4_loop (dec_octet n @ cs) prev 0 pos 0 fields
        = ipv4_loop cs (Some (dig (n mod 10))) n pos (2 + 1) fields" .
    then show ?thesis using ne [OF q(4)] by blast
  qed
qed

lemma dec_octet_not_Nil: "dec_octet n \<noteq> []"
  by (simp add: dec_octet_def)

lemma ipv4_dot:
  assumes "n < 256" "pos < 3" "cs \<noteq> []"
  shows "\<exists>p. ipv4_loop (dec_octet n @ 46 # cs) prev 0 pos 0 fields = ipv4_loop cs p 0 (pos + 1) 0 (fields @ [n])"
proof -
  obtain c k where "c \<noteq> 46"
    "ipv4_loop (dec_octet n @ 46 # cs) prev 0 pos 0 fields = ipv4_loop (46 # cs) (Some c) n pos k fields"
    using ipv4_octet [OF assms(1)] by blast
  with assms(2,3) show ?thesis by auto
qed

lemma parseIPv4Fields_dotted:
  assumes "a < 256" "b < 256" "c < 256" "d < 256"
  shows "parseIPv4Fields (dotted a b c d) = Some [a, b, c, d]"
proof -
  obtain p1 where 1: "ipv4_loop (dotted a b c d) None 0 0 0 [] =
      ipv4_loop (dec_octet b @ 46 # dec_octet c @ 46 # dec_octet d) p1 0 1 0 [a]"
    unfolding dotted_def
    using ipv4_dot [OF assms(1), of 0 "dec_octet b @ 46 # dec_octet c @ 46 # dec_octet d" None "[]"]
      dec_octet_not_Nil
    by (auto simp del: ipv4_loop.simps)
  obtain p2 where 2: "ipv4_loop (dec_octet b @ 46 # dec_octet c @ 46 # dec_octet d) p1 0 1 0 [a] =
      ipv4_loop (dec_octet c @ 46 # dec_octet d) p2 0 2 0 [a, b]"
    using ipv4_dot [OF assms(2), of 1 "dec_octet c @ 46 # dec_octet d" p1 "[a]"] dec_octet_not_Nil
    by (auto simp: numeral_2_eq_2 simp del: ipv4_loop.simps)
  obtain p3 where 3: "ipv4_loop (dec_octet c @ 46 # dec_octet d) p2 0 2 0 [a, b] =
      ipv4_loop (dec_octet d) p3 0 3 0 [a, b, c]"
    using ipv4_dot [OF assms(3), of 2 "dec_octet d" p2 "[a, b]"] dec_octet_not_Nil
    by (auto simp del: ipv4_loop.simps)
  have 4: "ipv4_loop (dec_octet d) p3 0 3 0 [a, b, c] = Some [a, b, c, d]"
    using ipv4_octet [OF assms(4), of "[]" p3 3 "[a, b, c]"] by auto
  show ?thesis unfolding parseIPv4Fields_def 1 2 3 4 ..
qed

lemma dec_octet_no_colon: "n < 256 \<Longrightarrow> x \<in> set (dec_octet n) \<Longrightarrow> 48 \<le> unat x \<and> unat x \<le> 57"
  by (auto simp: dec_octet_def digit_word split: if_splits)

lemma parse_addr_loop_digits:
  "\<forall>x\<in>set p. 48 \<le> unat x \<and> unat x \<le> 57 \<Longrightarrow> parse_addr_loop s (p @ 46 # q) = parseIPv4 s"
  by (induction p) (auto simp: byte_eq_unat)

lemma ParseIP_dotted:
  assumes "a < 256" "b < 256" "c < 256" "d < 256"
  shows "ParseIP (dotted a b c d) = Some (replicate 10 0 @ [255, 255, a, b, c, d])"
proof -
  have "parse_addr_loop s (dotted a b c d) = parseIPv4 s" for s
    unfolding dotted_def using dec_octet_no_colon [OF assms(1)] parse_addr_loop_digits by blast
  then show ?thesis
    by (simp add: ParseIP_def parseIPv4_def parseIPv4Fields_dotted [OF assms])
qed

end
