(* ===== verification/RegexFuncs.thy ===== *)
theory RegexFuncs
  imports MatchFuncs RegexPatterns GoNetip
begin

text \<open>
  The match functions of \<open>src/pattern/regex.go\<close> that run a compiled regular expression or
  parse an address: phones, email, IP addresses, postal addresses, SSN, GUID, IBAN, the
  versioned UUIDs and URLs.  The lemmas compare the expressions with the functions that
  validate the same identifiers by hand.
\<close>

section \<open>Definitions\<close>

definition MatchPhone :: "bytes \<Rightarrow> bool" where
  "MatchPhone s = regexp_Match phoneRegexp s"

definition MatchPhonesWithExts :: "bytes \<Rightarrow> bool" where
  "MatchPhonesWithExts s = regexp_Match phonesWithExtsRegexp s"

text \<open>The loop of \<open>MatchEmail\<close> runs from the end of the slice; its argument is reversed.\<close>

fun email_loop :: "bytes \<Rightarrow> bool" where
  "email_loop [] = False"
| "email_loop (b # bs) =
     (if b = ch (CHR ''@'') then False
      else if (b < ch (CHR ''0'') \<or> b > ch (CHR ''9'')) \<and> b \<noteq> ch (CHR ''.'') then True
      else email_loop bs)"

definition MatchEmail :: "bytes \<Rightarrow> bool" where
  "MatchEmail s = (if regexp_Match emailRegexp s then email_loop (rev s) else False)"

definition ip_wrap_chars :: string where
  "ip_wrap_chars = [CHR 0x22] @ '',[]{}-;?!`'' @ [CHR 0x27]"

definition MatchIP :: "bytes \<Rightarrow> bool" where
  "MatchIP s = (ParseIP (stripChars (map of_char ip_wrap_chars) s) \<noteq> None)"

definition replace_wraps :: "bytes \<Rightarrow> bytes" where
  "replace_wraps s = foldl RemoveAll s (str ip_wrap_chars)"

definition MatchIPV4 :: "bytes \<Rightarrow> bool" where
  "MatchIPV4 s0 =
     (let s = replace_wraps s0 in
      if regexp_Match ipv4Regexp s then (if ParseIP s \<noteq> None then True else False) else False)"

definition MatchIPV6 :: "bytes \<Rightarrow> bool" where
  "MatchIPV6 s0 =
     (let s = replace_wraps s0 in
      if regexp_Match ipv6Regexp s then (if ParseIP s \<noteq> None then True else False) else False)"

definition MatchStreetAddress :: "bytes \<Rightarrow> bool" where
  "MatchStreetAddress s = regexp_Match streetAddressRegexp s"

definition MatchZipCode :: "bytes \<Rightarrow> bool" where
  "MatchZipCode s = regexp_Match zipCodeRegexp s"

definition MatchPOBox :: "bytes \<Rightarrow> bool" where
  "MatchPOBox s = regexp_Match poBoxRegexp s"

definition MatchSSN :: "bytes \<Rightarrow> bool" where
  "MatchSSN s = regexp_Match ssnRegexp s"

definition Matchguid :: "bytes \<Rightarrow> bool" where
  "Matchguid s = regexp_Match guidRegexp s"

definition MatchIBAN :: "bytes \<Rightarrow> bool" where
  "MatchIBAN s = regexp_Match ibanRegexp s"

definition MatchUUIDV3 :: "bytes \<Rightarrow> bool" where
  "MatchUUIDV3 s = regexp_Match uuid3Regexp s"

definition MatchUUIDV4 :: "bytes \<Rightarrow> bool" where
  "MatchUUIDV4 s = regexp_Match uuid4Regexp s"

definition MatchUUIDV5 :: "bytes \<Rightarrow> bool" where
  "MatchUUIDV5 s = regexp_Match uuid5Regexp s"

definition MatchURL :: "bytes \<Rightarrow> bool" where
  "MatchURL s = regexp_Match urlRegexp s"

section \<open>GUIDs and UUIDs\<close>

definition hex_rune :: "rune \<Rightarrow> bool" where
  "hex_rune r \<longleftrightarrow> (48 \<le> r \<and> r \<le> 57) \<or> (97 \<le> r \<and> r \<le> 102) \<or> (65 \<le> r \<and> r \<le> 70)"

lemma sem_hex:
  "sem w (cls (ranges ''09afAF'')) = step_rel w hex_rune"
  "sem w (cls (ranges ''afAF09'')) = step_rel w hex_rune"
  "sem w (fcls (ranges ''09af'')) = step_rel w hex_rune"
proof -
  have "in_ranges (ranges ''09afAF'') = hex_rune" "in_ranges (ranges ''afAF09'') = hex_rune"
    by (auto simp: in_ranges_def hex_rune_def)
  then show "sem w (cls (ranges ''09afAF'')) = step_rel w hex_rune"
    "sem w (cls (ranges ''afAF09'')) = step_rel w hex_rune"
    by (simp_all add: sem_cls)
  have "list_ex (in_ranges (ranges ''09af'')) (fold_orbit r) \<longleftrightarrow> hex_rune r" for r
    by (auto simp: in_ranges_def hex_rune_def fold_orbit_def)
  then show "sem w (fcls (ranges ''09af'')) = step_rel w hex_rune"
    by (simp add: sem_fcls)
qed

definition dash_rel :: "rune list \<Rightarrow> (nat \<times> nat) set" where
  "dash_rel w = step_rel w (\<lambda>r. r = 45)"

definition hexes :: "rune list \<Rightarrow> nat \<Rightarrow> (nat \<times> nat) set" where
  "hexes w n = {(i, j). j = i + n \<and> (n = 0 \<or> i + n \<le> length w) \<and> (\<forall>k<n. hex_rune (w ! (i + k)))}"

lemma sem_exactly_hex:
  "sem w (exactly n (cls (ranges ''09afAF''))) = hexes w n"
  "sem w (exactly n (cls (ranges ''afAF09''))) = hexes w n"
  "sem w (exactly n (fcls (ranges ''09af''))) = hexes w n"
  unfolding hexes_def
  by (auto simp only: sem_exactly_step [OF sem_hex(1)] sem_exactly_step [OF sem_hex(2)]
      sem_exactly_step [OF sem_hex(3)] split_conv mem_Collect_eq)

lemma step_hexes: "(\<And>r. P r \<Longrightarrow> hex_rune r) \<Longrightarrow> step_rel w P O hexes w n \<subseteq> hexes w (Suc n)"
  by (fastforce simp: hexes_def less_Suc_eq_0_disj)

lemma sem_flit_dash: "sem w (flit ''-'') = dash_rel w"
  by (auto simp: flit_def sem_fcls ones_def in_ranges_def dash_rel_def fold_orbit_def split: if_splits)

lemma sem_flit_dash_digit:
  "c \<in> set ''345'' \<Longrightarrow> sem w (flit [CHR ''-'', c]) = dash_rel w O step_rel w (\<lambda>r. r = of_char c)"
proof -
  assume "c \<in> set ''345''"
  then have "sem w (flit [c]) = step_rel w (\<lambda>r. r = of_char c)"
    by (auto simp: flit_def sem_fcls ones_def in_ranges_def fold_orbit_def split: if_splits)
  moreover have "sem w (flit [CHR ''-'', c]) = sem w (flit ''-'') O sem w (flit [c])"
    by (simp add: flit_def)
  ultimately show ?thesis by (simp only: sem_flit_dash)
qed

lemma sem_version:
  "sem w (flit ''-3'') = dash_rel w O step_rel w (\<lambda>r. r = of_char (CHR ''3''))"
  "sem w (flit ''-4'') = dash_rel w O step_rel w (\<lambda>r. r = of_char (CHR ''4''))"
  "sem w (flit ''-5'') = dash_rel w O step_rel w (\<lambda>r. r = of_char (CHR ''5''))"
  by (rule sem_flit_dash_digit; simp)+

lemma sem_lit_dash: "sem w (lit ''-'') = dash_rel w"
  by (simp add: sem_lit1 dash_rel_def)

lemma sem_guid:
  "sem w guidRegexp = hexes w 8 O (dash_rel w \<union> Id) O hexes w 4 O (dash_rel w \<union> Id) O hexes w 4
     O (dash_rel w \<union> Id) O hexes w 4 O (dash_rel w \<union> Id) O hexes w 12"
  unfolding regexp_forms(2) guid_form_def cat.simps sem.simps sem_exactly_hex sem_opt sem_lit_dash by simp

lemma sem_variant: "sem w (fcls (ones ''89ab'')) \<subseteq> step_rel w hex_rune"
  by (auto simp: sem_fcls ones_def in_ranges_def fold_orbit_def hex_rune_def split: if_splits)

lemma guid_from_groups:
  assumes "A \<subseteq> hexes w 4" "B \<subseteq> hexes w 4"
  shows "hexes w 8 O dash_rel w O hexes w 4 O dash_rel w O A O dash_rel w O B O dash_rel w O hexes w 12
     \<subseteq> sem w guidRegexp"
  unfolding sem_guid by (intro relcomp_mono assms subset_refl Un_upper1)

lemma version_group:
  "c \<in> set ''345'' \<Longrightarrow> step_rel w (\<lambda>r. r = of_char c) O hexes w 3 \<subseteq> hexes w 4"
  using step_hexes [of "\<lambda>r. r = of_char c" w 3] by (simp add: hex_rune_def) fastforce

lemma variant_group: "sem w (fcls (ones ''89ab'')) O hexes w 3 \<subseteq> hexes w 4"
  using step_hexes [of hex_rune w 3] sem_variant [of w] by (fastforce simp del: step_rel_iff)

lemma sem_uuid3: "sem w uuid3Regexp \<subseteq> sem w guidRegexp"
  using guid_from_groups [OF version_group [of "CHR ''3''"] subset_refl, of w]
  unfolding regexp_forms(3) uuid3_form_def cat.simps sem.simps sem_exactly_hex sem_flit_dash sem_version O_assoc
  by simp

lemma sem_uuid4: "sem w uuid4Regexp \<subseteq> sem w guidRegexp"
  using guid_from_groups [OF version_group [of "CHR ''4''"] variant_group, of w]
  unfolding regexp_forms(4) uuid4_form_def cat.simps sem.simps sem_exactly_hex sem_flit_dash sem_version O_assoc
  by simp

lemma sem_uuid5: "sem w uuid5Regexp \<subseteq> sem w guidRegexp"
  using guid_from_groups [OF version_group [of "CHR ''5''"] variant_group, of w]
  unfolding regexp_forms(5) uuid5_form_def cat.simps sem.simps sem_exactly_hex sem_flit_dash sem_version O_assoc
  by simp

lemma regexp_Match_mono: "(\<And>w. sem w r \<subseteq> sem w r') \<Longrightarrow> regexp_Match r s \<Longrightarrow> regexp_Match r' s"
  by (fastforce simp: regexp_Match_iff)

lemma versioned_guid: "MatchUUIDV3 s \<or> MatchUUIDV4 s \<or> MatchUUIDV5 s \<Longrightarrow> Matchguid s"
  unfolding MatchUUIDV3_def MatchUUIDV4_def MatchUUIDV5_def Matchguid_def
  using regexp_Match_mono [OF sem_uuid3] regexp_Match_mono [OF sem_uuid4] regexp_Match_mono [OF sem_uuid5]
  by blast

lemma isHexDigit_rune: "isHexDigit b \<Longrightarrow> hex_rune (uint b)"
  by (auto simp: isHexDigit_def hex_rune_def word_le_def split: if_splits)

lemma MatchUUID_hexes:
  assumes "MatchUUID s" "i + n \<le> 36" "\<forall>k<n. i + k \<notin> {8, 13, 18, 23}" "n \<noteq> 0"
  shows "(i, i + n) \<in> hexes (map uint s) n"
proof -
  have "hex_rune (map uint s ! (i + k))" if "k < n" for k
    using MatchUUID_nth [OF assms(1), of "i + k"] MatchUUID_length [OF assms(1)] assms(2,3) that
    by (simp add: isHexDigit_rune)
  then show ?thesis using MatchUUID_length [OF assms(1)] assms(2) by (simp add: hexes_def)
qed

lemma MatchUUID_dash:
  "MatchUUID s \<Longrightarrow> i \<in> {8, 13, 18, 23} \<Longrightarrow> (i, Suc i) \<in> dash_rel (map uint s)"
  using MatchUUID_nth [of s i] MatchUUID_length [of s] by (auto simp: dash_rel_def)

lemma MatchUUID_ascii: "MatchUUID s \<Longrightarrow> list_all ascii s"
  unfolding list_all_length
proof (intro allI impI)
  fix i assume u: "MatchUUID s" and i: "i < length s"
  with MatchUUID_length [OF u] have "i < 36" by simp
  with MatchUUID_nth [OF u this] show "ascii (s ! i)"
    by (auto split: if_splits dest: isHexDigit_not_dash)
qed

lemma MatchUUID_guid:
  assumes "MatchUUID s"
  shows "Matchguid s"
proof -
  let ?w = "map uint s"
  note h = MatchUUID_hexes [OF assms] and d = MatchUUID_dash [OF assms]
  have "(0, 36) \<in> hexes ?w 8 O dash_rel ?w O hexes ?w 4 O dash_rel ?w O hexes ?w 4 O dash_rel ?w
      O hexes ?w 4 O dash_rel ?w O hexes ?w 12"
    using h [of 0 8] d [of 8] h [of 9 4] d [of 13] h [of 14 4] d [of 18] h [of 19 4] d [of 23] h [of 24 12]
    by (intro relcompI) (simp; presburger?)+
  then have "(0, 36) \<in> sem (runes s) guidRegexp"
    unfolding runes_all_ascii [OF MatchUUID_ascii [OF assms]]
    by (rule subsetD [OF guid_from_groups [OF subset_refl subset_refl]])
  then show ?thesis unfolding Matchguid_def regexp_Match_iff by auto
qed

text \<open>The texts of the four expressions, group by group, and what it means that a text contains
  one.\<close>

fun spelled :: "(rune list \<Rightarrow> bool) list \<Rightarrow> rune list \<Rightarrow> bool" where
  "spelled [] g \<longleftrightarrow> g = []"
| "spelled (P # Ps) g \<longleftrightarrow> (\<exists>a b. g = a @ b \<and> P a \<and> spelled Ps b)"

definition contains :: "(rune list \<Rightarrow> bool) list \<Rightarrow> rune list \<Rightarrow> bool" where
  "contains Ps w \<longleftrightarrow> (\<exists>pre g post. w = pre @ g @ post \<and> spelled Ps g)"

definition hex_group :: "nat \<Rightarrow> rune list \<Rightarrow> bool" where
  "hex_group n g \<longleftrightarrow> length g = n \<and> list_all hex_rune g"

definition dash :: "rune list \<Rightarrow> bool" where
  "dash g \<longleftrightarrow> g = [45]"

definition maybe_dash :: "rune list \<Rightarrow> bool" where
  "maybe_dash g \<longleftrightarrow> g = [45] \<or> g = []"

definition guid_groups :: "(rune list \<Rightarrow> bool) list" where
  "guid_groups = [hex_group 8, maybe_dash, hex_group 4, maybe_dash, hex_group 4, maybe_dash, hex_group 4, maybe_dash, hex_group 12]"

text \<open>A dash and the version digit; a variant digit 8, 9, a or b.\<close>

definition version :: "rune \<Rightarrow> rune list \<Rightarrow> bool" where
  "version d g \<longleftrightarrow> g = [45, 48 + d]"

definition variant :: "rune list \<Rightarrow> bool" where
  "variant g \<longleftrightarrow> g \<in> {[56], [57], [97], [98], [65], [66]}"

definition uuid3_groups :: "(rune list \<Rightarrow> bool) list" where
  "uuid3_groups = [hex_group 8, dash, hex_group 4, version 3, hex_group 3, dash, hex_group 4, dash, hex_group 12]"

definition uuid_groups :: "rune \<Rightarrow> (rune list \<Rightarrow> bool) list" where
  "uuid_groups d = [hex_group 8, dash, hex_group 4, version d, hex_group 3, dash, variant, hex_group 3, dash, hex_group 12]"

text \<open>A set of matches denotes a set of texts when its matches from every position of the text are
  the stretches that belong to the set.\<close>

definition denotes :: "rune list \<Rightarrow> (nat \<times> nat) set \<Rightarrow> (rune list \<Rightarrow> bool) \<Rightarrow> bool" where
  "denotes w R P \<longleftrightarrow> (\<forall>i\<le>length w. \<forall>j. (i, j) \<in> R \<longleftrightarrow> i \<le> j \<and> j \<le> length w \<and> P (take (j - i) (drop i w)))"

lemma denotesD:
  "denotes w R P \<Longrightarrow> i \<le> length w \<Longrightarrow> (i, j) \<in> R \<longleftrightarrow> i \<le> j \<and> j \<le> length w \<and> P (take (j - i) (drop i w))"
  by (simp add: denotes_def)

lemma denotes_empty: "denotes w Id (\<lambda>g. g = [])"
  by (auto simp: denotes_def)

lemma denotes_or: "denotes w R P \<Longrightarrow> denotes w S Q \<Longrightarrow> denotes w (R \<union> S) (\<lambda>g. P g \<or> Q g)"
  by (auto simp: denotes_def)

lemma denotes_step: "denotes w (step_rel w P) (\<lambda>g. \<exists>r. g = [r] \<and> P r)"
proof -
  have "take (j - i) (drop i w) = [r] \<longleftrightarrow> j = Suc i \<and> i < length w \<and> r = w ! i" if "i \<le> j" "j \<le> length w" for i j r
  proof
    assume t: "take (j - i) (drop i w) = [r]"
    then have "length (take (j - i) (drop i w)) = 1" by simp
    then have "j = Suc i" using that by simp
    with t that show "j = Suc i \<and> i < length w \<and> r = w ! i" by (simp add: take_Suc_conv_app_nth hd_drop_conv_nth take_Suc)
  qed (simp add: take_Suc hd_drop_conv_nth)
  then have eq: "(\<exists>r. take (j - i) (drop i w) = [r] \<and> P r) \<longleftrightarrow> j = Suc i \<and> i < length w \<and> P (w ! i)"
    if "i \<le> j" "j \<le> length w" for i j using that by auto
  have "j = Suc i \<and> i < length w \<and> P (w ! i) \<longleftrightarrow>
      i \<le> j \<and> j \<le> length w \<and> (\<exists>r. take (j - i) (drop i w) = [r] \<and> P r)" for i j
    by (cases "i \<le> j \<and> j \<le> length w") (simp add: eq, auto)
  then show ?thesis unfolding denotes_def step_rel_iff by blast
qed

lemma denotes_hexes: "denotes w (hexes w n) (hex_group n)"
  by (auto simp: denotes_def hexes_def hex_group_def list_all_length)

lemma denotes_O:
  assumes "denotes w R P" "denotes w S Q"
  shows "denotes w (R O S) (\<lambda>g. \<exists>a b. g = a @ b \<and> P a \<and> Q b)"
  unfolding denotes_def
proof (intro allI impI iffI)
  fix i j assume i: "i \<le> length w" and "(i, j) \<in> R O S"
  then obtain k where k: "(i, k) \<in> R" "(k, j) \<in> S" by blast
  from k(1) denotesD [OF assms(1) i] have 1: "i \<le> k" "k \<le> length w" "P (take (k - i) (drop i w))" by blast+
  from k(2) denotesD [OF assms(2) 1(2)] have 2: "k \<le> j" "j \<le> length w" "Q (take (j - k) (drop k w))" by blast+
  have "take (j - i) (drop i w) = take (k - i) (drop i w) @ take (j - k) (drop k w)"
  proof -
    have "j - i = (k - i) + (j - k)" using 1(1) 2(1) by simp
    then have "take (j - i) (drop i w) = take (k - i) (drop i w) @ take (j - k) (drop (k - i) (drop i w))"
      by (simp only: take_add)
    then show ?thesis using 1(1) by simp
  qed
  with 1 2 show "i \<le> j \<and> j \<le> length w \<and> (\<exists>a b. take (j - i) (drop i w) = a @ b \<and> P a \<and> Q b)" by auto
next
  fix i j assume i: "i \<le> length w" and ij: "i \<le> j \<and> j \<le> length w \<and> (\<exists>a b. take (j - i) (drop i w) = a @ b \<and> P a \<and> Q b)"
  then obtain a b where ab: "take (j - i) (drop i w) = a @ b" "P a" "Q b" by blast
  define k where "k = i + length a"
  have len: "length a + length b = j - i"
    using arg_cong [OF ab(1), of length] ij by (auto simp: min_def split: if_splits)
  moreover have "i \<le> j" "j \<le> length w" using ij by blast+
  ultimately have k: "i \<le> k" "k \<le> j" "k \<le> length w" unfolding k_def by linarith+
  have "take (k - i) (drop i w) = a"
    using arg_cong [OF ab(1), of "take (length a)"] len by (simp add: k_def min_def)
  moreover have "take (j - k) (drop k w) = b"
    using arg_cong [OF ab(1), of "drop (length a)"] by (simp add: k_def drop_take add.commute)
  ultimately have "(i, k) \<in> R" "(k, j) \<in> S"
    using denotesD [OF assms(1) i] denotesD [OF assms(2) k(3)] k ij ab by auto
  then show "(i, j) \<in> R O S" by blast
qed

lemma denotes_spelled:
  "denotes w Id (spelled [])"
  "denotes w R P \<Longrightarrow> denotes w S (spelled Ps) \<Longrightarrow> denotes w (R O S) (spelled (P # Ps))"
proof -
  show "denotes w Id (spelled [])" using denotes_empty by (simp add: denotes_def)
  show "denotes w R P \<Longrightarrow> denotes w S (spelled Ps) \<Longrightarrow> denotes w (R O S) (spelled (P # Ps))"
    using denotes_O [of w R P S "spelled Ps"] by (simp add: denotes_def)
qed

lemma denotes_cat:
  "list_all2 (\<lambda>r P. denotes w (sem w r) P) rs Ps \<Longrightarrow> denotes w (sem w (cat rs)) (spelled Ps)"
  by (induction rule: list_all2_induct) (simp_all only: cat.simps sem.simps denotes_spelled)

lemma denotes_Match:
  assumes "denotes (runes s) (sem (runes s) r) (spelled Ps)"
  shows "regexp_Match r s \<longleftrightarrow> contains Ps (runes s)"
proof -
  let ?w = "runes s"
  have "(\<exists>i\<le>length ?w. \<exists>j. i \<le> j \<and> j \<le> length ?w \<and> spelled Ps (take (j - i) (drop i ?w))) \<longleftrightarrow> contains Ps ?w"
  proof
    assume "\<exists>i\<le>length ?w. \<exists>j. i \<le> j \<and> j \<le> length ?w \<and> spelled Ps (take (j - i) (drop i ?w))"
    then obtain i j where "spelled Ps (take (j - i) (drop i ?w))" by blast
    moreover have "?w = take i ?w @ take (j - i) (drop i ?w) @ drop (j - i) (drop i ?w)" by (simp del: drop_drop)
    ultimately show "contains Ps ?w" unfolding contains_def by blast
  next
    assume "contains Ps ?w"
    then obtain pre g post where "?w = pre @ g @ post" "spelled Ps g" unfolding contains_def by blast
    then show "\<exists>i\<le>length ?w. \<exists>j. i \<le> j \<and> j \<le> length ?w \<and> spelled Ps (take (j - i) (drop i ?w))"
      by (intro exI [of _ "length pre"] conjI exI [of _ "length pre + length g"]) simp_all
  qed
  moreover have "regexp_Match r s \<longleftrightarrow>
      (\<exists>i\<le>length ?w. \<exists>j. i \<le> j \<and> j \<le> length ?w \<and> spelled Ps (take (j - i) (drop i ?w)))"
    unfolding regexp_Match_iff using denotesD [OF assms] by blast
  ultimately show ?thesis by simp
qed

lemma denotes_items:
  "denotes w (sem w (exactly n (cls (ranges ''09afAF'')))) (hex_group n)"
  "denotes w (sem w (exactly n (cls (ranges ''afAF09'')))) (hex_group n)"
  "denotes w (sem w (exactly n (fcls (ranges ''09af'')))) (hex_group n)"
  "denotes w (sem w (opt (lit ''-''))) maybe_dash"
  "denotes w (sem w (flit ''-'')) dash"
  "denotes w (sem w (flit ''-3'')) (version 3)"
  "denotes w (sem w (flit ''-4'')) (version 4)"
  "denotes w (sem w (flit ''-5'')) (version 5)"
  "denotes w (sem w (fcls (ones ''89ab''))) variant"
proof -
  have d: "denotes w (dash_rel w) dash"
    using denotes_step [of w "\<lambda>r. r = 45"] by (simp add: denotes_def dash_rel_def dash_def)
  have v: "denotes w (dash_rel w O step_rel w (\<lambda>r. r = x)) (\<lambda>g. g = [45, x])" for x
    using denotes_O [OF d denotes_step [of w "\<lambda>r. r = x"]] by (simp add: denotes_def dash_def)
  show "denotes w (sem w (exactly n (cls (ranges ''09afAF'')))) (hex_group n)"
    "denotes w (sem w (exactly n (cls (ranges ''afAF09'')))) (hex_group n)"
    "denotes w (sem w (exactly n (fcls (ranges ''09af'')))) (hex_group n)"
    by (simp_all only: sem_exactly_hex denotes_hexes)
  show "denotes w (sem w (opt (lit ''-''))) maybe_dash"
    using denotes_or [OF d denotes_empty] by (simp add: sem_opt sem_lit_dash maybe_dash_def [abs_def] dash_def)
  show "denotes w (sem w (flit ''-'')) dash" by (simp only: sem_flit_dash d)
  show "denotes w (sem w (flit ''-3'')) (version 3)" "denotes w (sem w (flit ''-4'')) (version 4)"
    "denotes w (sem w (flit ''-5'')) (version 5)"
    using v [of 51] v [of 52] v [of 53] by (simp_all add: sem_version version_def [abs_def])
  have r: "list_ex (in_ranges (ones ''89ab'')) (fold_orbit r) \<longleftrightarrow> r \<in> {56, 57, 97, 98, 65, 66}" for r
    by (auto simp: ones_def in_ranges_def fold_orbit_def)
  have v: "variant = (\<lambda>g. \<exists>r. g = [r] \<and> r \<in> {56, 57, 97, 98, 65, 66})"
    by (auto simp: variant_def fun_eq_iff)
  show "denotes w (sem w (fcls (ones ''89ab''))) variant"
    unfolding sem_fcls r v by (rule denotes_step)
qed

lemma guid_language: "Matchguid s \<longleftrightarrow> contains guid_groups (runes s)"
  unfolding Matchguid_def
  by (rule denotes_Match) (simp only: regexp_forms guid_form_def guid_groups_def,
      rule denotes_cat, intro list.rel_intros denotes_items)

lemma uuid_languages:
  "MatchUUIDV3 s \<longleftrightarrow> contains uuid3_groups (runes s)"
  "MatchUUIDV4 s \<longleftrightarrow> contains (uuid_groups 4) (runes s)"
  "MatchUUIDV5 s \<longleftrightarrow> contains (uuid_groups 5) (runes s)"
  unfolding MatchUUIDV3_def MatchUUIDV4_def MatchUUIDV5_def
  by (rule denotes_Match, simp only: regexp_forms uuid3_form_def uuid4_form_def uuid5_form_def uuid3_groups_def uuid_groups_def,
      rule denotes_cat, intro list.rel_intros denotes_items)+

section \<open>Addresses\<close>

text \<open>The characters that may wrap an address: quotation mark, comma, square and curly brackets,
  hyphen, semicolon, question mark, exclamation mark, backquote and apostrophe.\<close>

definition ip_wrap :: "byte \<Rightarrow> bool" where
  "ip_wrap b \<longleftrightarrow> b \<in> {0x22, 0x2C, 0x5B, 0x5D, 0x7B, 0x7D, 0x2D, 0x3B, 0x3F, 0x21, 0x60, 0x27}"

lemma ip_wrap_code: "ip_wrap b \<longleftrightarrow> b \<in> set (str ip_wrap_chars)"
  by (auto simp: ip_wrap_def ip_wrap_chars_def)

text \<open>An address without the characters that may wrap it.\<close>

definition unwrapped :: "bytes \<Rightarrow> bytes" where
  "unwrapped s = filter (\<lambda>b. \<not> ip_wrap b) s"

lemma foldl_RemoveAll: "foldl RemoveAll s cs = filter (\<lambda>b. b \<notin> set cs) s"
proof (induction cs arbitrary: s)
  case (Cons c cs)
  then show ?case by (simp add: RemoveAll_def conj_commute)
qed simp

lemma replace_wraps_filter: "replace_wraps s = unwrapped s"
  by (simp add: replace_wraps_def foldl_RemoveAll unwrapped_def ip_wrap_code)

lemma ip_wrap_rune: "uint b \<in> set (map of_char ip_wrap_chars) \<longleftrightarrow> ip_wrap b"
  by (simp add: ip_wrap_code ip_wrap_chars_def word_uint_eq_iff)

lemma ip_wrap_ascii: "ip_wrap b \<Longrightarrow> ascii b"
  by (auto simp: ip_wrap_code ip_wrap_chars_def)

lemma ip_wrap_class: "ascii_class (\<lambda>r. r \<in> set (map of_char ip_wrap_chars))"
  by (simp add: ascii_class_def ip_wrap_chars_def)

lemma unwrapped_ascii: "list_all ascii (unwrapped s) \<longleftrightarrow> list_all ascii s"
  using ip_wrap_ascii by (auto simp: unwrapped_def list_all_iff)

lemma strip_wraps: "list_all ascii s \<Longrightarrow> stripChars (map of_char ip_wrap_chars) s = unwrapped s"
  by (simp only: stripChars_filter [OF ip_wrap_class] unwrapped_def ip_wrap_rune)

text \<open>The rune-wise and the byte-wise removal agree on every text that parses.\<close>

lemma MatchIP_iff: "MatchIP s \<longleftrightarrow> ParseIP (unwrapped s) \<noteq> None"
proof (cases "list_all ascii s")
  case True
  then show ?thesis by (simp add: MatchIP_def strip_wraps)
next
  case False
  then have "ParseIP (unwrapped s) = None" "ParseIP (stripChars (map of_char ip_wrap_chars) s) = None"
    using ParseIP_ascii stripChars_ascii [OF ip_wrap_class] unwrapped_ascii by blast+
  then show ?thesis by (simp add: MatchIP_def)
qed

lemma versioned_ip: "MatchIPV4 s \<or> MatchIPV6 s \<Longrightarrow> MatchIP s"
  by (auto simp: MatchIPV4_def MatchIPV6_def Let_def MatchIP_iff replace_wraps_filter split: if_splits)

section \<open>Properties\<close>

text \<open>The versioned UUID expressions and the hand-written UUID check accept only texts that the
  GUID expression accepts.\<close>

lemma uuid_implies_guid:
  "MatchUUID s \<or> MatchUUIDV3 s \<or> MatchUUIDV4 s \<or> MatchUUIDV5 s \<Longrightarrow> Matchguid s"
  using MatchUUID_guid versioned_guid by blast

text \<open>Whatever the IPv4 or the IPv6 matcher accepts, the combined IP matcher accepts, although
  the first two remove the wrapping characters byte by byte and the last rune by rune.\<close>

lemma ip_versions_agree: "MatchIPV4 s \<or> MatchIPV6 s \<Longrightarrow> MatchIP s"
  by (rule versioned_ip)

text \<open>C34: Every dotted-decimal IPv4 address is recognised, in whatever quotes, brackets and
  punctuation it stands, and parses to the IPv4-mapped address of its four octets.\<close>

theorem dotted_quads_match:
  assumes "unwrapped s = dotted a b c d" "a < 256" "b < 256" "c < 256" "d < 256"
  shows "MatchIP s \<and> ParseIP (unwrapped s) = Some (replicate 10 0 @ [255, 255, a, b, c, d])"
  using ParseIP_dotted [OF assms(2-5)] assms(1) by (simp add: MatchIP_iff)

theorem dotted_quads_match_witness: "MatchIP (str ''[10.0.255.1],'')"
proof -
  have "unwrapped (str ''[10.0.255.1],'') = dotted 10 0 255 1"
    by (simp add: unwrapped_def ip_wrap_def dotted_def dec_octet_def dig_def)
  from dotted_quads_match [OF this] show ?thesis by simp
qed

end
