(* ===== verification/Checksums.thy ===== *)
theory Checksums
  imports MatchFuncs RegexPatterns
begin

text \<open>
  The Brazilian identifiers of \<open>src/pattern/regex.go\<close>: CPF (\<open>MatchCPF\<close>), numeric CNPJ
  (\<open>MatchCNPJ\<close>) and alphanumeric CNPJ (\<open>MatchCNPJV2\<close>) with their check digits.  Go's
  \<open>int\<close> is an \<open>int\<close> here: the largest sum is below 6000.
\<close>

section \<open>Definitions\<close>

definition byteAtoi :: "byte \<Rightarrow> int \<times> string option" where
  "byteAtoi b =
     (if b < ch (CHR ''0'') \<or> b > ch (CHR ''9'') then (0, Some ''invalid byte for conversion'')
      else (uint (b - ch (CHR ''0'')), None))"

definition cpf_sum :: "bytes \<Rightarrow> int \<Rightarrow> int" where
  "cpf_sum cpf w = foldl (\<lambda>sum i. sum + fst (byteAtoi (cpf ! i)) * (w - int i)) 0 [0..<9]"

definition validateCPFCheckDigits :: "bytes \<Rightarrow> bool" where
  "validateCPFCheckDigits cpf =
     (let sum1 = cpf_sum cpf 10;
          r1 = (sum1 * 10) mod 11;
          result1 = (if r1 = 10 then 0 else r1);
          sum2 = cpf_sum cpf 11 + result1 * 2;
          r2 = (sum2 * 10) mod 11;
          result2 = (if r2 = 10 then 0 else r2);
          checkDigit1 = fst (byteAtoi (cpf ! 9));
          checkDigit2 = fst (byteAtoi (cpf ! 10))
      in checkDigit1 = result1 \<and> checkDigit2 = result2)"

definition keep_digits :: "bytes \<Rightarrow> bytes" where
  "keep_digits s = bytes_Map (\<lambda>r. if r < of_char (CHR ''0'') \<or> r > of_char (CHR ''9'') then -1 else r) s"

definition MatchCPF :: "bytes \<Rightarrow> bool" where
  "MatchCPF s =
     (let cpf = keep_digits s in
      if length cpf \<noteq> 11 then False else validateCPFCheckDigits cpf)"

definition cnpjFirstDigitTable :: "int list" where
  "cnpjFirstDigitTable = [5, 4, 3, 2, 9, 8, 7, 6, 5, 4, 3, 2]"

definition cnpjSecondDigitTable :: "int list" where
  "cnpjSecondDigitTable = [6, 5, 4, 3, 2, 9, 8, 7, 6, 5, 4, 3, 2]"

definition checksum :: "int list \<Rightarrow> int list \<Rightarrow> int" where
  "checksum ds ref =
     (let s = foldl (\<lambda>s i. s + ref ! i * ds ! i) 0 [0..<length ref];
          r = s mod 11
      in if r < 2 then 0 else 11 - r)"

text \<open>The conversion loop of \<open>MatchCNPJ\<close>: \<open>None\<close> is its early return on an error.\<close>

fun to_numeric :: "bytes \<Rightarrow> int list option" where
  "to_numeric [] = Some []"
| "to_numeric (r # rs) =
     (case byteAtoi r of
        (d, Some err) \<Rightarrow> None
      | (d, None) \<Rightarrow> map_option (Cons d) (to_numeric rs))"

definition MatchCNPJ :: "bytes \<Rightarrow> bool" where
  "MatchCNPJ s =
     (let cnpj = keep_digits s in
      if length cnpj \<noteq> 14 then False
      else case to_numeric cnpj of
        None \<Rightarrow> False
      | Some numericCNPJ \<Rightarrow>
          let d1 = checksum numericCNPJ cnpjFirstDigitTable;
              d2 = checksum numericCNPJ cnpjSecondDigitTable
          in numericCNPJ ! 12 = d1 \<and> numericCNPJ ! 13 = d2)"

definition cnpj_format_rune :: "rune \<Rightarrow> bool" where
  "cnpj_format_rune r \<longleftrightarrow> r \<in> set (map of_char (''./-]}'' @ [CHR 0x22]))"

definition cleanCNPJFormat :: "bytes \<Rightarrow> bytes" where
  "cleanCNPJFormat cnpj = concat (FieldsFunc cnpj cnpj_format_rune)"

text \<open>\<open>numericValues\<close> has 14 entries and the source writes one per byte, which is in range when
  there are at most 14 bytes; a longer slice would panic.\<close>

definition cnpjAlphaToNumeric :: "bytes \<Rightarrow> int list result" where
  "cnpjAlphaToNumeric cnpjUpper =
     (if length cnpjUpper > 14 then Inl SliceBounds
      else Inr (map (\<lambda>b. uint (b - 48)) cnpjUpper @ replicate (14 - length cnpjUpper) 0))"

definition MatchCNPJV2_with :: "(rune \<Rightarrow> rune) \<Rightarrow> bytes \<Rightarrow> bool result" where
  "MatchCNPJV2_with tbl s =
     (let cnpj = cleanCNPJFormat s in
      if length cnpj \<noteq> 14 then Inr False
      else let cnpjUpper = bytes_ToUpper tbl cnpj;
               hasLetters = list_ex (\<lambda>r. of_char (CHR ''A'') \<le> r \<and> r \<le> of_char (CHR ''Z'')) (runes cnpjUpper)
           in if \<not> hasLetters then Inr False
              else if \<not> regexp_Match cnpjAlphanumRegexp cnpjUpper then Inr False
              else bind_result (cnpjAlphaToNumeric cnpjUpper) (\<lambda>numericValues.
                let d1 = checksum numericValues cnpjFirstDigitTable;
                    d2 = checksum numericValues cnpjSecondDigitTable
                in Inr (numericValues ! 12 = d1 \<and> numericValues ! 13 = d2)))"

definition MatchCNPJV2 :: "bytes \<Rightarrow> bool" where
  "MatchCNPJV2 s = (MatchCNPJV2_with upper_tbl s = Inr True)"

section \<open>Digits\<close>

definition digits_of :: "bytes \<Rightarrow> int list" where
  "digits_of s = map (\<lambda>b. uint b - 48) (filter digit_byte s)"

lemma keep_digits_filter: "keep_digits s = filter digit_byte s"
proof -
  have "keep_digits s = bytes_Map (\<lambda>r. if 48 \<le> r \<and> r \<le> 57 then r else -1) s"
    unfolding keep_digits_def by (rule arg_cong [where f = "\<lambda>f. bytes_Map f s"]) auto
  also have "\<dots> = filter (\<lambda>b. ascii b \<and> (48 \<le> uint b \<and> uint b \<le> 57)) s"
    by (rule bytes_Map_keep) (simp add: ascii_class_def)
  also have "\<dots> = filter digit_byte s"
    by (rule filter_cong) (auto simp: word_le_def word_less_def)
  finally show ?thesis .
qed

lemma byteAtoi_digit: "digit_byte b \<Longrightarrow> byteAtoi b = (uint b - 48, None)"
  by (auto simp: byteAtoi_def word_le_def word_less_def uint_sub_if')

lemma to_numeric_digits: "list_all digit_byte s \<Longrightarrow> to_numeric s = Some (map (\<lambda>b. uint b - 48) s)"
  by (induction s) (simp_all add: byteAtoi_digit)

lemma digits_of_length: "length (digits_of s) = length (keep_digits s)"
  by (simp add: digits_of_def keep_digits_filter)

lemma keep_digits_nth:
  "i < length (keep_digits s) \<Longrightarrow> fst (byteAtoi (keep_digits s ! i)) = digits_of s ! i"
proof -
  assume i: "i < length (keep_digits s)"
  then have "digit_byte (keep_digits s ! i)"
    unfolding keep_digits_filter using nth_mem by fastforce
  then show ?thesis
    using i by (simp add: byteAtoi_digit digits_of_def keep_digits_filter)
qed

lemma digits_of_range: "d \<in> set (digits_of s) \<Longrightarrow> 0 \<le> d \<and> d \<le> 9"
  by (auto simp: digits_of_def word_le_def)

section \<open>The official checks\<close>

text \<open>The check digit of the tax authority: the weighted sum modulo 11, with remainders 0 and 1
  giving 0 and a remainder \<open>r\<close> giving \<open>11 - r\<close>.\<close>

definition mod11_digit :: "int \<Rightarrow> int" where
  "mod11_digit s = (if s mod 11 < 2 then 0 else 11 - s mod 11)"

definition wsum :: "int list \<Rightarrow> int list \<Rightarrow> int" where
  "wsum ws ds = sum_list (map2 (*) ws ds)"

definition cpf_valid :: "int list \<Rightarrow> bool" where
  "cpf_valid ds \<longleftrightarrow> length ds = 11
     \<and> ds ! 9 = mod11_digit (wsum [10, 9, 8, 7, 6, 5, 4, 3, 2] (take 9 ds))
     \<and> ds ! 10 = mod11_digit (wsum [11, 10, 9, 8, 7, 6, 5, 4, 3, 2] (take 10 ds))"

definition cnpj_valid :: "int list \<Rightarrow> bool" where
  "cnpj_valid ds \<longleftrightarrow> length ds = 14
     \<and> ds ! 12 = mod11_digit (wsum [5, 4, 3, 2, 9, 8, 7, 6, 5, 4, 3, 2] (take 12 ds))
     \<and> ds ! 13 = mod11_digit (wsum [6, 5, 4, 3, 2, 9, 8, 7, 6, 5, 4, 3, 2] (take 13 ds))"

lemma mod11_digit_range: "0 \<le> mod11_digit s \<and> mod11_digit s \<le> 9"
  by (auto simp: mod11_digit_def not_less)

lemma times10_mod11:
  "(if (s * 10) mod 11 = 10 then 0 else (s * 10) mod 11) = mod11_digit (s :: int)"
proof -
  have "(s * 10) mod 11 = (s mod 11 * 10) mod 11" by (simp add: mod_mult_left_eq)
  moreover have "s mod 11 \<in> {0, 1, 2, 3, 4, 5, 6, 7, 8, 9, 10}"
    unfolding insert_iff empty_iff by presburger
  ultimately show ?thesis
    unfolding mod11_digit_def by (elim insertE) simp_all
qed

lemma list_length_11: "length xs = 11 \<Longrightarrow> \<exists>a b c d e f g h i j k. xs = [a, b, c, d, e, f, g, h, i, j, k]"
  by (auto simp: numeral_eq_Suc length_Suc_conv)

lemma list_length_14: "length xs = 14 \<Longrightarrow>
  \<exists>a b c d e f g h i j k l m n. xs = [a, b, c, d, e, f, g, h, i, j, k, l, m, n]"
  by (auto simp: numeral_eq_Suc length_Suc_conv)

lemma upt_0_9: "[0..<9] = [0, 1, 2, 3, 4, 5, 6, 7, 8 :: nat]"
  by (simp add: upt_rec)

lemma foldl_sum_list: "foldl (\<lambda>s i. s + f i) (a :: int) xs = a + sum_list (map f xs)"
  by (induction xs arbitrary: a) simp_all

lemma checksum_eq_mod11:
  assumes "length ref \<le> length ds"
  shows "checksum ds ref = mod11_digit (wsum ref (take (length ref) ds))"
proof -
  have "map (\<lambda>i. ref ! i * ds ! i) [0..<length ref] = map2 (*) ref (take (length ref) ds)"
    by (rule nth_equalityI) (use assms in auto)
  then show ?thesis
    by (simp add: checksum_def mod11_digit_def wsum_def foldl_sum_list Let_def)
qed

lemma MatchCPF_digits: "MatchCPF s \<longleftrightarrow> cpf_valid (digits_of s)"
proof (cases "length (digits_of s) = 11")
  case True
  then obtain a b c d e f g h i j k where ds: "digits_of s = [a, b, c, d, e, f, g, h, i, j, k]"
    using list_length_11 [OF True] by (elim exE) (rule that)
  have n: "n < 11 \<Longrightarrow> fst (byteAtoi (keep_digits s ! n)) = digits_of s ! n" for n
    using True by (simp add: keep_digits_nth digits_of_length)
  have sum: "cpf_sum (keep_digits s) w = a * w + b * (w - 1) + c * (w - 2) + d * (w - 3) + e * (w - 4)
      + f * (w - 5) + g * (w - 6) + h * (w - 7) + i * (w - 8)" for w
    using n [of 0] n [of 1] n [of 2] n [of 3] n [of 4] n [of 5] n [of 6] n [of 7] n [of 8]
    by (simp add: cpf_sum_def upt_0_9 ds)
  define s1 where "s1 = cpf_sum (keep_digits s) 10"
  define s2 where "s2 = cpf_sum (keep_digits s) 11 + mod11_digit s1 * 2"
  have "MatchCPF s \<longleftrightarrow> j = mod11_digit s1 \<and> k = mod11_digit s2"
    using True [unfolded digits_of_length] n [of 9] n [of 10]
    by (simp add: MatchCPF_def validateCPFCheckDigits_def Let_def times10_mod11 ds
        flip: s1_def s2_def)
  moreover have "s1 = wsum [10, 9, 8, 7, 6, 5, 4, 3, 2] (take 9 (digits_of s))"
    by (simp add: s1_def sum wsum_def ds algebra_simps)
  moreover have "j = mod11_digit s1 \<Longrightarrow> s2 = wsum [11, 10, 9, 8, 7, 6, 5, 4, 3, 2] (take 10 (digits_of s))"
    by (simp add: s2_def sum wsum_def ds algebra_simps)
  ultimately show ?thesis by (auto simp: cpf_valid_def ds)
qed (simp add: MatchCPF_def cpf_valid_def Let_def digits_of_length)

lemma MatchCNPJ_digits: "MatchCNPJ s \<longleftrightarrow> cnpj_valid (digits_of s)"
proof -
  have "to_numeric (keep_digits s) = Some (digits_of s)"
    by (simp add: keep_digits_filter digits_of_def to_numeric_digits list_all_iff)
  moreover have "length cnpjFirstDigitTable = 12" "length cnpjSecondDigitTable = 13"
    by (simp_all add: cnpjFirstDigitTable_def cnpjSecondDigitTable_def)
  ultimately show ?thesis
    by (simp add: MatchCNPJ_def cnpj_valid_def Let_def digits_of_length checksum_eq_mod11
        flip: cnpjSecondDigitTable_def) (simp flip: cnpjFirstDigitTable_def)
qed

section \<open>Alphanumeric CNPJ\<close>

text \<open>What the source computes through \<open>FieldsFunc\<close>, \<open>ToUpper\<close> and a regular expression: the
  formatting bytes are removed, letters are read in upper case, fourteen characters
  among \<open>A-Z\<close> and \<open>0-9\<close> with at least one letter remain, and their ASCII codes minus
  48 pass the CNPJ check.\<close>

definition cnpj_fmt :: "byte \<Rightarrow> bool" where
  "cnpj_fmt b \<longleftrightarrow> b \<in> set (str (''./-]}'' @ [CHR 0x22]))"

definition upper_byte :: "byte \<Rightarrow> byte" where
  "upper_byte b = (if 97 \<le> b \<and> b \<le> 122 then b - 32 else b)"

definition letter_byte :: "byte \<Rightarrow> bool" where
  "letter_byte b \<longleftrightarrow> 65 \<le> b \<and> b \<le> 90"

definition cnpj_alnum_valid :: "bytes \<Rightarrow> bool" where
  "cnpj_alnum_valid c \<longleftrightarrow> list_all (\<lambda>b. letter_byte b \<or> digit_byte b) c \<and> list_ex letter_byte c
     \<and> cnpj_valid (map (\<lambda>b. uint b - 48) c)"

definition alnum_rune :: "rune \<Rightarrow> bool" where
  "alnum_rune r \<longleftrightarrow> (65 \<le> r \<and> r \<le> 90) \<or> (48 \<le> r \<and> r \<le> 57)"

lemma alnum_rune_class: "ascii_class alnum_rune"
  by (auto simp: ascii_class_def alnum_rune_def)

lemma alnum_rune_byte: "alnum_rune (uint b) \<longleftrightarrow> letter_byte b \<or> digit_byte b"
  by (auto simp: alnum_rune_def letter_byte_def word_le_def)

lemma cleanCNPJFormat_filter: "cleanCNPJFormat s = filter (\<lambda>b. \<not> cnpj_fmt b) s"
proof -
  have "ascii_class cnpj_format_rune" by (auto simp: ascii_class_def cnpj_format_rune_def)
  moreover have "cnpj_format_rune (uint b) \<longleftrightarrow> cnpj_fmt b" for b
    by (simp add: cnpj_format_rune_def cnpj_fmt_def word_uint_eq_iff)
  ultimately show ?thesis by (simp add: cleanCNPJFormat_def concat_FieldsFunc)
qed

lemma sem_alnum: "sem w (cls (ranges ''AZ09'')) = step_rel w alnum_rune"
proof -
  have "in_ranges (ranges ''AZ09'') = alnum_rune" by (auto simp: in_ranges_def alnum_rune_def)
  then show ?thesis by (simp add: sem_cls)
qed

lemma cnpj_regexp_count: "min_count w alnum_rune cnpjAlphanumRegexp 14"
proof -
  have e: "min_count w alnum_rune (exactly n (cls (ranges ''AZ09''))) n" for n
    by (rule min_count_exactly [OF sem_alnum])
  have "min_count w alnum_rune (cat [exactly 2 (cls (ranges ''AZ09'')), opt (lit ''.''),
      exactly 3 (cls (ranges ''AZ09'')), opt (lit ''.''), exactly 3 (cls (ranges ''AZ09'')),
      opt (lit ''/''), exactly 4 (cls (ranges ''AZ09'')), opt (lit ''-''),
      exactly 2 (cls (ranges ''AZ09''))]) (2 + (0 + (3 + (0 + (3 + (0 + (4 + (0 + (2 + 0)))))))))"
    unfolding cat.simps by (intro min_count_Seq e min_count_zero)
  then have "min_count w alnum_rune cnpjAlphanum_form 14"
    unfolding cnpjAlphanum_form_def alts.simps by (intro min_count_Alt e) simp
  then show ?thesis by (simp add: min_count_def regexp_forms)
qed

text \<open>On fourteen bytes the expression asks that all of them are alphanumeric.\<close>

lemma cnpj_regexp_iff:
  assumes "length c = 14" "list_all ascii c"
  shows "regexp_Match cnpjAlphanumRegexp c \<longleftrightarrow> list_all (\<lambda>b. letter_byte b \<or> digit_byte b) c"
proof
  assume "regexp_Match cnpjAlphanumRegexp c"
  then have "14 \<le> length (filter alnum_rune (runes c))" by (rule min_count_Match [OF cnpj_regexp_count])
  then have "14 \<le> length (filter (\<lambda>b. letter_byte b \<or> digit_byte b) c)"
    unfolding length_filter_runes [OF alnum_rune_class] alnum_rune_byte .
  then show "list_all (\<lambda>b. letter_byte b \<or> digit_byte b) c"
    using length_filter_le [of "\<lambda>b. letter_byte b \<or> digit_byte b" c] assms(1)
    by (simp flip: length_filter_eq_iff)
next
  assume a: "list_all (\<lambda>b. letter_byte b \<or> digit_byte b) c"
  have "(0, 14) \<in> sem (runes c) (exactly 14 (cls (ranges ''AZ09'')))"
    unfolding sem_exactly_step [OF sem_alnum] runes_all_ascii [OF assms(2)]
    using assms(1) a by (simp add: alnum_rune_byte list_all_length)
  then have "(0, 14) \<in> sem (runes c) cnpjAlphanumRegexp" by (simp add: regexp_forms cnpjAlphanum_form_def)
  then show "regexp_Match cnpjAlphanumRegexp c" unfolding regexp_Match_iff by auto
qed

lemma ToUpper_ascii: "list_all ascii s \<Longrightarrow> bytes_ToUpper tbl s = map upper_byte s"
proof -
  assume s: "list_all ascii s"
  have "unicode_ToUpper tbl (uint b) = uint (upper_byte b)" "ascii (upper_byte b)" if "ascii b" for b
    using that
    by (auto simp: unicode_ToUpper_def upper_byte_def word_less_def word_le_def uint_sub_if')
  then show ?thesis
    unfolding bytes_ToUpper_def bytes_Map_def runes_all_ascii [OF s] using s
    by (induction s) auto
qed

lemma EncodeRune_wide: "128 \<le> r \<Longrightarrow> list_all (\<lambda>b. \<not> ascii b) (EncodeRune r)"
  by (auto simp: EncodeRune_def Let_def not_less intro: order_trans [OF _ le_word_or2])

text \<open>Upper-casing a text that is not ASCII leaves fewer alphanumeric bytes than the text has
  bytes: an invalid byte becomes \<open>U+FFFD\<close>, and the two runes that map to an ASCII letter
  take two bytes.\<close>

lemma ToUpper_chunk_count:
  assumes "admissible_upper tbl" "rc \<in> set (chunks s)"
  shows "length (filter (\<lambda>b. alnum_rune (uint b)) (if 0 \<le> unicode_ToUpper tbl (fst rc) then EncodeRune (unicode_ToUpper tbl (fst rc)) else []))
     + (if wide_chunk rc then 1 else 0) \<le> length (snd rc)" (is "?n + _ \<le> _")
proof (cases "wide_chunk rc")
  case False
  then obtain b where b: "ascii b" "rc = (uint b, [b])"
    using chunks_cases [OF assms(2)] by (auto simp: ascii_chunk_def)
  have "unicode_ToUpper tbl (uint b) < 128"
    using b(1) by (auto simp: unicode_ToUpper_def uint_ascii)
  then have "length (EncodeRune (unicode_ToUpper tbl (uint b))) = 1" if "0 \<le> unicode_ToUpper tbl (uint b)"
    using that by (simp add: EncodeRune_def)
  with b False show ?thesis
    by (auto intro: order_trans [OF length_filter_le])
next
  case True
  then have r: "128 \<le> fst rc" "1 \<le> length (snd rc)" by (auto simp: wide_chunk_def Suc_le_eq)
  have zero: "?n = 0" if "128 \<le> tbl (fst rc)"
  proof -
    have "filter (\<lambda>b. alnum_rune (uint b)) (EncodeRune (tbl (fst rc))) = []"
      using EncodeRune_wide [OF that]
      by (auto simp: list_all_iff filter_empty_conv alnum_rune_def uint_ascii)
    then show ?thesis using r(1) that by (simp add: unicode_ToUpper_def)
  qed
  have "?n \<le> 1" if "fst rc = 0x131 \<or> fst rc = 0x17F"
  proof -
    have "unicode_ToUpper tbl (fst rc) = 73 \<or> unicode_ToUpper tbl (fst rc) = 83"
      using assms(1) that by (auto simp: unicode_ToUpper_def admissible_upper_def)
    then show ?thesis by (elim disjE) (simp_all only:, simp_all add: EncodeRune_def)
  qed
  moreover have "fst rc = RuneError" if "length (snd rc) = 1"
    using wide_chunk_single [of "fst rc" "snd rc"] assms(2) True that by simp
  moreover have "RuneError \<noteq> 0x131" "RuneError \<noteq> 0x17F" by (simp_all add: RuneError_def)
  moreover have "128 \<le> tbl (fst rc)" if "\<not> (fst rc = 0x131 \<or> fst rc = 0x17F)"
    using assms(1) r(1) that by (simp add: admissible_upper_def)
  ultimately have "?n = 0 \<or> (?n \<le> 1 \<and> length (snd rc) \<noteq> 1)"
    using zero by metis
  then show ?thesis using r(2) True by (simp only: if_True) linarith
qed

lemma ToUpper_count:
  assumes "admissible_upper tbl" "\<not> list_all ascii c"
  shows "length (filter (\<lambda>b. alnum_rune (uint b)) (bytes_ToUpper tbl c)) < length c"
proof -
  let ?f = "\<lambda>rc. if 0 \<le> unicode_ToUpper tbl (fst rc) then EncodeRune (unicode_ToUpper tbl (fst rc)) else []"
  have "length (filter (\<lambda>b. alnum_rune (uint b)) (concat (map ?f cs)))
      + length (filter wide_chunk cs) \<le> length (concat (map snd cs))" if "set cs \<subseteq> set (chunks c)" for cs
    using that
  proof (induction cs)
    case (Cons rc cs)
    then show ?case using ToUpper_chunk_count [OF assms(1), of rc c]
      by (simp split: if_splits)
  qed simp
  from this [OF subset_refl]
  have "length (filter (\<lambda>b. alnum_rune (uint b)) (bytes_ToUpper tbl c)) + length (filter wide_chunk (chunks c)) \<le> length c"
    by (simp add: bytes_ToUpper_def bytes_Map_def chunks_concat comp_def)
  moreover have "filter wide_chunk (chunks c) \<noteq> []"
  proof
    assume "filter wide_chunk (chunks c) = []"
    then have "\<forall>rc\<in>set (chunks c). ascii_chunk rc" using chunks_cases by (auto simp: filter_empty_conv)
    then have "list_all ascii (concat (map snd (chunks c)))"
      by (auto simp: list_all_iff ascii_chunk_def)
    with assms(2) show False by (simp add: chunks_concat)
  qed
  ultimately show ?thesis by (cases "filter wide_chunk (chunks c)") auto
qed

lemma upper_byte_alnum_sub: "letter_byte b \<or> digit_byte b \<Longrightarrow> uint (b - 48) = uint b - 48"
  by (auto simp: letter_byte_def word_le_def uint_sub_if')

lemma hasLetters_iff: "list_all ascii c \<Longrightarrow>
   list_ex (\<lambda>r. of_char (CHR ''A'') \<le> r \<and> r \<le> of_char (CHR ''Z'')) (runes c) \<longleftrightarrow> list_ex letter_byte c"
  by (auto simp: runes_all_ascii list_ex_iff letter_byte_def word_le_def)

lemma upper_byte_ascii: "ascii b \<Longrightarrow> ascii (upper_byte b)"
  by (auto simp: upper_byte_def word_less_def word_le_def uint_sub_if')

lemma MatchCNPJV2_spec:
  assumes "admissible_upper tbl"
  shows "MatchCNPJV2_with tbl s = Inr (cnpj_alnum_valid (map upper_byte (filter (\<lambda>b. \<not> cnpj_fmt b) s)))"
proof -
  let ?c = "filter (\<lambda>b. \<not> cnpj_fmt b) s"
  let ?u = "bytes_ToUpper tbl ?c"
  consider "length ?c \<noteq> 14" | "length ?c = 14" "\<not> list_all ascii ?c" | "length ?c = 14" "list_all ascii ?c"
    by blast
  then show ?thesis
  proof cases
    case 1
    then show ?thesis
      by (simp add: MatchCNPJV2_with_def cleanCNPJFormat_filter cnpj_alnum_valid_def cnpj_valid_def Let_def)
  next
    case 2
    have "\<not> regexp_Match cnpjAlphanumRegexp ?u"
      using min_count_Match [OF cnpj_regexp_count, of ?u] ToUpper_count [OF assms 2(2)] 2(1)
      unfolding length_filter_runes [OF alnum_rune_class] by auto
    moreover have "\<not> list_all (\<lambda>b. letter_byte b \<or> digit_byte b) (map upper_byte ?c)"
    proof -
      obtain b where b: "b \<in> set ?c" "\<not> ascii b" using 2(2) by (auto simp: list_all_iff)
      then have "upper_byte b = b" "\<not> (letter_byte b \<or> digit_byte b)"
        by (auto simp: upper_byte_def letter_byte_def byte_simps)
      with b(1) show ?thesis unfolding list_all_iff by (metis imageI set_map)
    qed
    ultimately show ?thesis
      by (simp add: MatchCNPJV2_with_def cleanCNPJFormat_filter cnpj_alnum_valid_def Let_def)
  next
    case 3
    let ?m = "map upper_byte ?c"
    have u: "?u = ?m" using 3(2) by (rule ToUpper_ascii)
    have m: "length ?m = 14" "list_all ascii ?m" using 3 upper_byte_ascii by (auto simp: list_all_iff)
    have v: "map (\<lambda>b. uint (b - 48)) ?m = map (\<lambda>b. uint b - 48) ?m"
      if "list_all (\<lambda>b. letter_byte b \<or> digit_byte b) ?m"
      using that upper_byte_alnum_sub by (simp add: list_all_iff)
    have l: "length cnpjFirstDigitTable = 12" "length cnpjSecondDigitTable = 13"
      by (simp_all add: cnpjFirstDigitTable_def cnpjSecondDigitTable_def)
    have chk: "(ds ! 12 = checksum ds cnpjFirstDigitTable \<and> ds ! 13 = checksum ds cnpjSecondDigitTable) \<longleftrightarrow> cnpj_valid ds"
      if "length ds = 14" for ds
      using that l by (simp add: checksum_eq_mod11 cnpj_valid_def flip: cnpjSecondDigitTable_def)
        (simp flip: cnpjFirstDigitTable_def)
    have num: "cnpjAlphaToNumeric ?m = Inr (map (\<lambda>b. uint b - 48) ?m)"
      if "list_all (\<lambda>b. letter_byte b \<or> digit_byte b) ?m"
      using v [OF that] m(1) by (simp add: cnpjAlphaToNumeric_def)
    define ds where "ds = map (\<lambda>b. uint b - 48) ?m"
    have ds: "length ds = 14" using m(1) by (simp add: ds_def)
    have "MatchCNPJV2_with tbl s =
       (if \<not> list_ex letter_byte ?m then Inr False
        else if \<not> list_all (\<lambda>b. letter_byte b \<or> digit_byte b) ?m then Inr False
        else Inr (cnpj_valid ds))"
      unfolding MatchCNPJV2_with_def cleanCNPJFormat_filter Let_def u
        hasLetters_iff [OF m(2)] cnpj_regexp_iff [OF m] chk [OF ds, symmetric]
      using 3(1) num [folded ds_def] by (simp cong: if_cong)
    then show ?thesis unfolding cnpj_alnum_valid_def ds_def by auto
  qed
qed

lemma MatchCNPJV2_valid:
  "MatchCNPJV2 s \<longleftrightarrow> cnpj_alnum_valid (map upper_byte (filter (\<lambda>b. \<not> cnpj_fmt b) s))"
  by (simp add: MatchCNPJV2_def MatchCNPJV2_spec admissible_upper_tbl)

lemma digit_not_fmt: "digit_byte b \<Longrightarrow> \<not> cnpj_fmt b \<and> upper_byte b = b"
  by (auto simp: cnpj_fmt_def upper_byte_def byte_simps)

lemma digits_of_cleaned:
  "length (digits_of s) \<le> length (filter digit_byte (map upper_byte (filter (\<lambda>b. \<not> cnpj_fmt b) s)))"
  by (induction s) (use digit_not_fmt in \<open>auto simp: digits_of_def\<close>)

lemma cnpj_disjoint: "\<not> (MatchCNPJ s \<and> MatchCNPJV2 s)"
proof
  let ?m = "map upper_byte (filter (\<lambda>b. \<not> cnpj_fmt b) s)"
  assume "MatchCNPJ s \<and> MatchCNPJV2 s"
  then have v: "length (digits_of s) = 14" "length ?m = 14" "list_ex letter_byte ?m"
    by (auto simp: MatchCNPJ_digits MatchCNPJV2_valid cnpj_alnum_valid_def cnpj_valid_def)
  then have "length (filter digit_byte ?m) = length ?m"
    using digits_of_cleaned [of s] length_filter_le [of digit_byte ?m] by linarith
  then have "list_all digit_byte ?m" by (simp only: length_filter_eq_iff)
  then show False using v(3) by (auto simp: list_all_iff list_ex_iff letter_byte_def byte_simps)
qed

lemma digits_of_digits: "list_all digit_byte s \<Longrightarrow> digits_of s = map (\<lambda>b. uint b - 48) s"
  by (simp add: digits_of_def list_all_filter_id)

lemma digit_byte_of: "0 \<le> d \<Longrightarrow> d \<le> 9 \<Longrightarrow> digit_byte (word_of_int (d + 48)) \<and> uint (word_of_int (d + 48) :: byte) = d + 48"
proof -
  assume d: "0 \<le> d" "d \<le> 9"
  then have "uint (word_of_int (d + 48) :: byte) = d + 48"
    by (simp only: uint_word_of_int) simp
  with d show ?thesis by (simp add: word_le_def)
qed

lemma MatchCPF_appended:
  assumes "length base = 9" "list_all digit_byte base" "digit_byte x" "digit_byte y"
  defines "ds \<equiv> map (\<lambda>b. uint b - 48) base"
  shows "MatchCPF (base @ [x, y]) \<longleftrightarrow>
     uint x - 48 = mod11_digit (wsum [10, 9, 8, 7, 6, 5, 4, 3, 2] ds) \<and>
     uint y - 48 = mod11_digit (wsum [11, 10, 9, 8, 7, 6, 5, 4, 3, 2] (ds @ [uint x - 48]))"
  using assms(1-4)
  by (simp add: MatchCPF_digits digits_of_digits cpf_valid_def ds_def nth_append)

section \<open>Properties\<close>

text \<open>C20: \<open>MatchCPF\<close> accepts exactly the texts whose digits, whatever surrounds them, are eleven
  and carry the two official modulo-11 check digits.\<close>

theorem MatchCPF_official: "MatchCPF s \<longleftrightarrow> cpf_valid (digits_of s)"
  by (rule MatchCPF_digits)

text \<open>Every block of nine digits has exactly one pair of check digits with which
  \<open>MatchCPF\<close> accepts it.\<close>

lemma cpf_check_digits_unique:
  assumes "length base = 9" "list_all digit_byte base"
  shows "\<exists>!xy. digit_byte (fst xy) \<and> digit_byte (snd xy) \<and> MatchCPF (base @ [fst xy, snd xy])"
proof -
  let ?ds = "map (\<lambda>b. uint b - 48) base"
  define d1 where "d1 = mod11_digit (wsum [10, 9, 8, 7, 6, 5, 4, 3, 2] ?ds)"
  define d2 where "d2 = mod11_digit (wsum [11, 10, 9, 8, 7, 6, 5, 4, 3, 2] (?ds @ [d1]))"
  have r: "0 \<le> d1" "d1 \<le> 9" "0 \<le> d2" "d2 \<le> 9"
    using mod11_digit_range by (simp_all add: d1_def d2_def)
  have iff: "MatchCPF (base @ [x, y]) \<longleftrightarrow> uint x = d1 + 48 \<and> uint y = d2 + 48"
    if "digit_byte x" "digit_byte y" for x y
    unfolding MatchCPF_appended [OF assms that] d2_def d1_def by auto
  show ?thesis
  proof (rule ex1I [of _ "(word_of_int (d1 + 48), word_of_int (d2 + 48))"])
    show "digit_byte (fst (word_of_int (d1 + 48), word_of_int (d2 + 48)))
      \<and> digit_byte (snd (word_of_int (d1 + 48), word_of_int (d2 + 48)))
      \<and> MatchCPF (base @ [fst (word_of_int (d1 + 48), word_of_int (d2 + 48)), snd (word_of_int (d1 + 48), word_of_int (d2 + 48))])"
      unfolding fst_conv snd_conv
      using digit_byte_of [OF r(1,2)] digit_byte_of [OF r(3,4)] iff by blast
  next
    fix xy
    assume "digit_byte (fst xy) \<and> digit_byte (snd xy) \<and> MatchCPF (base @ [fst xy, snd xy])"
    then show "xy = (word_of_int (d1 + 48), word_of_int (d2 + 48))"
      using iff [of "fst xy" "snd xy"] by (metis prod.collapse word_of_int_uint)
  qed
qed

text \<open>C21: The alphanumeric CNPJ check never panics, does not depend on the case table of the
  runes above ASCII, and accepts exactly the texts that, without formatting and in upper
  case, are fourteen characters \<open>A-Z0-9\<close> with a letter and valid check digits over the
  ASCII codes minus 48.\<close>

theorem MatchCNPJV2_official:
  "admissible_upper tbl \<Longrightarrow>
     MatchCNPJV2_with tbl s = Inr (cnpj_alnum_valid (map upper_byte (filter (\<lambda>b. \<not> cnpj_fmt b) s)))"
  by (rule MatchCNPJV2_spec)

theorem MatchCNPJV2_official_witness:
  "admissible_upper upper_tbl \<and> MatchCNPJV2_with upper_tbl (str ''12.abc.345/01DE-35'') = Inr True"
proof -
  have "cnpj_alnum_valid (map upper_byte (filter (\<lambda>b. \<not> cnpj_fmt b) (str ''12.abc.345/01DE-35'')))"
    by code_simp
  then show ?thesis
    using MatchCNPJV2_official [OF admissible_upper_tbl, of "str ''12.abc.345/01DE-35''"] admissible_upper_tbl
    by simp
qed

text \<open>The numeric check is the official CNPJ check on the digits of the text, and no text
  passes both the numeric and the alphanumeric check.\<close>

lemma cnpj_versions_disjoint:
  "(MatchCNPJ s \<longleftrightarrow> cnpj_valid (digits_of s)) \<and> \<not> (MatchCNPJ s \<and> MatchCNPJV2 s)"
  using MatchCNPJ_digits cnpj_disjoint by simp

end
