(* ===== verification/Matchers.thy ===== *)
theory Matchers
  imports Pattern RegexFuncs Checksums
begin

text \<open>
  \<open>src/pattern/entity.go\<close> and \<open>src/pattern/matcher.go\<close>: the entity names and the pre-built
  matchers.  Every matcher is shown to keep the pattern contract with the language written
  out next to it; the properties then read a matcher as a predicate on bytes.
\<close>

section \<open>Entities\<close>

type_synonym Entity = string

definition EntityEmail :: Entity where "EntityEmail = ''EMAIL''"
definition EntityCPF :: Entity where "EntityCPF = ''CPF_NUMBER''"
definition EntityCNPJ :: Entity where "EntityCNPJ = ''CNPJ_NUMBER''"
definition EntityIPAddress :: Entity where "EntityIPAddress = ''IP_ADDRESS''"
definition EntityCreditCard :: Entity where "EntityCreditCard = ''CREDIT_CARD''"
definition EntityPhone :: Entity where "EntityPhone = ''PHONE''"
definition EntityLink :: Entity where "EntityLink = ''LINK''"
definition EntitySSN :: Entity where "EntitySSN = ''SSN''"
definition EntityAddress :: Entity where "EntityAddress = ''ADDRESS''"
definition EntityBankInfo :: Entity where "EntityBankInfo = ''BANK_INFO''"
definition EntityUUID :: Entity where "EntityUUID = ''UUID''"
definition EntityVIN :: Entity where "EntityVIN = ''VIN''"

lemmas entity_defs = EntityEmail_def EntityCPF_def EntityCNPJ_def EntityIPAddress_def
  EntityCreditCard_def EntityPhone_def EntityLink_def EntitySSN_def EntityAddress_def
  EntityBankInfo_def EntityUUID_def EntityVIN_def

section \<open>Matchers\<close>

record PatternMatcher =
  entity :: Entity
  pattern :: BasePattern

definition NewPatternMatcher :: "Entity \<Rightarrow> BasePattern \<Rightarrow> PatternMatcher" where
  "NewPatternMatcher e p = \<lparr>entity = e, pattern = p\<rparr>"

definition matcher_Match :: "PatternMatcher \<Rightarrow> ctx \<Rightarrow> bytes \<Rightarrow> bool \<times> event list" where
  "matcher_Match m c input = Match (pattern m) c input"

text \<open>The symbol of a match function is its name qualified by the path of its package.\<close>

definition pf :: "string \<Rightarrow> (bytes \<Rightarrow> bool) \<Rightarrow> BasePattern" where
  "pf n g = PatternFunc (''github.com/Prosus-Cyber-Xchange/leakspok/pattern.'' @ n) g"

lemma pf_name: "CHR ''/'' \<notin> set n \<Longrightarrow> pname (pf n g) = ''pattern.'' @ n"
  using getFunctionName_qualified [of "''pattern.'' @ n" "''github.com/Prosus-Cyber-Xchange/leakspok''"]
  by (simp add: pf_def PatternFunc_def NewBasePattern_def)

definition PhoneMatcher :: PatternMatcher where
  "PhoneMatcher = \<lparr>entity = EntityPhone,
     pattern = And_pattern
       (Not_pattern (Any_pattern [pf ''MatchEmailV2'' MatchEmailV2, pf ''MatchFilename'' MatchFilename,
          pf ''MatchRepeatingNumber'' MatchRepeatingNumber]))
       (Any_pattern [pf ''MatchPhone'' MatchPhone])\<rparr>"

definition LinkMatcher :: PatternMatcher where
  "LinkMatcher = \<lparr>entity = EntityLink,
     pattern = And_pattern (Any_pattern [pf ''MatchURL'' MatchURL])
       (Not_pattern (pf ''MatchEmailV2'' MatchEmailV2))\<rparr>"

definition SSNMatcher :: PatternMatcher where
  "SSNMatcher = \<lparr>entity = EntitySSN,
     pattern = And_pattern (pf ''MatchSSN'' MatchSSN)
       (All_pattern [Not_pattern (pf ''MatchPhoneV2'' MatchPhoneV2),
          Not_pattern (pf ''MatchFilename'' MatchFilename),
          Not_pattern (pf ''MatchRepeatingNumber'' MatchRepeatingNumber)])\<rparr>"

definition EmailMatcher :: PatternMatcher where
  "EmailMatcher = \<lparr>entity = EntityEmail, pattern = pf ''MatchEmailV2'' MatchEmailV2\<rparr>"

definition IPMatcher :: PatternMatcher where
  "IPMatcher = \<lparr>entity = EntityIPAddress, pattern = pf ''MatchIP'' MatchIP\<rparr>"

definition IPv4Matcher :: PatternMatcher where
  "IPv4Matcher = \<lparr>entity = EntityIPAddress, pattern = pf ''MatchIPV4'' MatchIPV4\<rparr>"

definition IPv6Matcher :: PatternMatcher where
  "IPv6Matcher = \<lparr>entity = EntityIPAddress, pattern = pf ''MatchIPV6'' MatchIPV6\<rparr>"

definition CreditCardMatcher :: PatternMatcher where
  "CreditCardMatcher = \<lparr>entity = EntityCreditCard,
     pattern = And_pattern
       (Any_pattern [pf ''MatchMasterCardCreditCard'' MatchMasterCardCreditCard,
          pf ''MatchVisaCreditCard'' MatchVisaCreditCard])
       (All_pattern [Not_pattern (pf ''MatchUUID'' MatchUUID),
          Not_pattern (pf ''MatchTestCreditCard'' MatchTestCreditCard)])\<rparr>"

definition AddressMatcher :: PatternMatcher where
  "AddressMatcher = \<lparr>entity = EntityAddress,
     pattern = And_pattern
       (Any_pattern [pf ''MatchStreetAddress'' MatchStreetAddress, pf ''MatchPOBox'' MatchPOBox])
       (pf ''MatchZipCode'' MatchZipCode)\<rparr>"

definition BankInfoMatcher :: PatternMatcher where
  "BankInfoMatcher = \<lparr>entity = EntityBankInfo,
     pattern = And_pattern (Any_pattern [pf ''MatchIBAN'' MatchIBAN])
       (Not_pattern (pf ''MatchRepeatingNumber'' MatchRepeatingNumber))\<rparr>"

definition VINMatcher :: PatternMatcher where
  "VINMatcher = \<lparr>entity = EntityVIN, pattern = pf ''MatchVIN'' MatchVIN\<rparr>"

definition UUIDMatcher :: PatternMatcher where
  "UUIDMatcher = \<lparr>entity = EntityUUID,
     pattern = And_pattern
       (Any_pattern [pf ''Matchguid'' Matchguid, pf ''MatchUUID'' MatchUUID,
          pf ''MatchUUIDV3'' MatchUUIDV3, pf ''MatchUUIDV4'' MatchUUIDV4, pf ''MatchUUIDV5'' MatchUUIDV5])
       (Not_pattern (pf ''MatchFilename'' MatchFilename))\<rparr>"

definition HaltLangDetect :: BasePattern where
  "HaltLangDetect = Any_pattern [pattern UUIDMatcher, pattern LinkMatcher, pattern EmailMatcher,
     pattern CreditCardMatcher]"

definition CPFMatcher :: PatternMatcher where
  "CPFMatcher = \<lparr>entity = EntityCPF, pattern = pf ''MatchCPF'' MatchCPF\<rparr>"

definition CNPJMatcher :: PatternMatcher where
  "CNPJMatcher = \<lparr>entity = EntityCNPJ,
     pattern = Any_pattern [pf ''MatchCNPJ'' MatchCNPJ, pf ''MatchCNPJV2'' MatchCNPJV2]\<rparr>"

definition BrazilianPIIMatcher :: PatternMatcher where
  "BrazilianPIIMatcher = \<lparr>entity = ''BRAZILIAN_PII'',
     pattern = Any_pattern [pf ''MatchCPF'' MatchCPF, pf ''MatchCNPJ'' MatchCNPJ,
       pf ''MatchCNPJV2'' MatchCNPJV2]\<rparr>"

lemmas matcher_defs = PhoneMatcher_def LinkMatcher_def SSNMatcher_def EmailMatcher_def IPMatcher_def
  IPv4Matcher_def IPv6Matcher_def CreditCardMatcher_def AddressMatcher_def BankInfoMatcher_def
  VINMatcher_def UUIDMatcher_def CPFMatcher_def CNPJMatcher_def BrazilianPIIMatcher_def

section \<open>Their contracts\<close>

lemma pf_contract [contracts]: "pattern_contract (pf n g) g"
  by (simp add: pf_def PatternFunc_contract)

lemma contract_cong: "pattern_contract p L \<Longrightarrow> (\<And>s. L s \<longleftrightarrow> M s) \<Longrightarrow> pattern_contract p M"
  by (simp add: pattern_contract_def)

lemmas contract_build = contracts list.rel_intros

text \<open>The UUID check can never hold of a card number: card numbers have sixteen digits and a
  UUID has 32 hexadecimal digits.\<close>

lemma length_le_card_digits:
  assumes "MatchUUID s"
  shows "length (card_digits s) = 32"
proof -
  have len: "length s = 36" using assms by (rule MatchUUID_length)
  have set: "{i. i < 36 \<and> (s ! i \<noteq> 32 \<and> s ! i \<noteq> 45)} = {0..<36} - {8, 13, 18, 23}"
  proof -
    have "(s ! i \<noteq> 32 \<and> s ! i \<noteq> 45) \<longleftrightarrow> i \<notin> {8, 13, 18, 23}" if "i < 36" for i
      using MatchUUID_nth [OF assms that] isHexDigit_not_dash [of "s ! i"] by (auto split: if_splits)
    then have "i \<in> {i. i < 36 \<and> (s ! i \<noteq> 32 \<and> s ! i \<noteq> 45)} \<longleftrightarrow> i \<in> {0..<36} - {8, 13, 18, 23}" for i
      unfolding mem_Collect_eq Diff_iff atLeastLessThan_iff by blast
    then show ?thesis by blast
  qed
  show ?thesis unfolding card_digits_def length_filter_conv_card len set by simp
qed

lemma card_not_uuid: "MatchVisaCreditCard s \<or> MatchMasterCardCreditCard s \<Longrightarrow> \<not> MatchUUID s"
  using length_le_card_digits [of s] by (auto simp: MatchVisa_iff MatchMasterCard_iff Let_def)

interpretation phone_c: pattern_contract "pattern PhoneMatcher"
  "\<lambda>s. \<not> MatchEmailV2 s \<and> \<not> MatchFilename s \<and> \<not> MatchRepeatingNumber s \<and> MatchPhone s"
  unfolding PhoneMatcher_def PatternMatcher.simps
  by (rule contract_cong, (rule contract_build)+) auto

interpretation link_c: pattern_contract "pattern LinkMatcher" "\<lambda>s. MatchURL s \<and> \<not> MatchEmailV2 s"
  unfolding LinkMatcher_def PatternMatcher.simps
  by (rule contract_cong, (rule contract_build)+) auto

interpretation ssn_c: pattern_contract "pattern SSNMatcher"
  "\<lambda>s. MatchSSN s \<and> \<not> MatchPhoneV2 s \<and> \<not> MatchFilename s \<and> \<not> MatchRepeatingNumber s"
  unfolding SSNMatcher_def PatternMatcher.simps
  by (rule contract_cong, (rule contract_build)+) auto

interpretation email_c: pattern_contract "pattern EmailMatcher" MatchEmailV2
  unfolding EmailMatcher_def PatternMatcher.simps by (rule contracts)

interpretation ip_c: pattern_contract "pattern IPMatcher" MatchIP
  unfolding IPMatcher_def PatternMatcher.simps by (rule contracts)

interpretation ipv4_c: pattern_contract "pattern IPv4Matcher" MatchIPV4
  unfolding IPv4Matcher_def PatternMatcher.simps by (rule contracts)

interpretation ipv6_c: pattern_contract "pattern IPv6Matcher" MatchIPV6
  unfolding IPv6Matcher_def PatternMatcher.simps by (rule contracts)

interpretation card_c: pattern_contract "pattern CreditCardMatcher"
  "\<lambda>s. (MatchVisaCreditCard s \<or> MatchMasterCardCreditCard s) \<and> \<not> MatchTestCreditCard s"
  unfolding CreditCardMatcher_def PatternMatcher.simps
  by (rule contract_cong, (rule contract_build)+) (use card_not_uuid in auto)

interpretation address_c: pattern_contract "pattern AddressMatcher"
  "\<lambda>s. (MatchStreetAddress s \<or> MatchPOBox s) \<and> MatchZipCode s"
  unfolding AddressMatcher_def PatternMatcher.simps
  by (rule contract_cong, (rule contract_build)+) auto

interpretation bank_c: pattern_contract "pattern BankInfoMatcher"
  "\<lambda>s. MatchIBAN s \<and> \<not> MatchRepeatingNumber s"
  unfolding BankInfoMatcher_def PatternMatcher.simps
  by (rule contract_cong, (rule contract_build)+) auto

interpretation vin_c: pattern_contract "pattern VINMatcher" MatchVIN
  unfolding VINMatcher_def PatternMatcher.simps by (rule contracts)

interpretation uuid_c: pattern_contract "pattern UUIDMatcher" "\<lambda>s. Matchguid s \<and> \<not> MatchFilename s"
  unfolding UUIDMatcher_def PatternMatcher.simps
  by (rule contract_cong, (rule contract_build)+) (use MatchUUID_guid versioned_guid in auto)

interpretation cpf_c: pattern_contract "pattern CPFMatcher" MatchCPF
  unfolding CPFMatcher_def PatternMatcher.simps by (rule contracts)

interpretation cnpj_c: pattern_contract "pattern CNPJMatcher" "\<lambda>s. MatchCNPJ s \<or> MatchCNPJV2 s"
  unfolding CNPJMatcher_def PatternMatcher.simps
  by (rule contract_cong, (rule contract_build)+) auto

interpretation brazilian_c: pattern_contract "pattern BrazilianPIIMatcher"
  "\<lambda>s. MatchCPF s \<or> MatchCNPJ s \<or> MatchCNPJV2 s"
  unfolding BrazilianPIIMatcher_def PatternMatcher.simps
  by (rule contract_cong, (rule contract_build)+) auto

lemmas prebuilt_contracts =
  phone_c.pattern_contract_axioms link_c.pattern_contract_axioms ssn_c.pattern_contract_axioms
  email_c.pattern_contract_axioms ip_c.pattern_contract_axioms ipv4_c.pattern_contract_axioms
  ipv6_c.pattern_contract_axioms card_c.pattern_contract_axioms address_c.pattern_contract_axioms
  bank_c.pattern_contract_axioms vin_c.pattern_contract_axioms uuid_c.pattern_contract_axioms
  cpf_c.pattern_contract_axioms cnpj_c.pattern_contract_axioms brazilian_c.pattern_contract_axioms

interpretation halt_c: pattern_contract HaltLangDetect
  "\<lambda>s. (Matchguid s \<and> \<not> MatchFilename s) \<or> MatchURL s \<or> MatchEmailV2 s
     \<or> ((MatchVisaCreditCard s \<or> MatchMasterCardCreditCard s) \<and> \<not> MatchTestCreditCard s)"
  unfolding HaltLangDetect_def
  by (rule contract_cong, rule contracts, (rule list.rel_intros prebuilt_contracts)+) auto

section \<open>Properties\<close>

definition prebuilt_matchers :: "PatternMatcher list" where
  "prebuilt_matchers = [PhoneMatcher, LinkMatcher, SSNMatcher, EmailMatcher, IPMatcher, IPv4Matcher,
     IPv6Matcher, CreditCardMatcher, AddressMatcher, BankInfoMatcher, VINMatcher, UUIDMatcher,
     CPFMatcher, CNPJMatcher, BrazilianPIIMatcher]"

definition transparent :: "PatternMatcher \<Rightarrow> bool" where
  "transparent m \<longleftrightarrow> (\<forall>c c' s. fst (matcher_Match m c s) = fst (matcher_Match m c' s)
     \<and> well_nested (snd (matcher_Match m c s))
     \<and> (PatternMonitoringEnabled c \<or> snd (matcher_Match m c s) = []))"

lemma contract_transparent: "pattern_contract (pattern m) L \<Longrightarrow> transparent m"
  using pattern_contract.Match_lang pattern_contract.Match_events pattern_contract.Match_quiet
  unfolding transparent_def matcher_Match_def by blast

text \<open>C24: For every pre-built matcher, tracing and logging never change the answer, the spans and
  log records it emits are well nested, and with monitoring off it emits nothing.\<close>

theorem prebuilt_matchers_transparent: "list_all transparent prebuilt_matchers"
  by (simp add: prebuilt_matchers_def prebuilt_contracts [THEN contract_transparent])

text \<open>C22: The credit card matcher accepts exactly the texts that, without spaces and dashes, are
  sixteen digits with a Visa or MasterCard prefix, except the listed test numbers written
  without separators; its UUID exclusion never fires.\<close>

theorem CreditCardMatcher_language:
  "fst (matcher_Match CreditCardMatcher c s) \<longleftrightarrow>
     (let d = card_digits s in
        length d = 16 \<and> list_all digit_byte d \<and>
        (d ! 0 = 52 \<or> (d ! 0 = 53 \<and> 49 \<le> d ! 1 \<and> d ! 1 \<le> 53)))
     \<and> s \<notin> set testCreditCardNumbers"
  unfolding matcher_Match_def card_c.Match_lang MatchVisa_iff MatchMasterCard_iff Let_def
    MatchTestCreditCard_def
  by (auto simp: list_ex_iff)

text \<open>The Luhn sum: every second digit from the right is doubled, digits of the products added.\<close>

definition luhn_double :: "int \<Rightarrow> int" where
  "luhn_double d = (if 2 * d > 9 then 2 * d - 9 else 2 * d)"

fun luhn_sum :: "int list \<Rightarrow> int" where
  "luhn_sum [] = 0"
| "luhn_sum [d] = d"
| "luhn_sum (d # e # ds) = d + luhn_double e + luhn_sum ds"

definition luhn_valid :: "bytes \<Rightarrow> bool" where
  "luhn_valid s \<longleftrightarrow> luhn_sum (rev (map (\<lambda>b. uint b - 48) s)) mod 10 = 0"

text \<open>The credit card matcher performs no Luhn check: it accepts a number whose Luhn sum is
  wrong.  It also accepts a listed test number as soon as it is written with dashes.\<close>

lemma credit_card_without_luhn:
  "fst (matcher_Match CreditCardMatcher c (str ''4111111111111112'')) \<and> \<not> luhn_valid (str ''4111111111111112'')
   \<and> str ''4242424242424242'' \<in> set testCreditCardNumbers
   \<and> fst (matcher_Match CreditCardMatcher c (str ''4242-4242-4242-4242''))"
proof -
  have "(MatchVisaCreditCard (str ''4111111111111112'') \<and> \<not> MatchTestCreditCard (str ''4111111111111112''))
      \<and> \<not> luhn_valid (str ''4111111111111112'')"
    by code_simp
  moreover have "MatchVisaCreditCard (str ''4242-4242-4242-4242'') \<and> \<not> MatchTestCreditCard (str ''4242-4242-4242-4242'')"
    by code_simp
  ultimately show ?thesis
    by (simp add: matcher_Match_def card_c.Match_lang testCreditCardNumbers_def)
qed

text \<open>C23: The exact language of the UUID matcher and of the three versioned UUID expressions, from
  the pattern constants through the parser and the matching semantics of regular
  expressions.  A text is accepted by the matcher exactly when somewhere in its runes stand
  8, 4, 4, 4 and 12 hexadecimal digits, each group separated from the next by a dash or by
  nothing, and the text is not a file name; the four other alternatives of the matcher add
  nothing.  The versioned expressions need the dashes, the version digit after the second
  dash and, for versions 4 and 5, a variant digit 8, 9, a or b in either case.  No
  expression is anchored, so digits may stand before and after.\<close>

theorem UUIDMatcher_language:
  "(fst (matcher_Match UUIDMatcher c s) \<longleftrightarrow> contains guid_groups (runes s) \<and> \<not> MatchFilename s)
   \<and> (MatchUUIDV3 s \<longleftrightarrow> contains uuid3_groups (runes s))
   \<and> (MatchUUIDV4 s \<longleftrightarrow> contains (uuid_groups 4) (runes s))
   \<and> (MatchUUIDV5 s \<longleftrightarrow> contains (uuid_groups 5) (runes s))"
  unfolding matcher_Match_def uuid_c.Match_lang guid_language uuid_languages by simp

text \<open>The CNPJ matcher accepts exactly the numeric and the alphanumeric CNPJs, and the
  Brazilian PII matcher accepts exactly what the CPF or the CNPJ matcher accepts.\<close>

lemma Brazilian_matchers_language:
  "(fst (matcher_Match CNPJMatcher c s) \<longleftrightarrow>
      cnpj_valid (digits_of s) \<or> cnpj_alnum_valid (map upper_byte (filter (\<lambda>b. \<not> cnpj_fmt b) s)))
   \<and> (fst (matcher_Match BrazilianPIIMatcher c s) \<longleftrightarrow>
      fst (matcher_Match CPFMatcher c s) \<or> fst (matcher_Match CNPJMatcher c s))"
  unfolding matcher_Match_def cnpj_c.Match_lang brazilian_c.Match_lang cpf_c.Match_lang
  by (simp add: MatchCNPJ_digits MatchCNPJV2_valid)

end
