(* ===== verification/Tokenization.thy ===== *)
theory Tokenization
  imports GoText
begin

text \<open>
  \<open>src/analyzer/tokenization.go\<close>: the token iterator.  The two scanning loops
  (\<open>skipDelimiters\<close>, \<open>findTokenEnd\<close>) work on byte positions of the input and carry the
  \<open>isEscaping\<close> flag, as the closures of the source do.  The lemmas relate them to a
  tokenizer on the list of decoded runes (\<open>ref_tokens\<close>), show that the iterator
  terminates, and describe the tokens and the gaps between them.
\<close>

section \<open>The model\<close>

record Token =
  Start :: nat
  End :: nat
  Content :: bytes

definition Token_Len :: "Token \<Rightarrow> nat" where
  "Token_Len t = End t - Start t"

definition delimiters :: "rune list" where
  "delimiters = map of_char ('',;!?()[]{}/'' @ [CHR 0x22, CHR 0x27, CHR 0x5C]) @ [10, 9, 13]"

definition escapeChar :: rune where
  "escapeChar = 0x5C"

definition escapeCharLen :: nat where
  "escapeCharLen = 1"

definition control :: "rune \<Rightarrow> bool" where
  "control r \<longleftrightarrow> r \<in> set (map of_char ''ntr'')"

definition isDelimiter :: "rune \<Rightarrow> bool" where
  "isDelimiter r \<longleftrightarrow> IsSpace r \<or> r \<in> set delimiters"

text \<open>Every loop below advances by the width of the rune at the current position.\<close>

lemma decode_step: "i < length s \<Longrightarrow> 0 < snd (DecodeRune (drop i s)) \<and> i + snd (DecodeRune (drop i s)) \<le> length s"
  using DecodeRune_size [of "drop i s"] by (auto simp: Suc_le_eq)

lemma decode_measure: "i < length s \<Longrightarrow> length s - (i + snd (DecodeRune (drop i s))) < length s - i"
  using decode_step [of i s] by linarith

function skipDelimiters :: "bytes \<Rightarrow> nat \<Rightarrow> bool \<Rightarrow> nat" where
  "skipDelimiters s start isEscaping =
     (if start < length s then
        (let r = fst (DecodeRune (drop start s)); size = snd (DecodeRune (drop start s)) in
         if r = escapeChar then skipDelimiters s (start + size) True
         else if isEscaping \<and> control r then skipDelimiters s (start + size) False
         else if \<not> isDelimiter r then start
         else skipDelimiters s (start + size) isEscaping)
      else start)"
  by pat_completeness auto
termination
  by (relation "measure (\<lambda>(s, start, e). length s - start)") (auto simp: decode_measure)

function findTokenEnd :: "bytes \<Rightarrow> nat \<Rightarrow> bool \<Rightarrow> nat" where
  "findTokenEnd s end isEscaping =
     (if end < length s then
        (let r = fst (DecodeRune (drop end s)); size = snd (DecodeRune (drop end s)) in
         if isDelimiter r then end
         else if isEscaping \<and> control r then end - escapeCharLen
         else findTokenEnd s (end + size) (r = escapeChar))
      else end)"
  by pat_completeness auto
termination
  by (relation "measure (\<lambda>(s, end, e). length s - end)") (auto simp: decode_measure)

declare skipDelimiters.simps [simp del] findTokenEnd.simps [simp del]

lemma scan_at_end [simp]:
  "skipDelimiters s (length s) esc = length s"
  "findTokenEnd s (length s) esc = length s"
  by (simp_all add: skipDelimiters.simps findTokenEnd.simps)

section \<open>The scanning loops on decoded runes\<close>

fun skip_chunks :: "bool \<Rightarrow> (rune \<times> bytes) list \<Rightarrow> (rune \<times> bytes) list" where
  "skip_chunks esc [] = []"
| "skip_chunks esc ((r, c) # cs) =
     (if r = escapeChar then skip_chunks True cs
      else if esc \<and> control r then skip_chunks False cs
      else if \<not> isDelimiter r then (r, c) # cs
      else skip_chunks esc cs)"

abbreviation in_token :: "rune \<times> bytes \<Rightarrow> bool" where
  "in_token rc \<equiv> \<not> isDelimiter (fst rc)"

abbreviation chunk_bytes :: "(rune \<times> bytes) list \<Rightarrow> bytes" where
  "chunk_bytes cs \<equiv> concat (map snd cs)"

lemma chunks_drop:
  "i < length s \<Longrightarrow> chunks (drop i s) =
     (fst (DecodeRune (drop i s)), take (snd (DecodeRune (drop i s))) (drop i s))
       # chunks (drop (i + snd (DecodeRune (drop i s))) s)"
  by (subst chunks.simps) (simp add: add.commute)

lemma isDelimiter_escape: "isDelimiter escapeChar"
  by (simp add: isDelimiter_def escapeChar_def delimiters_def)

lemma skipDelimiters_bounds:
  "start \<le> length s \<Longrightarrow> start \<le> skipDelimiters s start esc \<and> skipDelimiters s start esc \<le> length s"
proof (induction s start esc rule: skipDelimiters.induct)
  case (1 s start esc)
  let ?r = "fst (DecodeRune (drop start s))" and ?n = "snd (DecodeRune (drop start s))"
  show ?case
  proof (cases "start < length s")
    case True
    have n: "start + ?n \<le> length s" using decode_step [OF True] by simp
    define P where "P x \<longleftrightarrow> start + ?n \<le> x \<and> x \<le> length s" for x
    have "P (skipDelimiters s (start + ?n) True)" if "?r = escapeChar"
      using 1(1) [OF True refl refl that n] by (simp add: P_def)
    moreover have "P (skipDelimiters s (start + ?n) False)" if "?r \<noteq> escapeChar" "esc \<and> control ?r"
      using 1(2) [OF True refl refl that n] by (simp add: P_def)
    moreover have "P (skipDelimiters s (start + ?n) esc)"
      if "?r \<noteq> escapeChar" "\<not> (esc \<and> control ?r)" "\<not> \<not> isDelimiter ?r"
      using 1(3) [OF True refl refl that n] by (simp add: P_def)
    ultimately have "P (skipDelimiters s start esc) \<or> skipDelimiters s start esc = start"
      using True by (subst (1 2) skipDelimiters.simps) (simp add: Let_def)
    with True show ?thesis by (auto simp: P_def)
  next
    case False
    with 1 show ?thesis by simp
  qed
qed

lemma chunks_skipDelimiters:
  "start \<le> length s \<Longrightarrow>
     chunks (drop (skipDelimiters s start esc) s) = skip_chunks esc (chunks (drop start s))"
proof (induction s start esc rule: skipDelimiters.induct)
  case (1 s start esc)
  show ?case
  proof (cases "start < length s")
    case True
    with 1 decode_step [of start s] show ?thesis
      by (auto simp: skipDelimiters.simps [of s start esc] chunks_drop [OF True] Let_def)
  next
    case False
    with 1 have "start = length s" by simp
    then show ?thesis by simp
  qed
qed

lemma skip_chunks_head:
  "skip_chunks esc cs = rc # cs' \<Longrightarrow> in_token rc"
  by (induction esc cs rule: skip_chunks.induct) (auto split: if_splits)

text \<open>The escape character is a delimiter, so \<open>findTokenEnd\<close> stops at it and its
  \<open>isEscaping\<close> flag is never set: started with the flag off, it finds the first delimiter.\<close>

lemma findTokenEnd_bounds:
  "end \<le> length s \<Longrightarrow> end \<le> findTokenEnd s end False \<and> findTokenEnd s end False \<le> length s"
proof (induction s "end" False rule: findTokenEnd.induct)
  case (1 s "end")
  let ?r = "fst (DecodeRune (drop end s))" and ?n = "snd (DecodeRune (drop end s))"
  show ?case
  proof (cases "end < length s \<and> \<not> isDelimiter ?r")
    case True
    then have ne: "\<not> (?r = escapeChar)" using isDelimiter_escape by auto
    have "end + ?n \<le> findTokenEnd s (end + ?n) False \<and> findTokenEnd s (end + ?n) False \<le> length s"
      using 1(1) [of ?r ?n] True ne decode_step [of "end" s] by auto
    with True ne show ?thesis
      by (simp add: findTokenEnd.simps [of s "end" False] Let_def)
  next
    case False
    with 1 show ?thesis by (auto simp: findTokenEnd.simps [of s "end" False] Let_def)
  qed
qed

lemma findTokenEnd_chunks:
  "end \<le> length s \<Longrightarrow>
     chunks (drop (findTokenEnd s end False) s) = dropWhile in_token (chunks (drop end s))
   \<and> take (findTokenEnd s end False - end) (drop end s) = chunk_bytes (takeWhile in_token (chunks (drop end s)))"
proof (induction s "end" False rule: findTokenEnd.induct)
  case (1 s "end")
  show ?case
  proof (cases "end < length s")
    case True
    let ?r = "fst (DecodeRune (drop end s))" and ?n = "snd (DecodeRune (drop end s))"
    have n: "0 < ?n" "end + ?n \<le> length s" using decode_step [OF True] by auto
    show ?thesis
    proof (cases "isDelimiter ?r")
      case delim: True
      with True show ?thesis
        by (simp add: findTokenEnd.simps [of s "end" False] chunks_drop Let_def)
    next
      case False
      then have ne: "?r \<noteq> escapeChar" using isDelimiter_escape by auto
      define e' where "e' = findTokenEnd s (end + ?n) False"
      have IH: "chunks (drop e' s) = dropWhile in_token (chunks (drop (end + ?n) s))"
        "take (e' - (end + ?n)) (drop (end + ?n) s) = chunk_bytes (takeWhile in_token (chunks (drop (end + ?n) s)))"
        using 1(1) [OF True refl refl False _ ] ne n unfolding e'_def by auto
      have eq: "findTokenEnd s end False = e'"
        using True False ne by (simp add: findTokenEnd.simps [of s "end" False] Let_def e'_def)
      have "end + ?n \<le> e'" using findTokenEnd_bounds [OF n(2)] by (simp add: e'_def)
      then have split: "take (e' - end) (drop end s) = take ?n (drop end s) @ take (e' - (end + ?n)) (drop (end + ?n) s)"
        using take_add [of ?n "e' - (end + ?n)" "drop end s"] by (simp add: add.commute)
      show ?thesis unfolding eq split IH chunks_drop [OF True] using False by simp
    qed
  next
    case False
    with 1 have "end = length s" by simp
    then show ?thesis by simp
  qed
qed

lemma skip_then_token:
  assumes "start < length s" "skipDelimiters s start False < length s"
  shows "skipDelimiters s start False < findTokenEnd s (skipDelimiters s start False) False"
proof -
  let ?b = "skipDelimiters s start False"
  have "chunks (drop ?b s) = skip_chunks False (chunks (drop start s))"
    using chunks_skipDelimiters [of start s False] assms by simp
  then have "in_token (hd (chunks (drop ?b s)))"
    using skip_chunks_head [of False "chunks (drop start s)"] chunks_drop [OF assms(2)]
    by (metis list.sel(1))
  then have r: "\<not> isDelimiter (fst (DecodeRune (drop ?b s)))"
    by (simp add: chunks_drop [OF assms(2)])
  then have "fst (DecodeRune (drop ?b s)) \<noteq> escapeChar" using isDelimiter_escape by auto
  with r have "findTokenEnd s ?b False = findTokenEnd s (?b + snd (DecodeRune (drop ?b s))) False"
    using assms by (subst findTokenEnd.simps) (simp add: Let_def)
  then show ?thesis
    using decode_step [OF assms(2)] findTokenEnd_bounds [of "?b + snd (DecodeRune (drop ?b s))" s]
    by simp
qed

section \<open>The iterator\<close>

text \<open>A range-over-func iterator: \<open>yield\<close> is called on each token in turn with the state of
  the loop body, and the iteration stops when it returns false.\<close>

function token_loop :: "bytes \<Rightarrow> nat \<Rightarrow> (Token \<Rightarrow> 's \<Rightarrow> bool \<times> 's) \<Rightarrow> 's \<Rightarrow> 's" where
  "token_loop s start yield st =
     (if start < length s then
        (let start' = skipDelimiters s start False in
         if length s \<le> start' then st
         else let end = findTokenEnd s start' False;
                  y = yield \<lparr>Start = start', End = end, Content = take (end - start') (drop start' s)\<rparr> st
              in if \<not> fst y then snd y else token_loop s end yield (snd y))
      else st)"
  by pat_completeness auto
termination
proof (relation "measure (\<lambda>(s, start, y, st). length s - start)", goal_cases)
  case (2 s start yield st start' "end" y)
  with skip_then_token [of start s] skipDelimiters_bounds [of start s False] show ?case by simp
qed simp

declare token_loop.simps [simp del]

definition TokenIterator :: "bytes \<Rightarrow> (Token \<Rightarrow> 's \<Rightarrow> bool \<times> 's) \<Rightarrow> 's \<Rightarrow> 's" where
  "TokenIterator s yield st = token_loop s 0 yield st"

definition tokens :: "bytes \<Rightarrow> Token list" where
  "tokens s = TokenIterator s (\<lambda>t acc. (True, acc @ [t])) []"

fun range_over :: "'a list \<Rightarrow> ('a \<Rightarrow> 's \<Rightarrow> bool \<times> 's) \<Rightarrow> 's \<Rightarrow> 's" where
  "range_over [] yield st = st"
| "range_over (x # xs) yield st =
     (if \<not> fst (yield x st) then snd (yield x st) else range_over xs yield (snd (yield x st)))"

lemma range_over_collect: "range_over xs (\<lambda>t acc. (True, acc @ [t])) acc = acc @ xs"
  by (induction xs arbitrary: acc) simp_all

definition token_at :: "bytes \<Rightarrow> nat \<Rightarrow> Token" where
  "token_at s b = \<lparr>Start = b, End = findTokenEnd s b False,
     Content = take (findTokenEnd s b False - b) (drop b s)\<rparr>"

text \<open>The tokens from a position on, as an inductive relation that follows the loop.\<close>

inductive tokens_from :: "bytes \<Rightarrow> nat \<Rightarrow> Token list \<Rightarrow> bool" for s where
  at_end: "length s \<le> start \<Longrightarrow> tokens_from s start []"
| only_gap: "start < length s \<Longrightarrow> length s \<le> skipDelimiters s start False \<Longrightarrow> tokens_from s start []"
| token: "start < length s \<Longrightarrow> skipDelimiters s start False = b \<Longrightarrow> b < length s \<Longrightarrow>
    tokens_from s (End (token_at s b)) ts \<Longrightarrow> tokens_from s start (token_at s b # ts)"

lemma token_loop_range:
  "\<exists>ts. tokens_from s start ts \<and> (\<forall>yield st. token_loop s start yield st = range_over ts yield (st :: 's))"
proof (induction "length s - start" arbitrary: start rule: less_induct)
  case less
  let ?b = "skipDelimiters s start False"
  show ?case
  proof (cases "start < length s")
    case in_range: True
    show ?thesis
    proof (cases "length s \<le> ?b")
      case True
      with in_range show ?thesis
        by (intro exI [of _ "[]"]) (simp add: tokens_from.only_gap token_loop.simps)
    next
      case False
      then have b: "?b < length s" by simp
      have "length s - findTokenEnd s ?b False < length s - start"
        using skip_then_token [OF in_range b] skipDelimiters_bounds [of start s False] in_range by linarith
      from less(1) [OF this] obtain ts where ts: "tokens_from s (findTokenEnd s ?b False) ts"
        and eq: "\<And>yield (st :: 's). token_loop s (findTokenEnd s ?b False) yield st = range_over ts yield st"
        by blast
      have "tokens_from s start (token_at s ?b # ts)"
        by (rule tokens_from.token) (use in_range b ts in \<open>simp_all add: token_at_def\<close>)
      moreover have "token_loop s start yield st = range_over (token_at s ?b # ts) yield st" for yield and st :: 's
        using in_range b eq by (subst token_loop.simps) (simp add: Let_def token_at_def)
      ultimately show ?thesis by blast
    qed
  next
    case False
    then show ?thesis
      by (intro exI [of _ "[]"]) (simp add: tokens_from.at_end token_loop.simps)
  qed
qed

lemma tokens_from_unique: "tokens_from s start ts \<Longrightarrow> tokens_from s start ts' \<Longrightarrow> ts = ts'"
proof (induction arbitrary: ts' rule: tokens_from.induct)
  case (token start b ts)
  from token.prems obtain us where "ts' = token_at s b # us" "tokens_from s (End (token_at s b)) us"
    by (cases rule: tokens_from.cases) (use token.hyps in simp_all)
  with token.IH show ?case by simp
qed (erule tokens_from.cases; simp)+

lemma tokens_from_tokens: "tokens_from s 0 (tokens s)"
  using token_loop_range [of s 0, where ?'s = "Token list"]
  by (auto simp: tokens_def TokenIterator_def range_over_collect)

text \<open>Iterating with any \<open>yield\<close> is a loop over the list of tokens with early exit.\<close>

lemma TokenIterator_range: "TokenIterator s yield st = range_over (tokens s) yield st"
  using token_loop_range [of s 0] tokens_from_unique [OF _ tokens_from_tokens]
  unfolding TokenIterator_def by metis

section \<open>The tokens of an input\<close>

text \<open>The reference tokenizer on decoded runes: drop a gap, take runes up to the next
  delimiter, repeat.\<close>

lemma length_skip_chunks: "length (skip_chunks esc cs) \<le> length cs"
  by (induction esc cs rule: skip_chunks.induct) auto

function ref_tokens :: "(rune \<times> bytes) list \<Rightarrow> (rune \<times> bytes) list list" where
  "ref_tokens cs =
     (case skip_chunks False cs of
        [] \<Rightarrow> []
      | rc # cs' \<Rightarrow> (rc # takeWhile in_token cs') # ref_tokens (dropWhile in_token cs'))"
  by pat_completeness auto
termination
proof (relation "measure length", goal_cases)
  case (2 cs rc cs')
  then have "length cs' < length cs"
    using length_skip_chunks [of False cs] by simp
  then show ?case
    using length_dropWhile_le [of in_token cs'] by simp
qed simp

declare ref_tokens.simps [simp del]

fun tokens_ok :: "bytes \<Rightarrow> nat \<Rightarrow> Token list \<Rightarrow> bool" where
  "tokens_ok s pos [] \<longleftrightarrow> pos \<le> length s"
| "tokens_ok s pos (t # ts) \<longleftrightarrow>
     pos \<le> Start t \<and> Start t < End t \<and> End t \<le> length s
     \<and> slice s (Start t) (End t) = Inr (Content t) \<and> tokens_ok s (End t) ts"

lemma tokens_from_ok: "tokens_from s start ts \<Longrightarrow> start \<le> length s \<Longrightarrow> tokens_ok s start ts"
proof (induction rule: tokens_from.induct)
  case (token start b ts)
  have "start \<le> b" using skipDelimiters_bounds [of start s False] token by simp
  moreover have "b < findTokenEnd s b False" using skip_then_token [of start s] token by simp
  moreover have "findTokenEnd s b False \<le> length s" using findTokenEnd_bounds [of b s] token by simp
  ultimately show ?case using token by (simp add: token_at_def slice_def)
qed simp_all

lemma tokens_from_ref:
  "tokens_from s start ts \<Longrightarrow> start \<le> length s \<Longrightarrow>
     map (chunks \<circ> Content) ts = ref_tokens (chunks (drop start s))"
proof (induction rule: tokens_from.induct)
  case (only_gap start)
  then have "skip_chunks False (chunks (drop start s)) = []"
    using chunks_skipDelimiters [of start s False] by simp
  then show ?case by (simp add: ref_tokens.simps)
next
  case (token start b ts)
  have b: "b < length s" "chunks (drop b s) = skip_chunks False (chunks (drop start s))"
    using chunks_skipDelimiters [of start s False] token by simp_all
  obtain rc cs' where rc: "chunks (drop b s) = rc # cs'"
    using chunks_drop [OF b(1)] by blast
  then have "in_token rc" using skip_chunks_head [of False "chunks (drop start s)"] b by simp
  moreover have "chunks (Content (token_at s b)) = takeWhile in_token (chunks (drop b s))"
    using findTokenEnd_chunks [of b s] b chunks_takeWhile [of in_token "drop b s"]
    by (simp add: token_at_def)
  moreover have "chunks (drop (End (token_at s b)) s) = dropWhile in_token (chunks (drop b s))"
    using findTokenEnd_chunks [of b s] b by (simp add: token_at_def)
  moreover have "End (token_at s b) \<le> length s"
    using findTokenEnd_bounds [of b s] b by (simp add: token_at_def)
  ultimately show ?case
    using token.IH rc b(2) by (subst ref_tokens.simps) (simp add: comp_def)
qed (simp add: ref_tokens.simps)

lemma ref_tokens_in_token: "cs' \<in> set (ref_tokens cs) \<Longrightarrow> cs' \<noteq> [] \<and> list_all in_token cs'"
proof (induction cs rule: ref_tokens.induct)
  case (1 cs)
  show ?case
  proof (cases "skip_chunks False cs")
    case Nil
    with 1 show ?thesis by (simp add: ref_tokens.simps [of cs])
  next
    case (Cons rc cs1)
    have "ref_tokens cs = (rc # takeWhile in_token cs1) # ref_tokens (dropWhile in_token cs1)"
      using Cons by (simp add: ref_tokens.simps [of cs])
    then consider "cs' = rc # takeWhile in_token cs1" | "cs' \<in> set (ref_tokens (dropWhile in_token cs1))"
      using 1(2) by auto
    then show ?thesis
    proof cases
      case 1
      with skip_chunks_head [OF Cons] show ?thesis
        by (auto simp: list_all_iff dest: set_takeWhileD)
    qed (rule 1(1) [OF Cons])
  qed
qed

text \<open>The gap a call of \<open>skipDelimiters\<close> removes holds delimiters and the control letters
  of an escape only, and without an escape character delimiters only.\<close>

definition significant :: "rune \<times> bytes \<Rightarrow> bool" where
  "significant rc \<longleftrightarrow> \<not> isDelimiter (fst rc) \<and> \<not> control (fst rc)"

lemma skip_chunks_significant: "filter significant (skip_chunks esc cs) = filter significant cs"
  by (induction esc cs rule: skip_chunks.induct) (auto simp: significant_def isDelimiter_escape)

lemma skip_chunks_no_escape:
  "escapeChar \<notin> fst ` set cs \<Longrightarrow> skip_chunks False cs = dropWhile (\<lambda>rc. isDelimiter (fst rc)) cs"
  by (induction cs) (auto simp: image_iff)

lemma ref_tokens_significant: "filter significant (concat (ref_tokens cs)) = filter significant cs"
proof (induction cs rule: ref_tokens.induct)
  case (1 cs)
  show ?case
  proof (cases "skip_chunks False cs")
    case Nil
    with skip_chunks_significant [of False cs] show ?thesis
      by (simp add: ref_tokens.simps [of cs])
  next
    case (Cons rc cs1)
    have "filter significant (takeWhile in_token cs1) @ filter significant (dropWhile in_token cs1)
        = filter significant cs1"
      by (metis filter_append takeWhile_dropWhile_id)
    with 1 [OF Cons] skip_chunks_significant [of False cs] Cons show ?thesis
      by (auto simp: ref_tokens.simps [of cs])
  qed
qed

lemma ref_tokens_no_escape:
  "escapeChar \<notin> fst ` set cs \<Longrightarrow> concat (ref_tokens cs) = filter in_token cs"
proof (induction cs rule: ref_tokens.induct)
  case (1 cs)
  note skip = skip_chunks_no_escape [OF 1(2)]
  have drop: "filter in_token (dropWhile (\<lambda>rc. isDelimiter (fst rc)) cs) = filter in_token cs"
    by (induction cs) simp_all
  show ?case
  proof (cases "skip_chunks False cs")
    case Nil
    with skip drop show ?thesis by (simp add: ref_tokens.simps [of cs])
  next
    case (Cons rc cs1)
    have "set cs1 \<subseteq> set cs"
      using Cons skip set_dropWhileD [of _ "\<lambda>rc. isDelimiter (fst rc)" cs] by (metis list.set_intros(2) subsetI)
    then have "escapeChar \<notin> fst ` set (dropWhile in_token cs1)"
      using 1(2) by (auto dest: set_dropWhileD)
    from 1(1) [OF Cons this]
    have "concat (ref_tokens cs) = rc # takeWhile in_token cs1 @ filter in_token (dropWhile in_token cs1)"
      using Cons by (simp add: ref_tokens.simps [of cs])
    also have "takeWhile in_token cs1 @ filter in_token (dropWhile in_token cs1) = filter in_token cs1"
      by (induction cs1) simp_all
    finally show ?thesis
      using Cons skip drop skip_chunks_head [OF Cons] by (metis filter.simps(2))
  qed
qed

lemma tokens_ref: "map (chunks \<circ> Content) (tokens s) = ref_tokens (chunks s)"
  using tokens_from_ref [OF tokens_from_tokens] by simp

lemma token_in_ref: "t \<in> set (tokens s) \<Longrightarrow> chunks (Content t) \<in> set (ref_tokens (chunks s))"
  using tokens_ref [of s] by (metis comp_apply image_eqI list.set_map)

lemma tokens_contents: "map Content (tokens s) = map chunk_bytes (ref_tokens (chunks s))"
  by (simp flip: tokens_ref add: chunks_concat)

text \<open>Evaluation of the iterator on a concrete input.\<close>

lemmas token_eval = tokens_def TokenIterator_def token_loop.simps skipDelimiters.simps findTokenEnd.simps
  isDelimiter_def IsSpace_def delimiters_def control_def escapeChar_def Let_def

section \<open>Properties\<close>

text \<open>C17: The iterator terminates on every input and the tokens it yields are in order and
  disjoint, lie within the input, are not empty, and hold exactly the bytes between their
  positions (the slice expression never panics).\<close>

theorem tokens_wellformed: "tokens_ok s 0 (tokens s)"
  using tokens_from_ok [OF tokens_from_tokens] by simp

text \<open>C16: The position-based scanner with its escape flag and its backtracking agrees, for every
  input, with the reference tokenizer on decoded runes; the backtracking branch of
  \<open>findTokenEnd\<close> never contributes.\<close>

theorem tokens_match_reference: "map (chunks \<circ> Content) (tokens s) = ref_tokens (chunks s)"
  by (rule tokens_ref)

text \<open>A token is not empty and no rune of it is white space or a delimiter.\<close>

lemma token_has_no_delimiter:
  assumes "t \<in> set (tokens s)"
  shows "Content t \<noteq> [] \<and> list_all (\<lambda>r. \<not> isDelimiter r) (runes (Content t))"
  using ref_tokens_in_token [OF token_in_ref [OF assms]]
  by (auto simp: list_all_iff)

text \<open>C35: Tokenization loses nothing but separators: the runes that are neither delimiters nor
  one of the control letters n, t, r survive in order, and an input without a
  backslash loses its delimiters only.\<close>

theorem tokens_complete:
  "concat (map (filter significant \<circ> chunks \<circ> Content) (tokens s)) = filter significant (chunks s)
   \<and> (escapeChar \<notin> set (runes s) \<longrightarrow>
        concat (map (chunks \<circ> Content) (tokens s)) = filter in_token (chunks s))"
proof
  have "concat (map (filter significant) (ref_tokens (chunks s))) = filter significant (chunks s)"
    using ref_tokens_significant [of "chunks s"] by (simp add: filter_concat)
  then show "concat (map (filter significant \<circ> chunks \<circ> Content) (tokens s)) = filter significant (chunks s)"
    by (simp flip: tokens_ref add: comp_def)
  show "escapeChar \<notin> set (runes s) \<longrightarrow>
        concat (map (chunks \<circ> Content) (tokens s)) = filter in_token (chunks s)"
    using ref_tokens_no_escape [of "chunks s"] by (simp add: tokens_ref)
qed

theorem tokens_complete_witness:
  "escapeChar \<notin> set (runes (str ''a, n'')) \<and>
   concat (map (chunks \<circ> Content) (tokens (str ''a, n''))) = [(97, [97]), (110, [110])]"
proof -
  have e: "escapeChar \<notin> set (runes (str ''a, n''))" by (simp add: escapeChar_def)
  with tokens_complete [of "str ''a, n''"] show ?thesis
    by (simp add: isDelimiter_def IsSpace_def delimiters_def)
qed

text \<open>The escape flag of \<open>skipDelimiters\<close> is not reset by the delimiters that follow a
  backslash, so the first letter of the next word is dropped when it is n, t or r,
  although a space separates it from the backslash.\<close>

lemma escape_flag_survives_delimiters:
  "map Content (tokens (str (CHR 0x5C # '' natal@x.io''))) = [str ''atal@x.io'']"
  by (simp add: token_eval)

end
