(* ===== verification/Rules.thy ===== *)
theory Rules
  imports Matchers Tokenization
begin

text \<open>
  \<open>src/analyzer/rules.go\<close> and \<open>src/rules.go\<close>: detection rules, their exceptions and their
  anonymization settings, and the default rules of the package.  \<open>isException\<close> is from
  \<open>src/analyzer/byte_analyzer.go\<close>.  The monitoring events that a matcher emits are left
  to \<^theory_text>\<open>Matchers\<close>; here a matcher is its entity and its answer.
\<close>

section \<open>Rules\<close>

record Matcher =
  Matcher_Entity :: Entity
  Matcher_Match :: "ctx \<Rightarrow> bytes \<Rightarrow> bool"

definition as_Matcher :: "PatternMatcher \<Rightarrow> Matcher" where
  "as_Matcher m = \<lparr>Matcher_Entity = entity m, Matcher_Match = (\<lambda>c s. fst (matcher_Match m c s))\<rparr>"

record RedactSettings =
  Placeholder :: bytes

record MaskSettings =
  MaskingChar :: bytes
  MaxSize :: int

text \<open>A strategy is an integer in the source; a value other than the two constants is possible.\<close>

type_synonym AnonymizeStrategy = int

definition REDACT :: AnonymizeStrategy where "REDACT = 0"
definition MASK :: AnonymizeStrategy where "MASK = 1"

text \<open>The two settings are pointers: \<open>None\<close> is nil.\<close>

record RuleSettings =
  Strategy :: AnonymizeStrategy
  Redact :: "RedactSettings option"
  Mask :: "MaskSettings option"

record Exception =
  Reason :: string
  exc_Matcher :: Matcher

record Rule =
  Disable :: bool
  rule_Name :: string
  Description :: string
  rule_Matcher :: Matcher
  Exceptions :: "Exception list"
  Settings :: RuleSettings

abbreviation rule_entity :: "Rule \<Rightarrow> Entity" where
  "rule_entity r \<equiv> Matcher_Entity (rule_Matcher r)"

abbreviation rule_match :: "Rule \<Rightarrow> ctx \<Rightarrow> bytes \<Rightarrow> bool" where
  "rule_match r \<equiv> Matcher_Match (rule_Matcher r)"

fun isException :: "ctx \<Rightarrow> bytes \<Rightarrow> Exception list \<Rightarrow> bool" where
  "isException c token [] = False"
| "isException c token (e # es) =
     (if Matcher_Match (exc_Matcher e) c token then True else isException c token es)"

lemma isException_iff: "isException c token es \<longleftrightarrow> (\<exists>e\<in>set es. Matcher_Match (exc_Matcher e) c token)"
  by (induction es) auto

section \<open>Default rules\<close>

definition DefaultMaskString :: bytes where "DefaultMaskString = str ''*''"

definition DefaultRedactString :: bytes where "DefaultRedactString = str ''<REDACTED>''"

definition DefaultRuleSetting :: RuleSettings where
  "DefaultRuleSetting = \<lparr>Strategy = REDACT, Redact = Some \<lparr>Placeholder = DefaultRedactString\<rparr>,
     Mask = Some \<lparr>MaskingChar = DefaultMaskString, MaxSize = 0\<rparr>\<rparr>"

definition DefaultCPFRule :: Rule where
  "DefaultCPFRule = \<lparr>Disable = False, rule_Name = ''brazilian_cpf'', Description = ''Brazilian CPF'',
     rule_Matcher = as_Matcher CPFMatcher, Exceptions = [], Settings = DefaultRuleSetting\<rparr>"

definition DefaultCNPJRule :: Rule where
  "DefaultCNPJRule = \<lparr>Disable = False, rule_Name = ''brazilian_cnpj'', Description = ''Brazilian CNPJ'',
     rule_Matcher = as_Matcher CNPJMatcher, Exceptions = [], Settings = DefaultRuleSetting\<rparr>"

definition DefaultEmailRule :: Rule where
  "DefaultEmailRule = \<lparr>Disable = False, rule_Name = ''email_address'', Description = ''valid email address'',
     rule_Matcher = as_Matcher EmailMatcher, Exceptions = [], Settings = DefaultRuleSetting\<rparr>"

definition DefaultIPRule :: Rule where
  "DefaultIPRule = \<lparr>Disable = False, rule_Name = ''ip_address'', Description = ''valid IPv4 or IPv6 address'',
     rule_Matcher = as_Matcher IPMatcher, Exceptions = [], Settings = DefaultRuleSetting\<rparr>"

definition DefaultCreditCardRule :: Rule where
  "DefaultCreditCardRule = \<lparr>Disable = False, rule_Name = ''credit_card'', Description = ''valid credit card number'',
     rule_Matcher = as_Matcher CreditCardMatcher, Exceptions = [], Settings = DefaultRuleSetting\<rparr>"

lemmas default_rule_defs = DefaultCPFRule_def DefaultCNPJRule_def DefaultEmailRule_def
  DefaultIPRule_def DefaultCreditCardRule_def

definition default_rules :: "Rule list" where
  "default_rules = [DefaultCPFRule, DefaultCNPJRule, DefaultEmailRule, DefaultIPRule, DefaultCreditCardRule]"

section \<open>What the rules promise for a token\<close>

text \<open>A rule applies to a token when it is enabled, none of its exceptions matches, and its
  matcher matches; the first such rule decides how the token is anonymized.\<close>

definition applies :: "ctx \<Rightarrow> bytes \<Rightarrow> Rule \<Rightarrow> bool" where
  "applies c data r \<longleftrightarrow> \<not> Disable r \<and> \<not> isException c data (Exceptions r) \<and> rule_match r c data"

definition first_match :: "ctx \<Rightarrow> Rule list \<Rightarrow> bytes \<Rightarrow> Rule option" where
  "first_match c rules data = find (applies c data) rules"

text \<open>Rules are consistent when rules for the same entity answer alike: the caches are keyed by
  entity, so this is what makes a shared answer meaningful.  \<open>verdict\<close> is then the answer
  of an entity.\<close>

definition verdicts_agree :: "(Entity \<Rightarrow> bytes \<Rightarrow> bool) \<Rightarrow> ctx \<Rightarrow> Rule list \<Rightarrow> bool" where
  "verdicts_agree verdict c rules \<longleftrightarrow> (\<forall>r\<in>set rules. \<forall>d. rule_match r c d = verdict (rule_entity r) d)"

lemma verdicts_agreeD:
  "verdicts_agree verdict c rules \<Longrightarrow> r \<in> set rules \<Longrightarrow> rule_match r c d = verdict (rule_entity r) d"
  by (simp add: verdicts_agree_def)

text \<open>Rules for pairwise different entities are consistent.\<close>

definition rule_verdict :: "ctx \<Rightarrow> Rule list \<Rightarrow> Entity \<Rightarrow> bytes \<Rightarrow> bool" where
  "rule_verdict c rules e d =
     (case find (\<lambda>r. rule_entity r = e) rules of None \<Rightarrow> False | Some r \<Rightarrow> rule_match r c d)"

lemma find_distinct_key:
  "distinct (map f xs) \<Longrightarrow> x \<in> set xs \<Longrightarrow> find (\<lambda>y. f y = f x) xs = Some x"
  by (induction xs) (auto simp: image_iff)

lemma distinct_entities_agree:
  "distinct (map rule_entity rules) \<Longrightarrow> verdicts_agree (rule_verdict c rules) c rules"
  by (simp add: verdicts_agree_def rule_verdict_def find_distinct_key [where f = rule_entity])

lemma first_match_NoneI: "(\<And>r. r \<in> set rules \<Longrightarrow> \<not> applies c d r) \<Longrightarrow> first_match c rules d = None"
  unfolding first_match_def by (simp add: find_None_iff)

lemma first_match_SomeD: "first_match c rules d = Some r \<Longrightarrow> r \<in> set rules \<and> applies c d r"
  unfolding first_match_def by (drule find_Some_split) blast

lemma first_match_Some_iff:
  "first_match c rules d \<noteq> None \<longleftrightarrow> (\<exists>r\<in>set rules. applies c d r)"
  unfolding first_match_def by (auto simp: find_None_iff)

lemma default_rules_consistent: "distinct (map rule_entity default_rules)"
  by (simp add: default_rules_def default_rule_defs as_Matcher_def matcher_defs entity_defs)

lemmas prebuilt_langs = cpf_c.Match_lang cnpj_c.Match_lang email_c.Match_lang ip_c.Match_lang card_c.Match_lang

lemma default_applies:
  "applies c d DefaultCPFRule \<longleftrightarrow> MatchCPF d"
  "applies c d DefaultCNPJRule \<longleftrightarrow> MatchCNPJ d \<or> MatchCNPJV2 d"
  "applies c d DefaultEmailRule \<longleftrightarrow> MatchEmailV2 d"
  "applies c d DefaultIPRule \<longleftrightarrow> MatchIP d"
  "applies c d DefaultCreditCardRule \<longleftrightarrow>
     (MatchVisaCreditCard d \<or> MatchMasterCardCreditCard d) \<and> \<not> MatchTestCreditCard d"
  by (simp_all add: applies_def default_rule_defs as_Matcher_def matcher_Match_def prebuilt_langs)

end
