(* ===== verification/Cache.thy ===== *)
theory Cache
  imports Rules "HOL-Library.AList"
begin

text \<open>
  \<open>src/analyzer/cache/store.go\<close>, \<open>noop.go\<close> and \<open>tracer.go\<close>: the interface of a store for
  match results, the store that keeps nothing, and the tracing decorator.  A Go map from
  entities to answers is an association list read with \<open>map_of\<close>; a store is a pair of
  operations on a state of its own.  The contract that the runners rely on is the locale
  \<open>cache_store\<close>.
\<close>

section \<open>The interface\<close>

type_synonym results = "(Entity \<times> bool) list"

datatype cache_error = ServerError string | ContextCancelled

record 'w CacheStore =
  GetMatches :: "ctx \<Rightarrow> bytes \<Rightarrow> 'w \<Rightarrow> (cache_error + results) \<times> 'w"
  SaveMatches :: "ctx \<Rightarrow> bytes \<Rightarrow> results \<Rightarrow> 'w \<Rightarrow> cache_error option \<times> 'w"

text \<open>\<open>content w d\<close> is what the store holds for the token \<open>d\<close>.  A read returns only what is held
  and adds nothing; a save adds at most the given results under the given token.  Entries
  may get lost at any time (expiry, eviction, a failed write), and both operations may fail.\<close>

locale cache_store =
  fixes store :: "'w CacheStore" and content :: "'w \<Rightarrow> bytes \<Rightarrow> Entity \<Rightarrow> bool option"
  assumes get_held: "GetMatches store c d w = (Inr m, w') \<Longrightarrow> map_of m e = Some b \<Longrightarrow> content w d e = Some b"
    and get_frame: "content (snd (GetMatches store c d w)) d' e = Some b \<Longrightarrow> content w d' e = Some b"
    and save_frame: "content (snd (SaveMatches store c d r w)) d' e = Some b \<Longrightarrow>
      content w d' e = Some b \<or> (d' = d \<and> (e, b) \<in> set r)"
begin

text \<open>The invariant of a store shared by runners: only negative answers are held, and they are
  the answers of the matchers.\<close>

definition negatives_only :: "(Entity \<Rightarrow> bytes \<Rightarrow> bool) \<Rightarrow> 'w \<Rightarrow> bool" where
  "negatives_only verdict w \<longleftrightarrow> (\<forall>d e b. content w d e = Some b \<longrightarrow> \<not> b \<and> \<not> verdict e d)"

lemma negatives_only_get:
  "negatives_only verdict w \<Longrightarrow> negatives_only verdict (snd (GetMatches store c d w))"
  unfolding negatives_only_def using get_frame by blast

lemma negatives_only_save:
  assumes "negatives_only verdict w" "\<And>e b. (e, b) \<in> set r \<Longrightarrow> \<not> b \<and> \<not> verdict e d"
  shows "negatives_only verdict (snd (SaveMatches store c d r w))"
  using assms save_frame unfolding negatives_only_def by blast

lemma negatives_only_read:
  "negatives_only verdict w \<Longrightarrow> GetMatches store c d w = (Inr m, w') \<Longrightarrow> map_of m e = Some b \<Longrightarrow>
     \<not> b \<and> \<not> verdict e d"
  unfolding negatives_only_def using get_held by blast

end

section \<open>The no-op store\<close>

definition NoopRuleMatchingCache :: "'w CacheStore" where
  "NoopRuleMatchingCache = \<lparr>GetMatches = (\<lambda>c d w. (Inr [], w)), SaveMatches = (\<lambda>c d r w. (None, w))\<rparr>"

interpretation noop: cache_store NoopRuleMatchingCache "\<lambda>w d e. None"
  by unfold_locales (simp_all add: NoopRuleMatchingCache_def)

section \<open>The tracing decorator\<close>

text \<open>The decorated store's state carries the spans emitted so far.\<close>

definition NewCacheStoreTracer :: "(bytes \<Rightarrow> bytes) \<Rightarrow> 'w CacheStore \<Rightarrow> ('w \<times> event list) CacheStore" where
  "NewCacheStoreTracer sha underlying =
     \<lparr>GetMatches = (\<lambda>c d (w, evs).
        let (newCtx, start, finish) = TraceCacheGetMatches sha c d;
            (r, w') = GetMatches underlying newCtx d w
        in (r, (w', evs @ start @ finish))),
      SaveMatches = (\<lambda>c d m (w, evs).
        let (newCtx, start, finish) = TraceCacheSaveMatches sha c d;
            (r, w') = SaveMatches underlying newCtx d m w
        in (r, (w', evs @ start @ finish)))\<rparr>"

lemma Tracer_Get:
  "GetMatches (NewCacheStoreTracer sha u) c d (w, evs) =
     (let (r, w') = GetMatches u (fst (TraceCacheGetMatches sha c d)) d w
      in (r, (w', evs @ [SpanStart ''anonymize_cache_get_matches'', SpanTag ''cache.token'' (tokenDigestPrefix sha d),
                         SpanFinish ''anonymize_cache_get_matches''])))"
  by (simp add: NewCacheStoreTracer_def TraceCacheGetMatches_def TraceCacheOp_def StartSpanFromContext_def split_def Let_def)

lemma Tracer_Save:
  "SaveMatches (NewCacheStoreTracer sha u) c d m (w, evs) =
     (let (r, w') = SaveMatches u (fst (TraceCacheSaveMatches sha c d)) d m w
      in (r, (w', evs @ [SpanStart ''anonymize_cache_save_matches'', SpanTag ''cache.token'' (tokenDigestPrefix sha d),
                         SpanFinish ''anonymize_cache_save_matches''])))"
  by (simp add: NewCacheStoreTracer_def TraceCacheSaveMatches_def TraceCacheOp_def StartSpanFromContext_def split_def Let_def)

text \<open>The decorator keeps the contract of the store it decorates.\<close>

lemma tracer_store:
  assumes "cache_store u ct"
  shows "cache_store (NewCacheStoreTracer sha u) (\<lambda>wv. ct (fst wv))"
proof unfold_locales
  note laws = cache_store.get_held [OF assms] cache_store.get_frame [OF assms] cache_store.save_frame [OF assms]
  show "GetMatches (NewCacheStoreTracer sha u) c d w = (Inr m, w') \<Longrightarrow> map_of m e = Some b \<Longrightarrow>
      ct (fst w) d e = Some b" for c d w m w' e b
    using laws(1) [of "fst (TraceCacheGetMatches sha c d)" d "fst w" m _ e b]
    by (cases w; cases "GetMatches u (fst (TraceCacheGetMatches sha c d)) d (fst w)") (simp add: Tracer_Get)
  show "ct (fst (snd (GetMatches (NewCacheStoreTracer sha u) c d w))) d' e = Some b \<Longrightarrow>
      ct (fst w) d' e = Some b" for c d w d' e b
    using laws(2) [of "fst (TraceCacheGetMatches sha c d)" d "fst w" d' e b]
    by (cases w) (simp add: Tracer_Get split_def Let_def)
  show "ct (fst (snd (SaveMatches (NewCacheStoreTracer sha u) c d r w))) d' e = Some b \<Longrightarrow>
      ct (fst w) d' e = Some b \<or> d' = d \<and> (e, b) \<in> set r" for c d r w d' e b
    using laws(3) [of "fst (TraceCacheSaveMatches sha c d)" d r "fst w" d' e b]
    by (cases w) (simp add: Tracer_Save split_def Let_def)
qed

interpretation traced_noop: cache_store "NewCacheStoreTracer sha NoopRuleMatchingCache" "\<lambda>wv d e. None"
  for sha
  by (rule tracer_store) (rule noop.cache_store_axioms)

section \<open>Properties\<close>

text \<open>C26: A call on the traced store makes the answer of the store it decorates and emits exactly
  one span, opened, tagged and finished; the tag is twelve hexadecimal digits of the
  token's digest, so tokens with the same digest leave the same spans and no token text
  reaches the tracer.\<close>

theorem cache_spans_carry_digest:
  assumes "\<forall>t. length (sha t) = 32"
  shows "\<exists>tag. length tag = 12 \<and> set tag \<subseteq> set ''0123456789abcdef'' \<and> tag = take 12 (EncodeToString (sha d))
     \<and> GetMatches (NewCacheStoreTracer sha u) c d (w, evs) =
        (let (r, w') = GetMatches u (fst (TraceCacheGetMatches sha c d)) d w in
         (r, (w', evs @ [SpanStart ''anonymize_cache_get_matches'', SpanTag ''cache.token'' tag, SpanFinish ''anonymize_cache_get_matches''])))
     \<and> SaveMatches (NewCacheStoreTracer sha u) c d m (w, evs) =
        (let (r, w') = SaveMatches u (fst (TraceCacheSaveMatches sha c d)) d m w in
         (r, (w', evs @ [SpanStart ''anonymize_cache_save_matches'', SpanTag ''cache.token'' tag, SpanFinish ''anonymize_cache_save_matches''])))"
  using tokenDigestPrefix_length [of sha d] tokenDigestPrefix_hex [of sha d] assms
  by (intro exI [of _ "tokenDigestPrefix sha d"]) (simp add: Tracer_Get Tracer_Save tokenDigestPrefix_def)

theorem cache_spans_carry_digest_witness:
  "GetMatches (NewCacheStoreTracer (\<lambda>t. replicate 32 171) NoopRuleMatchingCache) background (str ''a@b.co'') ((), [])
     = (Inr [], ((), [SpanStart ''anonymize_cache_get_matches'', SpanTag ''cache.token'' ''abababababab'',
          SpanFinish ''anonymize_cache_get_matches'']))"
proof -
  have "take 12 (EncodeToString (replicate 32 171)) = ''abababababab''" by code_simp
  with cache_spans_carry_digest [of "\<lambda>t. replicate 32 171" "str ''a@b.co''" NoopRuleMatchingCache background "()" "[]" "[]"]
  show ?thesis by (auto simp: NoopRuleMatchingCache_def)
qed

end
