(* ===== verification/Singleflight.thy ===== *)
theory Singleflight
  imports Cache
begin

text \<open>
  \<open>src/analyzer/singleflight_coalescer.go\<close>: sharing one computation among concurrent callers
  of the same token.  The group is that of the vendored third-party package
  \<open>golang.org/x/sync/singleflight\<close>, of which only the documented behaviour is used; what it
  does for one call is the argument \<open>flight\<close>: the caller's own function
  runs, the value of another caller's running function is delivered, or the caller's context
  ends first (and the caller's function may still run in the background when the caller
  leads the flight).
\<close>

section \<open>Flights\<close>

datatype run_error = CacheErr cache_error | CtxErr | UnexpectedResultType | ErrPoolClosed

text \<open>The group passes values as \<open>any\<close>: a result map, possibly nil, or something else.\<close>

datatype any_value = MapValue "results option" | OtherValue

datatype flight =
    Leads
  | Waits any_value "run_error option"
  | CtxDone bool

type_synonym 's computation = "'s \<Rightarrow> results option \<times> run_error option \<times> 's"

definition tokenFlightKey :: "bytes \<Rightarrow> bytes" where
  "tokenFlightKey data = data"

definition disabled_doToken :: "flight \<Rightarrow> bytes \<Rightarrow> 's computation \<Rightarrow> 's computation" where
  "disabled_doToken f key fn s = fn s"

definition doShared :: "flight \<Rightarrow> bytes \<Rightarrow> 's computation \<Rightarrow> 's computation" where
  "doShared f key fn s =
     (case f of
        Leads \<Rightarrow> fn s
      | Waits (MapValue v) err \<Rightarrow> (v, err, s)
      | Waits OtherValue err \<Rightarrow> (None, Some UnexpectedResultType, s)
      | CtxDone leads \<Rightarrow> (None, Some CtxErr, if leads then snd (snd (fn s)) else s))"

definition single_doToken :: "flight \<Rightarrow> bytes \<Rightarrow> 's computation \<Rightarrow> 's computation" where
  "single_doToken f key fn s = doShared f key fn s"

definition doToken :: "bool \<Rightarrow> flight \<Rightarrow> bytes \<Rightarrow> 's computation \<Rightarrow> 's computation" where
  "doToken enabled = (if enabled then single_doToken else disabled_doToken)"

section \<open>The contract of a coalescer\<close>

text \<open>A call delivers the value of its own computation, or the value that the flight shares, or
  nothing; and the state is that of its own computation or untouched.\<close>

definition shared_value :: "flight \<Rightarrow> results option" where
  "shared_value f = (case f of Waits (MapValue v) e \<Rightarrow> v | _ \<Rightarrow> None)"

locale token_flight =
  fixes do_token :: "flight \<Rightarrow> bytes \<Rightarrow> 's computation \<Rightarrow> 's computation"
  assumes delivered: "fst (do_token f k fn s) = Some m \<Longrightarrow> fst (fn s) = Some m \<or> shared_value f = Some m"
    and effects: "snd (snd (do_token f k fn s)) = s \<or> snd (snd (do_token f k fn s)) = snd (snd (fn s))"
begin

text \<open>Whatever holds of every value that can be delivered holds of the delivered one.\<close>

lemma delivered_property:
  "fst (do_token f k fn s) = Some m \<Longrightarrow> (\<And>m. fst (fn s) = Some m \<Longrightarrow> P m) \<Longrightarrow>
     (\<And>m. shared_value f = Some m \<Longrightarrow> P m) \<Longrightarrow> P m"
  using delivered by blast

lemma effects_invariant: "I s \<Longrightarrow> (I s \<Longrightarrow> I (snd (snd (fn s)))) \<Longrightarrow> I (snd (snd (do_token f k fn s)))"
  using effects [of f k fn s] by auto

end

interpretation disabled: token_flight disabled_doToken
  by unfold_locales (simp_all add: disabled_doToken_def)

interpretation single: token_flight single_doToken
  by unfold_locales
    (auto simp: single_doToken_def doShared_def shared_value_def split: flight.splits any_value.splits)

lemma doToken_flight: "token_flight (doToken enabled)"
  unfolding doToken_def
  by (simp add: disabled.token_flight_axioms single.token_flight_axioms)

interpretation chosen: token_flight "doToken enabled" for enabled
  by (rule doToken_flight)

text \<open>The flights that end with a value for the caller.\<close>

definition completes :: "bool \<Rightarrow> flight \<Rightarrow> bool" where
  "completes enabled f \<longleftrightarrow> \<not> enabled \<or> f = Leads \<or> shared_value f \<noteq> None"

lemma completes_delivers:
  "completes enabled f \<Longrightarrow> fst (fn s) \<noteq> None \<Longrightarrow> fst (doToken enabled f k fn s) \<noteq> None"
  by (auto simp: completes_def doToken_def disabled_doToken_def single_doToken_def doShared_def
      shared_value_def split: flight.splits any_value.splits)

end
