(* ===== verification/Options.thy ===== *)
theory Options
  imports Complex_Main Prelude
begin

text \<open>
  The option records of \<open>src/analyzer/factory.go\<close> and \<open>src/analyzer/cache/options.go\<close>.
  Durations are nanoseconds as integers.  The jitter percentage is a floating-point number
  in the source and a rational here.  The client option of the Valkey library is a type
  parameter \<open>'o\<close>, since the mutator is a function of the caller on that type.
\<close>

type_synonym duration = int

definition time_Second :: duration where
  "time_Second = 1000000000"

record RedisOptions =
  Addr :: bytes
  DisableClusterMode :: bool
  Username :: bytes
  Password :: bytes
  DialTimeout :: duration
  ReadTimeout :: duration
  WriteTimeout :: duration
  PoolSize :: int
  MinIdleConns :: int
  InsecureSkipVerify :: bool
  PingOnConnect :: bool

record 'o RuleMatchingCacheOptions =
  CacheTTL :: duration
  TTLJitterPercentage :: rat
  DisableInMemoryCache :: bool
  ValkeyConfigMutator :: "('o \<Rightarrow> 'o) option"
  Redis :: RedisOptions

record 'o CacheOptions =
  co_Enabled :: bool
  co_TTL :: duration
  co_TTLJitterPercentage :: rat
  SingleflightEnabled :: bool
  co_DisableInMemoryCache :: bool
  RedisAddr :: bytes
  RedisDisableClusterMode :: bool
  RedisUsername :: bytes
  RedisPassword :: bytes
  RedisDialTimeout :: duration
  RedisReadTimeout :: duration
  RedisWriteTimeout :: duration
  RedisPoolSize :: int
  RedisMinIdleConns :: int
  RedisInsecureSkipVerify :: bool
  RedisPingOnConnect :: bool
  co_ValkeyConfigMutator :: "('o \<Rightarrow> 'o) option"
  TracingEnabled :: bool

record ConcurrencyOptions =
  conc_Enabled :: bool
  ConcurrentTokenProcessing :: bool
  ConcurrentRuleProcessing :: bool
  RuleRunnerPoolSize :: int
  TokenPoolSize :: int
  MaxGoroutineIdleTimeout :: duration

record 'o RunnerOptions =
  ro_Cache :: "'o CacheOptions"
  ro_Concurrency :: ConcurrencyOptions

text \<open>Coalescing needs both switches.\<close>

definition coalescing :: "'o RunnerOptions \<Rightarrow> bool" where
  "coalescing options \<longleftrightarrow> co_Enabled (ro_Cache options) \<and> SingleflightEnabled (ro_Cache options)"

end
