(* ===== verification/SerialRunner.thy ===== *)
theory SerialRunner
  imports Singleflight Options
begin

text \<open>
  \<open>src/analyzer/serial_runner.go\<close>: evaluating the rules of a token one at a time, with a
  cache of negative answers keyed by entity and with optional coalescing.  A run threads the
  state of the cache and a trace of the cache calls and error records.  The refinement
  lemma is \<open>Process_first_match\<close>: with a cache that keeps its contract and consistent rules,
  a run that is not cancelled returns what \<open>first_match\<close> says.
\<close>

section \<open>State\<close>

datatype trace_item =
    GotMatches bytes
  | SavedMatches bytes results
  | LoggedError string run_error

record 'w run_state =
  cache_state :: 'w
  trace :: "trace_item list"

definition record_item :: "trace_item \<Rightarrow> 'w run_state \<Rightarrow> 'w run_state" where
  "record_item i st = st\<lparr>trace := trace st @ [i]\<rparr>"

definition call_GetMatches :: "'w CacheStore \<Rightarrow> ctx \<Rightarrow> bytes \<Rightarrow> 'w run_state \<Rightarrow> (cache_error + results) \<times> 'w run_state" where
  "call_GetMatches store c data st =
     (let (r, w) = GetMatches store c data (cache_state st)
      in (r, record_item (GotMatches data) (st\<lparr>cache_state := w\<rparr>)))"

definition call_SaveMatches :: "'w CacheStore \<Rightarrow> ctx \<Rightarrow> bytes \<Rightarrow> results \<Rightarrow> 'w run_state \<Rightarrow> cache_error option \<times> 'w run_state" where
  "call_SaveMatches store c data m st =
     (let (e, w) = SaveMatches store c data m (cache_state st)
      in (e, record_item (SavedMatches data m) (st\<lparr>cache_state := w\<rparr>)))"

record 'w SerialRulesRunner =
  sr_cache :: "'w CacheStore option"
  sr_coalescing :: bool

definition NewSerialRulesRuner :: "'o RunnerOptions \<Rightarrow> 'w CacheStore option \<Rightarrow> 'w SerialRulesRunner" where
  "NewSerialRulesRuner options cache = \<lparr>sr_cache = cache, sr_coalescing = coalescing options\<rparr>"

section \<open>Classification\<close>

record missingEvaluation =
  me_entity :: Entity
  me_rule :: Rule

record ruleView =
  view_rule :: Rule
  view_entity :: Entity
  view_cached :: bool
  view_result :: bool
  view_excepted :: bool

fun classify_loop :: "ctx \<Rightarrow> bytes \<Rightarrow> results \<Rightarrow> Rule list \<Rightarrow> Entity list \<Rightarrow> ruleView list \<times> missingEvaluation list" where
  "classify_loop c data cached [] queued = ([], [])"
| "classify_loop c data cached (rule # rules) queued =
     (if Disable rule then classify_loop c data cached rules queued
      else let e = rule_entity rule;
               view = \<lparr>view_rule = rule, view_entity = e, view_cached = False, view_result = False, view_excepted = False\<rparr>
           in case map_of cached e of
             Some result \<Rightarrow>
               (let (vs, ms) = classify_loop c data cached rules queued
                in (view\<lparr>view_cached := True, view_result := result\<rparr> # vs, ms))
           | None \<Rightarrow>
               if isException c data (Exceptions rule) then
                 (let (vs, ms) = classify_loop c data cached rules queued
                  in (view\<lparr>view_excepted := True\<rparr> # vs, ms))
               else if e \<in> set queued then
                 (let (vs, ms) = classify_loop c data cached rules queued in (view # vs, ms))
               else
                 (let (vs, ms) = classify_loop c data cached rules (e # queued)
                  in (view # vs, \<lparr>me_entity = e, me_rule = rule\<rparr> # ms)))"

definition classifyRules :: "ctx \<Rightarrow> Rule list \<Rightarrow> bytes \<Rightarrow> results \<Rightarrow> ruleView list \<times> missingEvaluation list" where
  "classifyRules c rules data cached = classify_loop c data cached rules []"

section \<open>Evaluation\<close>

definition matchMissing :: "ctx \<Rightarrow> bytes \<Rightarrow> missingEvaluation list \<Rightarrow> results" where
  "matchMissing c data missing =
     foldl (\<lambda>results m. AList.update (me_entity m) (rule_match (me_rule m) c data) results) [] missing"

definition saveNegatives :: "'w CacheStore \<Rightarrow> ctx \<Rightarrow> bytes \<Rightarrow> results \<Rightarrow> 'w run_state \<Rightarrow> cache_error option \<times> 'w run_state" where
  "saveNegatives store c data results st =
     (let negatives = map (\<lambda>(e, m). (e, False)) (filter (\<lambda>(e, m). \<not> m) results) in
      if length negatives = 0 then (None, st) else call_SaveMatches store c data negatives st)"

definition maps_Copy :: "results \<Rightarrow> results \<Rightarrow> results" where
  "maps_Copy dst src = foldl (\<lambda>d (k, v). AList.update k v d) dst src"

definition residual_of :: "results \<Rightarrow> missingEvaluation list \<Rightarrow> missingEvaluation list" where
  "residual_of results missing = filter (\<lambda>m. map_of results (me_entity m) = None) missing"

definition log_err :: "string \<Rightarrow> run_error option \<Rightarrow> 'w run_state \<Rightarrow> 'w run_state" where
  "log_err msg e st = (case e of None \<Rightarrow> st | Some err \<Rightarrow> record_item (LoggedError msg err) st)"

definition leader_computation :: "'w CacheStore \<Rightarrow> ctx \<Rightarrow> bytes \<Rightarrow> missingEvaluation list \<Rightarrow> 'w run_state computation" where
  "leader_computation store c data missing st =
     (let results = matchMissing c data missing;
          (err, st') = saveNegatives store c data results st
      in (Some results, map_option CacheErr err, st'))"

text \<open>What follows the flight: the residual misses are evaluated inline.\<close>

definition finish_residual :: "'w CacheStore \<Rightarrow> ctx \<Rightarrow> bytes \<Rightarrow> missingEvaluation list \<Rightarrow> results \<Rightarrow> 'w run_state \<Rightarrow> results \<times> 'w run_state" where
  "finish_residual store c data missing results st =
     (let residual = residual_of results missing in
      if length residual = 0 then (results, st)
      else let residualResults = matchMissing c data residual;
               (saveErr, st') = saveNegatives store c data residualResults st;
               st'' = log_err ''Failed to save matching rules in cache'' (map_option CacheErr saveErr) st'
           in (maps_Copy (maps_Copy [] results) residualResults, st''))"

definition evaluateMissing :: "'w CacheStore \<Rightarrow> bool \<Rightarrow> flight \<Rightarrow> ctx \<Rightarrow> bytes \<Rightarrow> missingEvaluation list \<Rightarrow> 'w run_state \<Rightarrow> results \<times> 'w run_state" where
  "evaluateMissing store coal f c data missing st =
     (case doToken coal f (tokenFlightKey data) (leader_computation store c data missing) st of
        (None, flightErr, st1) \<Rightarrow>
          ([], log_err ''Cancelled while waiting for token evaluation'' flightErr st1)
      | (Some results, flightErr, st1) \<Rightarrow>
          finish_residual store c data missing results
            (log_err ''Failed to save matching rules in cache'' flightErr st1))"

section \<open>The run\<close>

fun in_order_pass :: "ruleView list \<Rightarrow> results \<Rightarrow> Rule option" where
  "in_order_pass [] evaluated = None"
| "in_order_pass (view # views) evaluated =
     (if view_cached view then
        (if view_result view then Some (view_rule view) else in_order_pass views evaluated)
      else if view_excepted view then in_order_pass views evaluated
      else if map_of evaluated (view_entity view) = Some True then Some (view_rule view)
      else in_order_pass views evaluated)"

text \<open>The cached answers of the token; a failed read degrades to an empty map.\<close>

definition read_cached :: "'w CacheStore \<Rightarrow> ctx \<Rightarrow> bytes \<Rightarrow> 'w run_state \<Rightarrow> results \<times> 'w run_state" where
  "read_cached store c data st =
     (case call_GetMatches store c data st of
        (Inl err, st1) \<Rightarrow>
          ([], record_item (LoggedError ''Failed to get matching rules from cache'' (CacheErr err)) st1)
      | (Inr m, st1) \<Rightarrow> (m, st1))"

text \<open>\<open>None\<close> stands for \<open>(Rule{}, false)\<close>.  A nil cache panics at the first call on it.\<close>

definition Process :: "'w SerialRulesRunner \<Rightarrow> flight \<Rightarrow> ctx \<Rightarrow> Rule list \<Rightarrow> bytes \<Rightarrow> 'w run_state \<Rightarrow> (Rule option \<times> 'w run_state) result" where
  "Process s f c rules data st =
     (case sr_cache s of
        None \<Rightarrow> Inl NilDereference
      | Some store \<Rightarrow>
          let (cached, st1) = read_cached store c data st;
              (views, missing) = classifyRules c rules data cached;
              (evaluated, st2) =
                (if length missing > 0 then evaluateMissing store (sr_coalescing s) f c data missing st1 else ([], st1))
          in Inr (in_order_pass views evaluated, st2))"

section \<open>Facts on the parts\<close>

lemma trace_record [simp]: "trace (record_item i st) = trace st @ [i]"
  by (simp add: record_item_def)

lemma cache_state_record [simp]: "cache_state (record_item i st) = cache_state st"
  by (simp add: record_item_def)

lemma cache_state_log [simp]: "cache_state (log_err msg e st) = cache_state st"
  by (simp add: log_err_def split: option.splits)

lemma map_of_matchMissing_step:
  "map_of (foldl (\<lambda>results m. AList.update (me_entity m) (g m) results) acc ms) e =
     (case find (\<lambda>m. me_entity m = e) (rev ms) of None \<Rightarrow> map_of acc e | Some m \<Rightarrow> Some (g m))"
proof (induction ms rule: rev_induct)
  case (snoc m ms)
  then show ?case by (simp add: update_conv')
qed simp

text \<open>Every evaluation in a missing set is the answer of its entity.\<close>

definition missing_ok :: "(Entity \<Rightarrow> bytes \<Rightarrow> bool) \<Rightarrow> ctx \<Rightarrow> bytes \<Rightarrow> missingEvaluation list \<Rightarrow> bool" where
  "missing_ok verdict c data ms \<longleftrightarrow> (\<forall>m\<in>set ms. rule_match (me_rule m) c data = verdict (me_entity m) data)"

definition sound_results :: "(Entity \<Rightarrow> bytes \<Rightarrow> bool) \<Rightarrow> bytes \<Rightarrow> results \<Rightarrow> bool" where
  "sound_results verdict data m \<longleftrightarrow> (\<forall>(e, b)\<in>set m. b = verdict e data)"

lemma sound_resultsD: "sound_results verdict data m \<Longrightarrow> map_of m e = Some b \<Longrightarrow> b = verdict e data"
  unfolding sound_results_def by (blast dest: map_of_SomeD)

lemma set_update: "set (AList.update k v xs) \<subseteq> insert (k, v) (set xs)"
  by (induction xs) auto

lemma sound_update:
  "sound_results verdict data m \<Longrightarrow> b = verdict e data \<Longrightarrow> sound_results verdict data (AList.update e b m)"
  using set_update [of e b m] unfolding sound_results_def by blast

lemma sound_matchMissing:
  assumes "missing_ok verdict c data ms"
  shows "sound_results verdict data (matchMissing c data ms)"
  using assms unfolding matchMissing_def
proof (induction ms rule: rev_induct)
  case (snoc m ms)
  then show ?case by (simp add: missing_ok_def sound_update)
qed (simp add: sound_results_def)

lemma covers_matchMissing:
  assumes "missing_ok verdict c data ms" "m \<in> set ms"
  shows "map_of (matchMissing c data ms) (me_entity m) = Some (verdict (me_entity m) data)"
proof -
  have "find (\<lambda>m'. me_entity m' = me_entity m) (rev ms) \<noteq> None"
    using assms(2) by (auto simp: find_None_iff)
  then obtain m' where f: "find (\<lambda>m'. me_entity m' = me_entity m) (rev ms) = Some m'" by blast
  then have "m' \<in> set ms" "me_entity m' = me_entity m" by (auto dest: find_Some_split)
  with f assms(1) show ?thesis
    by (simp add: matchMissing_def map_of_matchMissing_step missing_ok_def)
qed

lemma sound_maps_Copy:
  "sound_results verdict data dst \<Longrightarrow> sound_results verdict data src \<Longrightarrow> sound_results verdict data (maps_Copy dst src)"
  unfolding maps_Copy_def
proof (induction src arbitrary: dst)
  case (Cons kv src)
  obtain k v where kv: "kv = (k, v)" by fastforce
  have "sound_results verdict data (AList.update k v dst)"
    using Cons.prems kv by (intro sound_update) (simp_all add: sound_results_def)
  moreover have "sound_results verdict data src" using Cons.prems(2) by (simp add: sound_results_def)
  ultimately show ?case using Cons.IH kv by simp
qed simp

lemma dom_maps_Copy: "dom (map_of (maps_Copy dst src)) = dom (map_of dst) \<union> dom (map_of src)"
  unfolding maps_Copy_def
  by (induction src arbitrary: dst) (auto simp: update_conv')

lemma missing_ok_residual: "missing_ok verdict c data ms \<Longrightarrow> missing_ok verdict c data (residual_of r ms)"
  by (simp add: missing_ok_def residual_of_def)

text \<open>The outcome of evaluating a missing set: sound, and complete for the set.\<close>

definition answers :: "(Entity \<Rightarrow> bytes \<Rightarrow> bool) \<Rightarrow> bytes \<Rightarrow> missingEvaluation list \<Rightarrow> results \<Rightarrow> bool" where
  "answers verdict data ms r \<longleftrightarrow> (\<forall>m\<in>set ms. map_of r (me_entity m) = Some (verdict (me_entity m) data))"

lemma finish_residual_answers:
  assumes "missing_ok verdict c data ms" "sound_results verdict data results"
  shows "answers verdict data ms (fst (finish_residual store c data ms results st))"
proof (cases "residual_of results ms = []")
  case True
  then have "\<forall>m\<in>set ms. map_of results (me_entity m) \<noteq> None"
    by (simp add: residual_of_def filter_empty_conv)
  with True assms(2) show ?thesis
    by (auto simp: finish_residual_def answers_def dest: sound_resultsD)
next
  case False
  let ?res = "residual_of results ms"
  let ?m = "maps_Copy (maps_Copy [] results) (matchMissing c data ?res)"
  have "sound_results verdict data ?m"
    by (intro sound_maps_Copy sound_matchMissing missing_ok_residual assms) (simp add: sound_results_def)
  moreover have "map_of ?m (me_entity m) \<noteq> None" if "m \<in> set ms" for m
  proof -
    have "me_entity m \<in> dom (map_of (matchMissing c data ?res))" if "map_of results (me_entity m) = None"
    proof -
      have "m \<in> set ?res" using that \<open>m \<in> set ms\<close> by (simp add: residual_of_def)
      then show ?thesis using covers_matchMissing [OF missing_ok_residual [OF assms(1)]] by blast
    qed
    then have "me_entity m \<in> dom (map_of ?m)" unfolding dom_maps_Copy by blast
    then show ?thesis by blast
  qed
  ultimately have "answers verdict data ms ?m"
    unfolding answers_def using sound_resultsD [of verdict data ?m] by fastforce
  with False show ?thesis by (simp add: finish_residual_def split_def Let_def)
qed

lemma finish_residual_sound:
  assumes "missing_ok verdict c data ms" "sound_results verdict data results"
  shows "sound_results verdict data (fst (finish_residual store c data ms results st))"
proof (cases "residual_of results ms = []")
  case True
  then show ?thesis using assms(2) by (simp add: finish_residual_def)
next
  case False
  have "sound_results verdict data (maps_Copy (maps_Copy [] results) (matchMissing c data (residual_of results ms)))"
    by (intro sound_maps_Copy sound_matchMissing missing_ok_residual assms) (simp add: sound_results_def)
  with False show ?thesis by (simp add: finish_residual_def split_def Let_def)
qed

section \<open>Classification and the final pass\<close>

lemma classify_missing_ok:
  assumes "verdicts_agree verdict c rules"
  shows "missing_ok verdict c data (snd (classify_loop c data cached rules queued))"
  using assms
proof (induction rules arbitrary: queued)
  case (Cons r rules)
  have r: "rule_match r c data = verdict (rule_entity r) data" and rs: "verdicts_agree verdict c rules"
    using Cons.prems by (simp_all add: verdicts_agree_def)
  show ?case
    using Cons.IH [OF rs] r by (auto simp: missing_ok_def Let_def split_def split: option.splits)
qed (simp add: missing_ok_def)

lemma in_order_pass_first_match:
  assumes "verdicts_agree verdict c rules"
    and "\<And>e b. map_of cached e = Some b \<Longrightarrow> \<not> b \<and> \<not> verdict e data"
    and "answers verdict data (snd (classify_loop c data cached rules queued)) ev"
    and "\<forall>e\<in>set queued. map_of ev e = Some (verdict e data)"
  shows "in_order_pass (fst (classify_loop c data cached rules queued)) ev = first_match c rules data"
  using assms
proof (induction rules arbitrary: queued)
  case (Cons r rules)
  have r: "rule_match r c data = verdict (rule_entity r) data" and rs: "verdicts_agree verdict c rules"
    using Cons.prems(1) by (simp_all add: verdicts_agree_def)
  note IH = Cons.IH [OF rs Cons.prems(2)]
  consider "Disable r" | b where "\<not> Disable r" "map_of cached (rule_entity r) = Some b"
    | "\<not> Disable r" "map_of cached (rule_entity r) = None" "isException c data (Exceptions r)"
    | "\<not> Disable r" "map_of cached (rule_entity r) = None" "\<not> isException c data (Exceptions r)"
      "rule_entity r \<in> set queued"
    | "\<not> Disable r" "map_of cached (rule_entity r) = None" "\<not> isException c data (Exceptions r)"
      "rule_entity r \<notin> set queued"
    by fastforce
  then show ?case
  proof cases
    case (2 b)
    then have "\<not> b" "\<not> verdict (rule_entity r) data" using Cons.prems(2) by blast+
    with 2 IH Cons.prems(3,4) r show ?thesis
      by (simp add: first_match_def applies_def Let_def split_def)
  next
    case 4
    with IH Cons.prems(3,4) r show ?thesis
      by (simp add: first_match_def applies_def Let_def split_def)
  next
    case 5
    then have "map_of ev (rule_entity r) = Some (verdict (rule_entity r) data)"
      using Cons.prems(3) by (simp add: answers_def Let_def split_def)
    with 5 IH [of "rule_entity r # queued"] Cons.prems(3,4) r show ?thesis
      by (simp add: first_match_def applies_def Let_def split_def answers_def)
  qed (use IH Cons.prems(3,4) r in \<open>simp_all add: first_match_def applies_def Let_def split_def\<close>)
qed (simp add: first_match_def)

section \<open>Refinement\<close>

text \<open>The saved batch of an evaluation holds negative answers only.\<close>

lemma negatives_sound:
  "sound_results verdict data m \<Longrightarrow>
     (e, b) \<in> set (map (\<lambda>(e, m). (e, False)) (filter (\<lambda>(e, m). \<not> m) m)) \<Longrightarrow> \<not> b \<and> \<not> verdict e data"
  by (auto simp: sound_results_def)

context cache_store
begin

abbreviation sound_state :: "(Entity \<Rightarrow> bytes \<Rightarrow> bool) \<Rightarrow> 'w run_state \<Rightarrow> bool" where
  "sound_state verdict st \<equiv> negatives_only verdict (cache_state st)"

lemma saveNegatives_keeps:
  assumes "sound_state verdict st" "sound_results verdict data m"
  shows "sound_state verdict (snd (saveNegatives store c data m st))"
proof -
  have "negatives_only verdict (snd (SaveMatches store c data
      (map (\<lambda>(e, m). (e, False)) (filter (\<lambda>(e, m). \<not> m) m)) (cache_state st)))"
    using assms(1) negatives_sound [OF assms(2)] by (rule negatives_only_save)
  with assms(1) show ?thesis
    by (simp add: saveNegatives_def call_SaveMatches_def case_prod_beta Let_def)
qed

lemma leader_keeps:
  "sound_state verdict st \<Longrightarrow> missing_ok verdict c data ms \<Longrightarrow>
     sound_state verdict (snd (snd (leader_computation store c data ms st)))"
  by (simp add: leader_computation_def split_def Let_def saveNegatives_keeps sound_matchMissing)

lemma finish_residual_keeps:
  "sound_state verdict st \<Longrightarrow> missing_ok verdict c data ms \<Longrightarrow>
     sound_state verdict (snd (finish_residual store c data ms results st))"
  by (simp add: finish_residual_def split_def Let_def saveNegatives_keeps sound_matchMissing missing_ok_residual)

lemma read_cached_facts:
  assumes "sound_state verdict st"
  shows "sound_state verdict (snd (read_cached store c data st))"
    and "map_of (fst (read_cached store c data st)) e = Some b \<Longrightarrow> \<not> b \<and> \<not> verdict e data"
  using assms negatives_only_get [of verdict "cache_state st" c data]
    negatives_only_read [of verdict "cache_state st" c data]
  by (cases "GetMatches store c data (cache_state st)";
      auto simp: read_cached_def call_GetMatches_def split: sum.splits)+

lemma evaluateMissing_keeps:
  assumes "sound_state verdict st" "missing_ok verdict c data ms"
  shows "sound_state verdict (snd (evaluateMissing store coal f c data ms st))"
proof -
  let ?d = "doToken coal f (tokenFlightKey data) (leader_computation store c data ms) st"
  have "sound_state verdict (snd (snd ?d))"
    by (rule chosen.effects_invariant [where I = "sound_state verdict"])
      (simp_all add: assms leader_keeps)
  then show ?thesis
    by (cases ?d; cases "fst ?d") (auto simp: evaluateMissing_def finish_residual_keeps assms(2))
qed

lemma evaluateMissing_answers:
  assumes "missing_ok verdict c data ms" "completes coal f"
    "\<And>m. shared_value f = Some m \<Longrightarrow> sound_results verdict data m"
  shows "answers verdict data ms (fst (evaluateMissing store coal f c data ms st))"
proof -
  let ?fn = "leader_computation store c data ms"
  let ?d = "doToken coal f (tokenFlightKey data) ?fn st"
  have fn: "fst (?fn st) = Some (matchMissing c data ms)"
    by (simp add: leader_computation_def split_def Let_def)
  then obtain m where m: "fst ?d = Some m" using completes_delivers [OF assms(2), of ?fn st] by auto
  have "sound_results verdict data m"
    using m
  proof (rule chosen.delivered_property)
    show "sound_results verdict data m" if "fst (?fn st) = Some m" for m
      using that fn sound_matchMissing [OF assms(1)] by simp
  qed (rule assms(3))
  with m assms(1) show ?thesis
    by (cases ?d) (auto simp: evaluateMissing_def finish_residual_answers)
qed

lemma Process_refines:
  assumes "sound_state verdict st" "verdicts_agree verdict c rules" "completes coal f"
    "\<And>m. shared_value f = Some m \<Longrightarrow> sound_results verdict data m"
  shows "\<exists>st'. Process \<lparr>sr_cache = Some store, sr_coalescing = coal\<rparr> f c rules data st
      = Inr (first_match c rules data, st') \<and> sound_state verdict st'"
proof -
  obtain cached st1 where rc: "read_cached store c data st = (cached, st1)" by fastforce
  obtain views missing where cl: "classify_loop c data cached rules [] = (views, missing)" by fastforce
  note neg = read_cached_facts(2) [OF assms(1), of c data, unfolded rc fst_conv]
  have st1: "sound_state verdict st1" using read_cached_facts(1) [OF assms(1), of c data] rc by simp
  have ok: "missing_ok verdict c data missing"
    using classify_missing_ok [OF assms(2), of data cached "[]"] cl by simp
  obtain ev st2 where ev: "(if length missing > 0 then evaluateMissing store coal f c data missing st1 else ([], st1)) = (ev, st2)"
    by fastforce
  have "answers verdict data missing ev \<and> sound_state verdict st2"
  proof (cases "missing = []")
    case True
    with ev st1 show ?thesis by (simp add: answers_def)
  next
    case False
    with ev evaluateMissing_answers [OF ok assms(3,4), of st1] evaluateMissing_keeps [OF st1 ok, of coal f]
    show ?thesis by simp
  qed
  with in_order_pass_first_match [where cached = cached and queued = "[]" and ev = ev, OF assms(2) neg] cl
  have "in_order_pass views ev = first_match c rules data" "sound_state verdict st2" by simp_all
  then show ?thesis
    by (simp only: Process_def classifyRules_def SerialRulesRunner.simps option.case rc cl ev Let_def prod.case) blast
qed

lemma Process_cancelled:
  assumes "sound_state verdict st" "verdicts_agree verdict c rules"
  shows "\<exists>r st'. Process \<lparr>sr_cache = Some store, sr_coalescing = coal\<rparr> f c rules data st = Inr (r, st')
     \<and> sound_state verdict st'"
proof -
  obtain cached st1 where rc: "read_cached store c data st = (cached, st1)" by fastforce
  obtain views missing where cl: "classify_loop c data cached rules [] = (views, missing)" by fastforce
  have st1: "sound_state verdict st1" using read_cached_facts(1) [OF assms(1), of c data] rc by simp
  have ok: "missing_ok verdict c data missing"
    using classify_missing_ok [OF assms(2), of data cached "[]"] cl by simp
  show ?thesis
    using evaluateMissing_keeps [OF st1 ok, of coal f] st1
    unfolding Process_def classifyRules_def by (simp add: rc cl Let_def split_def)
qed

end

section \<open>Cache traffic of a run\<close>

definition is_get :: "trace_item \<Rightarrow> bool" where
  "is_get i \<longleftrightarrow> (case i of GotMatches d \<Rightarrow> True | _ \<Rightarrow> False)"

definition is_save :: "trace_item \<Rightarrow> bool" where
  "is_save i \<longleftrightarrow> (case i of SavedMatches d m \<Rightarrow> True | _ \<Rightarrow> False)"

text \<open>A saved batch is for the token of the run, not empty, and negative.\<close>

definition proper_save :: "bytes \<Rightarrow> trace_item \<Rightarrow> bool" where
  "proper_save data i \<longleftrightarrow>
     (case i of SavedMatches d m \<Rightarrow> d = data \<and> m \<noteq> [] \<and> list_all (\<lambda>(e, b). \<not> b) m | _ \<Rightarrow> True)"

text \<open>\<open>traffic data n st st'\<close>: between the two states nothing was read, at most \<open>n\<close> batches were
  saved, and they are proper.\<close>

definition traffic :: "bytes \<Rightarrow> nat \<Rightarrow> 'w run_state \<Rightarrow> 'w run_state \<Rightarrow> bool" where
  "traffic data n st st' \<longleftrightarrow> (\<exists>t. trace st' = trace st @ t \<and> list_all (\<lambda>i. \<not> is_get i) t
     \<and> length (filter is_save t) \<le> n \<and> list_all (proper_save data) t)"

lemma traffic_refl: "traffic data n st st"
  by (simp add: traffic_def)

lemma traffic_trans: "traffic data m s1 s2 \<Longrightarrow> traffic data n s2 s3 \<Longrightarrow> traffic data (m + n) s1 s3"
  unfolding traffic_def
proof (elim exE conjE)
  fix t u
  assume "trace s2 = trace s1 @ t" "trace s3 = trace s2 @ u" "list_all (\<lambda>i. \<not> is_get i) t"
    "list_all (\<lambda>i. \<not> is_get i) u" "length (filter is_save t) \<le> m" "length (filter is_save u) \<le> n"
    "list_all (proper_save data) t" "list_all (proper_save data) u"
  then show "\<exists>t. trace s3 = trace s1 @ t \<and> list_all (\<lambda>i. \<not> is_get i) t
     \<and> length (filter is_save t) \<le> m + n \<and> list_all (proper_save data) t"
    by (intro exI [of _ "t @ u"]) simp
qed

lemma traffic_log: "traffic data 0 st (log_err msg e st)"
  by (auto simp: traffic_def log_err_def is_get_def is_save_def proper_save_def split: option.splits)

lemma traffic_saveNegatives: "traffic data 1 st (snd (saveNegatives store c data m st))"
proof (cases "filter (\<lambda>(e, m). \<not> m) m = []")
  case True
  then show ?thesis by (simp add: saveNegatives_def traffic_refl)
next
  case False
  let ?neg = "map (\<lambda>(e, m). (e, False)) (filter (\<lambda>(e, m). \<not> m) m)"
  have "trace (snd (saveNegatives store c data m st)) = trace st @ [SavedMatches data ?neg]"
    using False by (simp add: saveNegatives_def call_SaveMatches_def case_prod_beta Let_def)
  then show ?thesis
    using False by (auto simp: traffic_def is_get_def is_save_def proper_save_def list_all_iff)
qed

lemma traffic_finish: "traffic data 1 st (snd (finish_residual store c data ms r st))"
proof (cases "residual_of r ms = []")
  case False
  then show ?thesis
    using traffic_trans [OF traffic_saveNegatives traffic_log]
    by (simp add: finish_residual_def case_prod_beta Let_def)
qed (simp add: finish_residual_def traffic_refl)

text \<open>The leader's results leave no residual misses.\<close>

lemma leader_no_residual: "residual_of (matchMissing c data ms) ms = []"
proof -
  have "map_of (matchMissing c data ms) (me_entity m) \<noteq> None" if "m \<in> set ms" for m
  proof -
    have "find (\<lambda>m'. me_entity m' = me_entity m) (rev ms) \<noteq> None"
      using that by (auto simp: find_None_iff)
    then show ?thesis by (auto simp: matchMissing_def map_of_matchMissing_step)
  qed
  then show ?thesis by (simp add: residual_of_def filter_empty_conv)
qed

lemma traffic_leader: "traffic data 1 st (snd (snd (leader_computation store c data ms st)))"
  using traffic_saveNegatives by (simp add: leader_computation_def case_prod_beta Let_def)

lemma doToken_cases:
  "doToken coal f k fn s = fn s \<or> (\<exists>v e. doToken coal f k fn s = (v, e, s))
     \<or> (\<exists>e. doToken coal f k fn s = (None, e, snd (snd (fn s))))"
  by (simp add: doToken_def disabled_doToken_def single_doToken_def doShared_def
      split: flight.split any_value.split)

lemma doToken_leads: "\<not> (coal \<and> f \<noteq> Leads) \<Longrightarrow> doToken coal f k fn s = fn s"
  by (auto simp: doToken_def disabled_doToken_def single_doToken_def doShared_def)

lemma doToken_waits:
  "coal \<and> f \<noteq> Leads \<Longrightarrow> fst (doToken coal f k fn s) = Some m \<Longrightarrow> snd (snd (doToken coal f k fn s)) = s"
  by (auto simp: doToken_def single_doToken_def doShared_def split: flight.splits any_value.splits)

lemma traffic_evaluate: "traffic data 1 st (snd (evaluateMissing store coal f c data ms st))"
proof -
  let ?fn = "leader_computation store c data ms"
  let ?d = "doToken coal f (tokenFlightKey data) ?fn st"
  obtain err st' where l: "?fn st = (Some (matchMissing c data ms), err, st')"
    by (auto simp: leader_computation_def case_prod_beta Let_def)
  have st': "traffic data 1 st st'" using traffic_leader [of data st store c ms] l by simp
  consider "?d = ?fn st" | v e where "?d = (v, e, st)" | e where "?d = (None, e, snd (snd (?fn st)))"
    using doToken_cases [of coal f "tokenFlightKey data" ?fn st] by blast
  then show ?thesis
  proof cases
    case 1
    then show ?thesis
      using traffic_trans [OF st' traffic_log]
      by (simp add: evaluateMissing_def l finish_residual_def leader_no_residual)
  next
    case (2 v e)
    show ?thesis
    proof (cases v)
      case None
      with 2 show ?thesis
        using traffic_trans [OF traffic_refl [of data 1 st] traffic_log] by (simp add: evaluateMissing_def)
    next
      case (Some r)
      with 2 show ?thesis
        using traffic_trans [OF traffic_log traffic_finish] by (simp add: evaluateMissing_def)
    qed
  next
    case (3 e)
    then show ?thesis
      using traffic_trans [OF st' traffic_log] by (simp add: evaluateMissing_def l)
  qed
qed

lemma trace_read_cached:
  "\<exists>t. trace (snd (read_cached store c data st)) = trace st @ GotMatches data # t
     \<and> list_all (\<lambda>i. \<not> is_get i \<and> \<not> is_save i) t"
  by (auto simp: read_cached_def call_GetMatches_def case_prod_beta Let_def is_get_def is_save_def split: sum.splits)

text \<open>A run that reads the cache and then makes the traffic of one evaluation.\<close>

lemma traffic_after_read:
  assumes "traffic data 1 (snd (read_cached store c data st)) st'"
  shows "\<exists>t. trace st' = trace st @ GotMatches data # t \<and> list_all (\<lambda>i. \<not> is_get i) t
     \<and> length (filter is_save t) \<le> 1 \<and> list_all (proper_save data) t"
proof -
  let ?st1 = "snd (read_cached store c data st)"
  obtain t where t: "trace ?st1 = trace st @ GotMatches data # t" "list_all (\<lambda>i. \<not> is_get i \<and> \<not> is_save i) t"
    using trace_read_cached by blast
  have "filter is_save t = []" "list_all (proper_save data) t" "list_all (\<lambda>i. \<not> is_get i) t"
    using t(2) by (auto simp: list_all_iff filter_empty_conv is_save_def proper_save_def split: trace_item.splits)
  moreover obtain u where "trace st' = trace ?st1 @ u" "list_all (\<lambda>i. \<not> is_get i) u"
      "length (filter is_save u) \<le> 1" "list_all (proper_save data) u"
    using assms unfolding traffic_def by blast
  ultimately show ?thesis using t(1) by (intro exI [of _ "t @ u"]) simp
qed

section \<open>Which rule decides for an entity\<close>

text \<open>Without any assumption on the matchers: of the enabled and not excepted rules of an entity
  the first one, the claimant, is asked, and its answer decides for all of them.  Cached
  answers come before that, and answers shared by a flight before the claimant's.\<close>

definition candidate :: "ctx \<Rightarrow> bytes \<Rightarrow> Rule \<Rightarrow> bool" where
  "candidate c data r \<longleftrightarrow> \<not> Disable r \<and> \<not> isException c data (Exceptions r)"

definition claimant :: "ctx \<Rightarrow> bytes \<Rightarrow> Rule list \<Rightarrow> Entity \<Rightarrow> Rule option" where
  "claimant c data rules e = find (\<lambda>r. candidate c data r \<and> rule_entity r = e) rules"

definition decided :: "ctx \<Rightarrow> bytes \<Rightarrow> Rule list \<Rightarrow> results \<Rightarrow> results \<Rightarrow> Rule \<Rightarrow> bool" where
  "decided c data rules cached shared r \<longleftrightarrow>
     (case map_of cached (rule_entity r) of
        Some b \<Rightarrow> b \<and> \<not> Disable r
      | None \<Rightarrow> candidate c data r \<and>
          (case map_of shared (rule_entity r) of
             Some b \<Rightarrow> b
           | None \<Rightarrow> (case claimant c data rules (rule_entity r) of
                       Some q \<Rightarrow> rule_match q c data | None \<Rightarrow> False)))"

text \<open>What a completed flight adds to the answers.\<close>

definition shared_results :: "bool \<Rightarrow> flight \<Rightarrow> results" where
  "shared_results coal f =
     (if coal \<and> f \<noteq> Leads then (case shared_value f of None \<Rightarrow> [] | Some m \<Rightarrow> m) else [])"

lemma find_missing:
  "find (\<lambda>m. me_entity m = e) (snd (classify_loop c data cached rules seen)) =
     (if map_of cached e \<noteq> None \<or> e \<in> set seen then None
      else map_option (\<lambda>r. \<lparr>me_entity = e, me_rule = r\<rparr>) (claimant c data rules e))"
  by (induction rules arbitrary: seen)
    (auto simp: claimant_def candidate_def Let_def case_prod_beta split: option.splits)

lemma missing_distinct:
  "distinct (map me_entity (snd (classify_loop c data cached rules seen)))
   \<and> set seen \<inter> me_entity ` set (snd (classify_loop c data cached rules seen)) = {}"
proof (induction rules arbitrary: seen)
  case (Cons r rules)
  show ?case
    using Cons.IH [of seen] Cons.IH [of "rule_entity r # seen"]
    by (auto simp: Let_def case_prod_beta split: option.splits)
qed simp

lemma in_order_pass_find:
  "in_order_pass (fst (classify_loop c data cached rules seen)) ev =
     find (\<lambda>r. case map_of cached (rule_entity r) of
             Some b \<Rightarrow> b \<and> \<not> Disable r
           | None \<Rightarrow> candidate c data r \<and> map_of ev (rule_entity r) = Some True) rules"
  by (induction rules arbitrary: seen) (auto simp: candidate_def Let_def case_prod_beta split: option.splits)

lemma find_rev_distinct:
  assumes "distinct (map f xs)"
  shows "find (\<lambda>x. f x = e) (rev xs) = find (\<lambda>x. f x = e) xs"
proof (cases "find (\<lambda>x. f x = e) xs")
  case None
  then have "find (\<lambda>x. f x = e) (rev xs) = None" by (simp add: find_None_iff)
  with None show ?thesis by simp
next
  case (Some x)
  then have x: "x \<in> set xs" "f x = e" by (auto simp: find_Some_iff)
  then obtain y where y: "find (\<lambda>x. f x = e) (rev xs) = Some y"
    by (cases "find (\<lambda>x. f x = e) (rev xs)") (auto simp: find_None_iff)
  then have "y \<in> set (rev xs)" "f y = e" by (auto simp: find_Some_iff simp del: set_rev)
  then have "y \<in> set xs" "f y = e" by simp_all
  then have "y = x" using assms x by (auto simp: distinct_map inj_on_def)
  with Some y show ?thesis by simp
qed

lemma map_of_matchMissing:
  assumes "distinct (map me_entity ms)"
  shows "map_of (matchMissing c data ms) e = map_option (\<lambda>m. rule_match (me_rule m) c data) (find (\<lambda>m. me_entity m = e) ms)"
  unfolding matchMissing_def map_of_matchMissing_step find_rev_distinct [OF assms]
  by (simp split: option.split)

lemma map_of_maps_Copy:
  "distinct (map fst src) \<Longrightarrow> map_of (maps_Copy dst src) = map_of dst ++ map_of src"
proof (induction src rule: rev_induct)
  case (snoc p src)
  obtain k v where p: "p = (k, v)" by (cases p)
  with snoc.prems have "map_of src k = None" by (auto simp: map_of_eq_None_iff)
  with snoc p show ?case
    by (auto simp: maps_Copy_def update_conv' map_add_def fun_eq_iff split: option.split)
qed (simp add: maps_Copy_def)

lemma distinct_matchMissing: "distinct (map fst (matchMissing c data ms))"
  unfolding matchMissing_def by (induction ms rule: rev_induct) (simp_all add: distinct_update)

lemma find_filter_entity:
  "find (\<lambda>m. me_entity m = e) (filter (\<lambda>m. P (me_entity m)) ms) = (if P e then find (\<lambda>m. me_entity m = e) ms else None)"
  by (induction ms) auto

text \<open>The answers after the flight: the shared ones, then those of the missing set.\<close>

lemma finish_residual_map:
  assumes "distinct (map me_entity ms)" "distinct (map fst m)"
  shows "map_of (fst (finish_residual store c data ms m st)) e =
     (case map_of m e of Some b \<Rightarrow> Some b
      | None \<Rightarrow> map_option (\<lambda>x. rule_match (me_rule x) c data) (find (\<lambda>x. me_entity x = e) ms))"
proof -
  have r: "map_of (matchMissing c data (residual_of m ms)) e =
      (if map_of m e = None then map_option (\<lambda>x. rule_match (me_rule x) c data) (find (\<lambda>x. me_entity x = e) ms) else None)"
    using assms(1) find_filter_entity [of e "\<lambda>x. map_of m x = None" ms]
    by (simp add: map_of_matchMissing residual_of_def distinct_map_filter)
  have m: "map_of (maps_Copy [] m) = map_of m" using map_of_maps_Copy [OF assms(2), of "[]"] by simp
  show ?thesis
  proof (cases "residual_of m ms = []")
    case True
    then have "map_of m e \<noteq> None \<or> find (\<lambda>x. me_entity x = e) ms = None"
      by (auto simp: residual_of_def filter_empty_conv find_None_iff)
    with True show ?thesis by (auto simp: finish_residual_def split: option.split)
  next
    case False
    then show ?thesis
      by (simp add: finish_residual_def case_prod_beta Let_def map_of_maps_Copy distinct_matchMissing m r
          map_add_def split: option.split del: map_of_eq_None_iff)
  qed
qed

lemma evaluateMissing_map:
  assumes "distinct (map me_entity ms)" "completes coal f" "distinct (map fst (shared_results coal f))"
  shows "map_of (fst (evaluateMissing store coal f c data ms st)) e =
     (case map_of (shared_results coal f) e of Some b \<Rightarrow> Some b
      | None \<Rightarrow> map_option (\<lambda>x. rule_match (me_rule x) c data) (find (\<lambda>x. me_entity x = e) ms))"
proof (cases "coal \<and> f \<noteq> Leads")
  case True
  then obtain m where m: "shared_value f = Some m" using assms(2) by (auto simp: completes_def)
  then obtain err where "f = Waits (MapValue (Some m)) err"
    by (auto simp: shared_value_def split: flight.splits any_value.splits)
  then have "doToken coal f k fn s = (Some m, err, s)" for k fn and s :: "'a run_state"
    using True by (simp add: doToken_def single_doToken_def doShared_def)
  then show ?thesis
    using assms(3) True m finish_residual_map [OF assms(1), of m]
    by (simp add: evaluateMissing_def shared_results_def)
next
  case False
  then have "doToken coal f k fn s = fn s" for k fn and s :: "'a run_state" by (rule doToken_leads)
  moreover have "shared_results coal f = []" using False by (auto simp: shared_results_def)
  ultimately show ?thesis
    using assms(1)
    by (simp add: evaluateMissing_def leader_computation_def case_prod_beta Let_def finish_residual_def
        leader_no_residual map_of_matchMissing)
qed

lemma claimed: "r \<in> set rules \<Longrightarrow> candidate c data r \<Longrightarrow> claimant c data rules (rule_entity r) \<noteq> None"
  by (auto simp: claimant_def find_None_iff)

section \<open>Properties\<close>

text \<open>C5: With a cache that keeps its contract and holds only true negative answers, with rules of
  which those of the same entity agree on every token, and in a flight that completes (with
  the run's own computation or with a shared one whose answers are true), a run does not
  panic, returns the first enabled rule, in rule order, without a matching exception and
  with a matching matcher, and leaves the cache with only true negative answers.  Cache
  failures do not change the answer.\<close>

theorem serial_first_match:
  assumes "cache_store store content"
    and "cache_store.negatives_only content verdict (cache_state st)"
    and "verdicts_agree verdict c rules"
    and "completes coal f"
    and "\<And>m. shared_value f = Some m \<Longrightarrow> sound_results verdict data m"
  shows "\<exists>st'. Process \<lparr>sr_cache = Some store, sr_coalescing = coal\<rparr> f c rules data st
      = Inr (first_match c rules data, st') \<and> cache_store.negatives_only content verdict (cache_state st')"
  using cache_store.Process_refines [OF assms] .

theorem serial_first_match_witness:
  "\<exists>st'. Process \<lparr>sr_cache = Some NoopRuleMatchingCache, sr_coalescing = True\<rparr>
       (Waits (MapValue (Some [(EntityEmail, True)])) None) background default_rules (str ''a@b.co'')
       \<lparr>cache_state = (), trace = []\<rparr>
      = Inr (Some DefaultEmailRule, st')"
proof -
  define d where "d = str ''a@b.co''"
  let ?v = "rule_verdict background default_rules"
  have m: "\<not> MatchCPF d" "\<not> MatchCNPJ d" "\<not> MatchCNPJV2 d" "MatchEmailV2 d"
    unfolding d_def by code_simp+
  have fm: "first_match background default_rules d = Some DefaultEmailRule"
    by (simp add: first_match_def default_rules_def default_applies m)
  have "?v EntityEmail d"
    using default_applies(3) [of background d] m(4)
    by (simp add: rule_verdict_def default_rules_def default_rule_defs as_Matcher_def matcher_defs
        entity_defs applies_def)
  then have "\<exists>st'. Process \<lparr>sr_cache = Some NoopRuleMatchingCache, sr_coalescing = True\<rparr>
       (Waits (MapValue (Some [(EntityEmail, True)])) None) background default_rules d
       \<lparr>cache_state = (), trace = []\<rparr>
      = Inr (first_match background default_rules d, st')
      \<and> cache_store.negatives_only (\<lambda>w d e. None) ?v (cache_state st')"
    by (intro serial_first_match)
      (auto simp: noop.cache_store_axioms noop.negatives_only_def
        distinct_entities_agree default_rules_consistent completes_def shared_value_def sound_results_def)
  then show ?thesis using fm unfolding d_def by auto
qed

text \<open>C28: Whatever the cache does and however the flight ends, a run reads the cache exactly once
  and first, saves at most one batch, and a saved batch is for the run's token, is not
  empty and holds negative answers only.\<close>

theorem serial_cache_traffic:
  assumes "Process s f c rules data st = Inr (r, st')"
  shows "\<exists>t. trace st' = trace st @ GotMatches data # t \<and> list_all (\<lambda>i. \<not> is_get i) t
     \<and> length (filter is_save t) \<le> 1 \<and> list_all (proper_save data) t"
proof -
  obtain store where store: "sr_cache s = Some store"
    using assms by (auto simp: Process_def split: option.splits)
  let ?st1 = "snd (read_cached store c data st)"
  have "st' = ?st1 \<or> (\<exists>ms. st' = snd (evaluateMissing store (sr_coalescing s) f c data ms ?st1))"
    using assms store by (auto simp: Process_def case_prod_beta Let_def split: if_splits)
  then have tr: "traffic data 1 ?st1 st'"
    using traffic_evaluate traffic_refl by blast
  show ?thesis by (rule traffic_after_read [OF tr])
qed

theorem serial_cache_traffic_witness:
  "\<exists>st' t. Process \<lparr>sr_cache = Some NoopRuleMatchingCache, sr_coalescing = False\<rparr>
        Leads background [DefaultEmailRule] (str ''x'') \<lparr>cache_state = (), trace = []\<rparr> = Inr (None, st')
     \<and> trace st' = GotMatches (str ''x'') # t \<and> length (filter is_save t) \<le> 1
     \<and> SavedMatches (str ''x'') [(EntityEmail, False)] \<in> set t"
proof -
  define d where "d = str ''x''"
  have "\<not> MatchEmailV2 d" unfolding d_def by code_simp
  then have rule: "\<not> rule_match DefaultEmailRule background d" "\<not> Disable DefaultEmailRule"
      "Exceptions DefaultEmailRule = []" "rule_entity DefaultEmailRule = EntityEmail"
    using default_applies(3) [of background d]
    by (auto simp: applies_def default_rule_defs as_Matcher_def matcher_defs entity_defs)
  let ?st = "\<lparr>cache_state = (), trace = [GotMatches d, SavedMatches d [(EntityEmail, False)]]\<rparr>"
  have run: "Process \<lparr>sr_cache = Some NoopRuleMatchingCache, sr_coalescing = False\<rparr>
        Leads background [DefaultEmailRule] d \<lparr>cache_state = (), trace = []\<rparr> = Inr (None, ?st)"
    by (simp add: Process_def read_cached_def call_GetMatches_def NoopRuleMatchingCache_def record_item_def
        classifyRules_def rule evaluateMissing_def doToken_def disabled_doToken_def leader_computation_def
        matchMissing_def saveNegatives_def call_SaveMatches_def log_err_def finish_residual_def residual_of_def Let_def)
  from serial_cache_traffic [OF this] run show ?thesis unfolding d_def by auto
qed

text \<open>A run whose context ends while it waits for a flight reports no match when nothing is
  cached, whatever the rules say: the token passes through unchanged.\<close>

lemma serial_cancelled_reports_nothing:
  "\<exists>st'. Process \<lparr>sr_cache = Some NoopRuleMatchingCache, sr_coalescing = True\<rparr> (CtxDone leads) c rules data (st :: 'w run_state)
     = Inr (None, st')"
proof -
  have "in_order_pass (fst (classify_loop c data [] rules queued)) [] = None" for queued
    by (induction rules arbitrary: queued) (auto simp: Let_def case_prod_beta)
  moreover have "read_cached NoopRuleMatchingCache c data st = ([], record_item (GotMatches data) st)"
    by (simp add: read_cached_def call_GetMatches_def NoopRuleMatchingCache_def)
  moreover have "fst (evaluateMissing (NoopRuleMatchingCache :: 'w CacheStore) True (CtxDone leads) c data ms st1) = []" for ms st1
    by (simp add: evaluateMissing_def doToken_def single_doToken_def doShared_def)
  ultimately show ?thesis
    by (simp add: Process_def classifyRules_def case_prod_beta Let_def)
qed

text \<open>C6: Whatever the store and the rules: a run that completes its flight reports the first rule,
  in rule order, that is decided for: a cached answer decides for an enabled rule; without
  one, an enabled rule that is not excepted is decided by the answer its flight shares for
  the entity, and otherwise by the matcher of the first such rule with the entity.  Rules
  of one entity therefore hide each other (the pre-built IP matchers share one).\<close>

theorem serial_decision:
  assumes "sr_cache s = Some store" "completes (sr_coalescing s) f"
    and "distinct (map fst (shared_results (sr_coalescing s) f))"
  shows "\<exists>st'. Process s f c rules data st =
     Inr (find (decided c data rules (fst (read_cached store c data st)) (shared_results (sr_coalescing s) f)) rules, st')"
proof -
  obtain cached st1 where rc: "read_cached store c data st = (cached, st1)" by fastforce
  obtain views ms where cl: "classify_loop c data cached rules [] = (views, ms)" by fastforce
  let ?coal = "sr_coalescing s"
  let ?sh = "shared_results ?coal f"
  obtain ev st2 where ev: "(if length ms > 0 then evaluateMissing store ?coal f c data ms st1 else ([], st1)) = (ev, st2)"
    by fastforce
  have ms: "find (\<lambda>m. me_entity m = e) ms = (if map_of cached e \<noteq> None then None
      else map_option (\<lambda>r. \<lparr>me_entity = e, me_rule = r\<rparr>) (claimant c data rules e))" for e
    using find_missing [of e c data cached rules "[]"] cl by simp
  have dist: "distinct (map me_entity ms)" using missing_distinct [of c data cached rules "[]"] cl by simp
  have evm: "map_of ev e = (case map_of ?sh e of Some b \<Rightarrow> Some b
      | None \<Rightarrow> map_option (\<lambda>x. rule_match (me_rule x) c data) (find (\<lambda>x. me_entity x = e) ms))" if "ms \<noteq> []" for e
    using evaluateMissing_map [OF dist assms(2,3), of store c data st1 e] ev that by simp
  have "in_order_pass views ev = find (decided c data rules cached ?sh) rules"
  proof -
    have "(case map_of cached (rule_entity r) of Some b \<Rightarrow> b \<and> \<not> Disable r
           | None \<Rightarrow> candidate c data r \<and> map_of ev (rule_entity r) = Some True)
        \<longleftrightarrow> decided c data rules cached ?sh r" if "r \<in> set rules" for r
      using claimed [OF that, of c data] ms [of "rule_entity r"] evm [of "rule_entity r"]
      by (cases "ms = []") (auto simp: decided_def split: option.splits)
    then have "find (\<lambda>r. case map_of cached (rule_entity r) of Some b \<Rightarrow> b \<and> \<not> Disable r
           | None \<Rightarrow> candidate c data r \<and> map_of ev (rule_entity r) = Some True) rules
        = find (decided c data rules cached ?sh) rules" by (intro find_cong refl)
    then show ?thesis using in_order_pass_find [of c data cached rules "[]" ev] cl by simp
  qed
  then show ?thesis
    by (simp only: Process_def classifyRules_def assms(1) option.case rc cl ev Let_def prod.case fst_conv) blast
qed

theorem serial_decision_witness:
  "\<exists>st'. Process \<lparr>sr_cache = Some NoopRuleMatchingCache, sr_coalescing = False\<rparr> Leads background
       [DefaultIPRule\<lparr>rule_Matcher := as_Matcher IPv4Matcher\<rparr>, DefaultIPRule\<lparr>rule_Matcher := as_Matcher IPMatcher\<rparr>]
       (str ''::'') \<lparr>cache_state = (), trace = []\<rparr> = Inr (None, st')
     \<and> fst (matcher_Match IPMatcher background (str ''::''))"
proof -
  define d where "d = str ''::''"
  have "\<not> MatchIPV4 d \<and> MatchIP d" unfolding d_def by code_simp
  then have m: "\<not> fst (matcher_Match IPv4Matcher background d)" "fst (matcher_Match IPMatcher background d)"
    by (simp_all add: matcher_Match_def ipv4_c.Match_lang ip_c.Match_lang)
  let ?r4 = "DefaultIPRule\<lparr>rule_Matcher := as_Matcher IPv4Matcher\<rparr>" and ?r = "DefaultIPRule\<lparr>rule_Matcher := as_Matcher IPMatcher\<rparr>"
  have "find (decided background d [?r4, ?r] [] []) [?r4, ?r] = None"
    using m(1) by (simp add: decided_def claimant_def candidate_def DefaultIPRule_def as_Matcher_def IPv4Matcher_def IPMatcher_def)
  moreover have "fst (read_cached NoopRuleMatchingCache background d \<lparr>cache_state = (), trace = []\<rparr>) = []"
    by (simp add: read_cached_def call_GetMatches_def NoopRuleMatchingCache_def)
  ultimately have "\<exists>st'. Process \<lparr>sr_cache = Some NoopRuleMatchingCache, sr_coalescing = False\<rparr> Leads background [?r4, ?r] d
      \<lparr>cache_state = (), trace = []\<rparr> = Inr (None, st')"
    using serial_decision [of "\<lparr>sr_cache = Some NoopRuleMatchingCache, sr_coalescing = False\<rparr>" NoopRuleMatchingCache Leads
        background "[?r4, ?r]" d "\<lparr>cache_state = (), trace = []\<rparr>"]
    by (simp add: completes_def shared_results_def)
  with m(2) show ?thesis unfolding d_def by blast
qed

end
