(* ===== verification/ByteAnalyzer.thy ===== *)
theory ByteAnalyzer
  imports SerialRunner "HOL-Library.Multiset"
begin

text \<open>
  \<open>src/analyzer/byte_analyzer.go\<close> and \<open>string_analyzer.go\<close>: finding the tokens of an input
  that a rule matches and writing the input with these tokens replaced.  The rule runner
  is an interface: a function from the rules and a token to a rule, on a state of its own.
  The worker pool is that of the vendored third-party library \<open>ants\<close>; what it does during one call is the record
  \<open>WorkerPool\<close>: which submissions it accepts, in which order it runs the accepted tasks,
  and which tasks find the context done.  A task runs as a whole.
\<close>

section \<open>State\<close>

type_synonym 's Process_fun = "ctx \<Rightarrow> Rule list \<Rightarrow> bytes \<Rightarrow> 's \<Rightarrow> (Rule option \<times> 's) result"

record WorkerPool =
  Submit_ok :: "nat \<Rightarrow> bool"
  run_order :: "Token list \<Rightarrow> Token list"
  ctx_done :: "Token \<Rightarrow> bool"

text \<open>\<open>AntsWorkerPool\<close> forwards to the library's pool: whether the n-th task is accepted, and a
  released pool that accepts none.\<close>

definition Submit :: "WorkerPool \<Rightarrow> nat \<Rightarrow> bool" where
  "Submit p n = Submit_ok p n"

definition ReleaseContext :: "WorkerPool \<Rightarrow> WorkerPool" where
  "ReleaseContext p = p\<lparr>Submit_ok := \<lambda>n. False\<rparr>"

text \<open>The interface \<open>RuleRunner\<close>: its two methods on the state of the runner.\<close>

record 's RuleRunner =
  runner_Process :: "'s Process_fun"
  runner_Stop :: "'s \<Rightarrow> 's"

text \<open>A method call on a nil interface panics.\<close>

definition call_Process :: "'s RuleRunner option \<Rightarrow> 's Process_fun" where
  "call_Process runner c rules data s =
     (case runner of None \<Rightarrow> Inl NilDereference | Some r \<Rightarrow> runner_Process r c rules data s)"

lemma call_Process_Some [simp]: "call_Process (Some r) = runner_Process r"
  by (simp add: call_Process_def fun_eq_iff)

record 's ByteAnalyzer =
  ruleRunner :: "'s RuleRunner option"
  pool :: "WorkerPool option"

definition NewByteAnalyzer :: "'s RuleRunner option \<Rightarrow> 's ByteAnalyzer" where
  "NewByteAnalyzer runner = \<lparr>ruleRunner = runner, pool = None\<rparr>"

record AnonymizationDetails =
  HasFindings :: bool
  DetectedEntities :: "Entity list"
  AnonymizedEntities :: "Entity list"

definition no_details :: AnonymizationDetails where
  "no_details = \<lparr>HasFindings = False, DetectedEntities = [], AnonymizedEntities = []\<rparr>"

record anonymizationAction =
  act_token :: Token
  act_settings :: RuleSettings

text \<open>What the two token loops share: the actions, the two entity sets, the state of the runner
  and a panic that stops the loop.\<close>

record 's scan_state =
  actions :: "anonymizationAction list"
  detectedEntities :: "Entity list"
  anonymizedEntities :: "Entity list"
  runner_state :: 's
  panicked :: "go_panic option"

section \<open>Writing the output\<close>

text \<open>The calls of \<open>writeToOutput\<close> for one action.  Write errors are only logged, so the bytes
  to be written do not depend on the writer; a panic ends the sequence.\<close>

definition strategy_writes :: "bytes \<Rightarrow> anonymizationAction \<Rightarrow> bytes list \<times> go_panic option" where
  "strategy_writes content a =
     (let token = act_token a; settings = act_settings a in
      if Strategy settings = REDACT then
        (case Redact settings of
           None \<Rightarrow> ([], Some NilDereference)
         | Some r \<Rightarrow> ([Placeholder r], None))
      else if Strategy settings = MASK then
        (case Mask settings of
           None \<Rightarrow> ([], Some NilDereference)
         | Some m \<Rightarrow>
             let n0 = (if MaxSize m \<le> 0 then 1 else MaxSize m);
                 n = (if n0 > int (Token_Len token) then int (Token_Len token) else n0);
                 masked = concat (replicate (nat n) (MaskingChar m))
             in case slice content (Start token + nat n) (End token) of
                  Inl p \<Rightarrow> ([masked], Some p)
                | Inr tail \<Rightarrow> ([masked, tail], None))
      else ([], None))"

fun apply_loop :: "bytes \<Rightarrow> nat \<Rightarrow> anonymizationAction list \<Rightarrow> bytes list \<times> go_panic option" where
  "apply_loop content lastPos [] =
     (case slice content lastPos (length content) of
        Inl p \<Rightarrow> ([], Some p)
      | Inr tail \<Rightarrow> ([tail], None))"
| "apply_loop content lastPos (a # as) =
     (case slice content lastPos (Start (act_token a)) of
        Inl p \<Rightarrow> ([], Some p)
      | Inr before \<Rightarrow>
          (case strategy_writes content a of
             (ws, Some p) \<Rightarrow> (before # ws, Some p)
           | (ws, None) \<Rightarrow>
               let (rest, p) = apply_loop content (End (act_token a)) as
               in (before # ws @ rest, p)))"

definition applyActions :: "bytes \<Rightarrow> anonymizationAction list \<Rightarrow> bytes list \<times> go_panic option" where
  "applyActions content as = apply_loop content 0 as"

text \<open>The writer is the caller's: \<open>write\<close> says whether a call failed.  The second component
  counts the warnings logged.\<close>

definition writeToOutput :: "(bytes \<Rightarrow> 'o \<Rightarrow> bool \<times> 'o) \<Rightarrow> bytes \<Rightarrow> 'o \<times> nat \<Rightarrow> 'o \<times> nat" where
  "writeToOutput write data ow =
     (let (failed, out) = write data (fst ow) in (out, if failed then snd ow + 1 else snd ow))"

section \<open>Scanning\<close>

definition map_insert :: "Entity \<Rightarrow> Entity list \<Rightarrow> Entity list" where
  "map_insert e es = (if e \<in> set es then es else es @ [e])"

definition add_finding :: "Token \<Rightarrow> Rule \<Rightarrow> 's scan_state \<Rightarrow> 's scan_state" where
  "add_finding tok r st = st\<lparr>actions := actions st @ [\<lparr>act_token = tok, act_settings = Settings r\<rparr>],
     detectedEntities := map_insert (rule_entity r) (detectedEntities st),
     anonymizedEntities := map_insert (rule_entity r) (anonymizedEntities st)\<rparr>"

definition token_body :: "'s Process_fun \<Rightarrow> ctx \<Rightarrow> Rule list \<Rightarrow> Token \<Rightarrow> 's scan_state \<Rightarrow> bool \<times> 's scan_state" where
  "token_body proc c rules tok st =
     (case proc c rules (Content tok) (runner_state st) of
        Inl p \<Rightarrow> (False, st\<lparr>panicked := Some p\<rparr>)
      | Inr (None, s') \<Rightarrow> (True, st\<lparr>runner_state := s'\<rparr>)
      | Inr (Some r, s') \<Rightarrow> (True, add_finding tok r (st\<lparr>runner_state := s'\<rparr>)))"

definition anonymizeSequential :: "'s Process_fun \<Rightarrow> ctx \<Rightarrow> Rule list \<Rightarrow> bytes \<Rightarrow> 's scan_state \<Rightarrow> 's scan_state" where
  "anonymizeSequential proc c rules content st = TokenIterator content (token_body proc c rules) st"

text \<open>A task of the pool.  The pool recovers a panic of the task.\<close>

definition task_body :: "WorkerPool \<Rightarrow> 's Process_fun \<Rightarrow> ctx \<Rightarrow> Rule list \<Rightarrow> 's scan_state \<Rightarrow> Token \<Rightarrow> 's scan_state" where
  "task_body p proc c rules st tok =
     (if ctx_done p tok then st
      else case proc c rules (Content tok) (runner_state st) of
        Inl e \<Rightarrow> st
      | Inr (None, s') \<Rightarrow> st\<lparr>runner_state := s'\<rparr>
      | Inr (Some r, s') \<Rightarrow> add_finding tok r (st\<lparr>runner_state := s'\<rparr>))"

definition submit_all :: "WorkerPool \<Rightarrow> bytes \<Rightarrow> Token list" where
  "submit_all p content =
     snd (TokenIterator content
       (\<lambda>tok (n, acc). if Submit p n then (True, (n + 1, acc @ [tok])) else (False, (n, acc))) (0, []))"

definition anonymizeConcurrent :: "WorkerPool \<Rightarrow> 's Process_fun \<Rightarrow> ctx \<Rightarrow> Rule list \<Rightarrow> bytes \<Rightarrow> 's scan_state \<Rightarrow> 's scan_state" where
  "anonymizeConcurrent p proc c rules content st =
     (let st' = foldl (task_body p proc c rules) st (run_order p (submit_all p content))
      in st'\<lparr>actions := sort_key (\<lambda>a. Start (act_token a)) (actions st')\<rparr>)"

section \<open>Anonymize\<close>

text \<open>The order of a slice built from a Go map is not specified; here it is the order of
  insertion, and the properties speak of its set.\<close>

definition entityMapToSlice :: "Entity list \<Rightarrow> Entity list" where
  "entityMapToSlice m = m"

definition initial_scan :: "'s \<Rightarrow> 's scan_state" where
  "initial_scan s = \<lparr>actions = [], detectedEntities = [], anonymizedEntities = [], runner_state = s, panicked = None\<rparr>"

text \<open>The bytes of the writes in order, the details or a panic, and the runner's state.  The
  logger and the fresh work id that the context receives are arguments.\<close>

definition Anonymize :: "'s ByteAnalyzer \<Rightarrow> string \<Rightarrow> string \<Rightarrow> ctx \<Rightarrow> Rule list \<Rightarrow> bytes \<Rightarrow> 's \<Rightarrow> bytes list \<times> AnonymizationDetails result \<times> 's" where
  "Anonymize t logger uuid c0 rules data s =
     (let c = WithWorkID (WithLogger c0 logger) uuid in
      if length data = 0 then ([], Inr no_details, s)
      else if length rules = 0 then ([], Inr no_details, s)
      else
        let st = (case pool t of
                    Some p \<Rightarrow> anonymizeConcurrent p (call_Process (ruleRunner t)) c rules data (initial_scan s)
                  | None \<Rightarrow> anonymizeSequential (call_Process (ruleRunner t)) c rules data (initial_scan s))
        in case panicked st of
             Some p \<Rightarrow> ([], Inl p, runner_state st)
           | None \<Rightarrow>
               let hasFindings = length (actions st) > 0;
                   (ws, p) = (if hasFindings then applyActions data (actions st) else ([data], None))
               in (ws,
                   case p of
                     Some e \<Rightarrow> Inl e
                   | None \<Rightarrow> Inr \<lparr>HasFindings = hasFindings,
                       DetectedEntities = entityMapToSlice (detectedEntities st),
                       AnonymizedEntities = entityMapToSlice (anonymizedEntities st)\<rparr>,
                   runner_state st))"

text \<open>The same with the writes performed on a writer.\<close>

definition Anonymize_to :: "(bytes \<Rightarrow> 'o \<Rightarrow> bool \<times> 'o) \<Rightarrow> 's ByteAnalyzer \<Rightarrow> string \<Rightarrow> string \<Rightarrow> ctx \<Rightarrow> Rule list \<Rightarrow> 'o \<Rightarrow> bytes \<Rightarrow> 's \<Rightarrow> ('o \<times> nat) \<times> AnonymizationDetails result \<times> 's" where
  "Anonymize_to write t logger uuid c rules out data s =
     (let (ws, r, s') = Anonymize t logger uuid c rules data s
      in (fold (writeToOutput write) ws (out, 0), r, s'))"

text \<open>\<open>Stop\<close> stops the runner, then closes the pool: later submissions are rejected.\<close>

definition Stop :: "'s ByteAnalyzer \<Rightarrow> 's \<Rightarrow> 's ByteAnalyzer \<times> 's" where
  "Stop t s =
     (let s' = (case ruleRunner t of None \<Rightarrow> s | Some r \<Rightarrow> runner_Stop r s)
      in (case pool t of
            None \<Rightarrow> t
          | Some p \<Rightarrow> t\<lparr>pool := Some (ReleaseContext p)\<rparr>, s'))"

section \<open>Strings\<close>

record 's StringAnalyzer =
  byteAnalyzer :: "'s ByteAnalyzer"

definition NewStringAnalyzer :: "'s RuleRunner option \<Rightarrow> 's StringAnalyzer" where
  "NewStringAnalyzer runner = \<lparr>byteAnalyzer = NewByteAnalyzer runner\<rparr>"

text \<open>A \<open>bytes.Buffer\<close> appends and never fails.\<close>

definition buffer_write :: "bytes \<Rightarrow> bytes \<Rightarrow> bool \<times> bytes" where
  "buffer_write data buf = (False, buf @ data)"

definition StringAnalyzer_Anonymize :: "'s StringAnalyzer \<Rightarrow> string \<Rightarrow> string \<Rightarrow> ctx \<Rightarrow> Rule list \<Rightarrow> bytes \<Rightarrow> 's \<Rightarrow> (bytes \<times> AnonymizationDetails) result \<times> 's" where
  "StringAnalyzer_Anonymize sa logger uuid c rules input s =
     (let (buf, r, s') = Anonymize_to buffer_write (byteAnalyzer sa) logger uuid c rules [] input s
      in (case r of Inl p \<Rightarrow> Inl p | Inr details \<Rightarrow> Inr (fst buf, details), s'))"

definition StringAnalyzer_Stop :: "'s StringAnalyzer \<Rightarrow> 's \<Rightarrow> 's StringAnalyzer \<times> 's" where
  "StringAnalyzer_Stop sa s =
     (let (t, s') = Stop (byteAnalyzer sa) s in (sa\<lparr>byteAnalyzer := t\<rparr>, s'))"

lemma buffer_collects: "fold (writeToOutput buffer_write) ws (buf, n) = (buf @ concat ws, n)"
  by (induction ws arbitrary: buf) (simp_all add: writeToOutput_def buffer_write_def)

section \<open>What the output should be\<close>

text \<open>The text that replaces a token.\<close>

definition mask_count :: "MaskSettings \<Rightarrow> nat \<Rightarrow> nat" where
  "mask_count m len = min len (nat (max 1 (MaxSize m)))"

definition replacement :: "RuleSettings \<Rightarrow> bytes \<Rightarrow> bytes" where
  "replacement settings tok =
     (if Strategy settings = REDACT then Placeholder (the (Redact settings))
      else if Strategy settings = MASK then
        (let m = the (Mask settings); n = mask_count m (length tok)
         in concat (replicate n (MaskingChar m)) @ drop n tok)
      else [])"

text \<open>Settings whose strategy has its parameters.\<close>

definition settings_ok :: "RuleSettings \<Rightarrow> bool" where
  "settings_ok settings \<longleftrightarrow>
     (Strategy settings = REDACT \<longrightarrow> Redact settings \<noteq> None) \<and> (Strategy settings = MASK \<longrightarrow> Mask settings \<noteq> None)"

text \<open>The input with every decided token replaced and everything else, the gaps and the other
  tokens, as it was.\<close>

fun anonymized_text :: "bytes \<Rightarrow> nat \<Rightarrow> (Token \<times> Rule option) list \<Rightarrow> bytes" where
  "anonymized_text content pos [] = drop pos content"
| "anonymized_text content pos ((t, d) # tds) =
     take (Start t - pos) (drop pos content)
     @ (case d of None \<Rightarrow> Content t | Some r \<Rightarrow> replacement (Settings r) (Content t))
     @ anonymized_text content (End t) tds"

definition actions_of :: "(Token \<times> Rule option) list \<Rightarrow> anonymizationAction list" where
  "actions_of tds = concat (map (\<lambda>(t, d). case d of None \<Rightarrow> [] | Some r \<Rightarrow> [\<lparr>act_token = t, act_settings = Settings r\<rparr>]) tds)"

lemma actions_of_simps [simp]:
  "actions_of [] = []"
  "actions_of ((t, None) # tds) = actions_of tds"
  "actions_of ((t, Some r) # tds) = \<lparr>act_token = t, act_settings = Settings r\<rparr> # actions_of tds"
  "actions_of (xs @ ys) = actions_of xs @ actions_of ys"
  by (simp_all add: actions_of_def)

section \<open>Applying actions\<close>

lemma tokens_ok_mem:
  "tokens_ok s pos ts \<Longrightarrow> t \<in> set ts \<Longrightarrow>
     Start t < End t \<and> End t \<le> length s \<and> slice s (Start t) (End t) = Inr (Content t)"
  by (induction s pos ts rule: tokens_ok.induct) auto

lemma strategy_writes_ok:
  assumes "settings_ok stg" "Start t < End t" "End t \<le> length content" "slice content (Start t) (End t) = Inr (Content t)"
  shows "\<exists>ws. strategy_writes content \<lparr>act_token = t, act_settings = stg\<rparr> = (ws, None)
     \<and> concat ws = replacement stg (Content t)"
proof -
  have c: "Content t = take (End t - Start t) (drop (Start t) content)"
    using assms(4) by (auto simp: slice_def split: if_splits)
  have len: "length (Content t) = Token_Len t"
    using assms(2,3) by (simp add: c Token_Len_def)
  consider "Strategy stg = REDACT" | "Strategy stg \<noteq> REDACT" "Strategy stg = MASK" | "Strategy stg \<noteq> REDACT" "Strategy stg \<noteq> MASK"
    by blast
  then show ?thesis
  proof cases
    case 1
    then show ?thesis using assms(1) by (auto simp: strategy_writes_def replacement_def settings_ok_def)
  next
    case 2
    then obtain m where m: "Mask stg = Some m" using assms(1) by (auto simp: settings_ok_def)
    define n where "n = (if (if MaxSize m \<le> 0 then 1 else MaxSize m) > int (Token_Len t) then int (Token_Len t)
        else (if MaxSize m \<le> 0 then 1 else MaxSize m))"
    have n: "nat n = mask_count m (length (Content t))" unfolding len n_def mask_count_def by auto
    have le: "nat n \<le> End t - Start t" unfolding n mask_count_def len Token_Len_def by simp
    have sl: "slice content (Start t + nat n) (End t) = Inr (drop (nat n) (Content t))"
      using le assms(2,3) by (simp add: slice_def c drop_take add.commute)
    have "MASK \<noteq> REDACT" by (simp add: MASK_def REDACT_def)
    then have "strategy_writes content \<lparr>act_token = t, act_settings = stg\<rparr>
        = ([concat (replicate (nat n) (MaskingChar m)), drop (nat n) (Content t)], None)"
      by (simp only: strategy_writes_def Let_def anonymizationAction.simps 2(2) m option.case
          if_False if_True simp_thms n_def [symmetric] sl sum.case)
    with 2 m show ?thesis by (simp add: replacement_def Let_def n)
  next
    case 3
    then show ?thesis by (simp add: strategy_writes_def replacement_def)
  qed
qed

lemma slice_append:
  "pos \<le> q \<Longrightarrow> q \<le> k \<Longrightarrow> k \<le> length s \<Longrightarrow>
     take (k - pos) (drop pos s) = take (q - pos) (drop pos s) @ take (k - q) (drop q s)"
  using take_add [of "q - pos" "k - q" "drop pos s"] by simp

text \<open>Starting at an earlier position only adds the bytes in between.\<close>

lemma apply_loop_earlier:
  assumes "apply_loop content q as = (ws, None)" "pos \<le> q" "q \<le> length content"
    "case as of [] \<Rightarrow> True | a # _ \<Rightarrow> q \<le> Start (act_token a)"
  shows "\<exists>ws'. apply_loop content pos as = (ws', None) \<and> concat ws' = take (q - pos) (drop pos content) @ concat ws"
proof (cases as)
  case Nil
  with assms show ?thesis
    using slice_append [of pos q "length content" content] by (auto simp: slice_def split: sum.splits if_splits)
next
  case (Cons a as')
  with assms obtain before where b: "slice content q (Start (act_token a)) = Inr before"
    by (auto split: sum.splits)
  then have "slice content pos (Start (act_token a)) = Inr (take (q - pos) (drop pos content) @ before)"
    using assms(2,4) Cons slice_append [of pos q "Start (act_token a)" content]
    by (auto simp: slice_def split: if_splits)
  with assms(1) b Cons show ?thesis by (auto simp: Let_def split_def split: prod.splits option.splits)
qed

lemma actions_of_start:
  "tokens_ok content q (map fst tds) \<Longrightarrow> case actions_of tds of [] \<Rightarrow> True | a # _ \<Rightarrow> q \<le> Start (act_token a)"
proof (induction tds arbitrary: q)
  case (Cons td tds)
  obtain t d where td: "td = (t, d)" by fastforce
  show ?case
  proof (cases d)
    case None
    with Cons td have "case actions_of tds of [] \<Rightarrow> True | a # _ \<Rightarrow> End t \<le> Start (act_token a)" by simp
    with Cons.prems td None show ?thesis by (auto split: list.splits)
  qed (use Cons.prems td in simp)
qed simp

lemma tokens_ok_bounds: "tokens_ok content q ts \<Longrightarrow> q \<le> length content"
  by (induction content q ts rule: tokens_ok.induct) auto

lemma apply_loop_text:
  assumes "tokens_ok content pos (map fst tds)" "\<forall>(t, d)\<in>set tds. \<forall>r. d = Some r \<longrightarrow> settings_ok (Settings r)"
  shows "\<exists>ws. apply_loop content pos (actions_of tds) = (ws, None) \<and> concat ws = anonymized_text content pos tds"
  using assms
proof (induction tds arbitrary: pos)
  case Nil
  then show ?case by (simp add: slice_def)
next
  case (Cons td tds)
  obtain t d where td: "td = (t, d)" by fastforce
  have ok: "pos \<le> Start t" "Start t < End t" "End t \<le> length content" "tokens_ok content (End t) (map fst tds)"
    and sl: "slice content (Start t) (End t) = Inr (Content t)"
    using Cons.prems(1) td by simp_all
  obtain ws where ws: "apply_loop content (End t) (actions_of tds) = (ws, None)" "concat ws = anonymized_text content (End t) tds"
    using Cons.IH [OF ok(4)] Cons.prems(2) by auto
  show ?case
  proof (cases d)
    case None
    have "take (End t - pos) (drop pos content) = take (Start t - pos) (drop pos content) @ Content t"
      using slice_append [of pos "Start t" "End t" content] ok sl by (simp add: slice_def split: if_splits)
    with apply_loop_earlier [OF ws(1) _ ok(3) actions_of_start [OF ok(4)], of pos] ok None td ws(2)
    show ?thesis by auto
  next
    case (Some r)
    then have "settings_ok (Settings r)" using Cons.prems(2) td by auto
    from strategy_writes_ok [OF this ok(2,3) sl] obtain us where
      us: "strategy_writes content \<lparr>act_token = t, act_settings = Settings r\<rparr> = (us, None)"
        "concat us = replacement (Settings r) (Content t)" by blast
    have "slice content pos (Start t) = Inr (take (Start t - pos) (drop pos content))"
      using ok by (simp add: slice_def)
    with us ws Some td show ?thesis by simp
  qed
qed

lemma map_insert_set: "set (map_insert e es) = insert e (set es)"
  by (auto simp: map_insert_def)

lemma actions_of_Nil: "actions_of tds = [] \<longleftrightarrow> (\<nexists>t r. (t, Some r) \<in> set tds)"
proof (induction tds)
  case (Cons td tds)
  obtain t d where "td = (t, d)" by fastforce
  with Cons show ?case by (cases d) auto
qed simp

section \<open>The contract of a rule runner\<close>

text \<open>The weaker contract: a run never panics and returns a rule that is allowed for the token.\<close>

locale sound_runner =
  fixes proc :: "'s Process_fun"
    and inv :: "ctx \<Rightarrow> Rule list \<Rightarrow> 's \<Rightarrow> bool"
    and allowed :: "ctx \<Rightarrow> Rule list \<Rightarrow> bytes \<Rightarrow> Rule option \<Rightarrow> bool"
  assumes proc_allowed: "inv c rules s \<Longrightarrow>
    \<exists>r s'. proc c rules d s = Inr (r, s') \<and> allowed c rules d r \<and> inv c rules s'"
begin

definition decisions_ok :: "ctx \<Rightarrow> Rule list \<Rightarrow> (Token \<times> Rule option) list \<Rightarrow> bool" where
  "decisions_ok c rules tds \<longleftrightarrow> (\<forall>(t, d)\<in>set tds. allowed c rules (Content t) d)"

lemma scan_decides:
  assumes "inv c rules (runner_state st)"
  shows "\<exists>tds. map fst tds = ts \<and> decisions_ok c rules tds
     \<and> actions (range_over ts (token_body proc c rules) st) = actions st @ actions_of tds
     \<and> panicked (range_over ts (token_body proc c rules) st) = panicked st
     \<and> inv c rules (runner_state (range_over ts (token_body proc c rules) st))
     \<and> set (detectedEntities (range_over ts (token_body proc c rules) st))
        = set (detectedEntities st) \<union> {rule_entity r | t r. (t, Some r) \<in> set tds}"
  using assms
proof (induction ts arbitrary: st)
  case Nil
  then show ?case by (intro exI [of _ "[]"]) (simp add: decisions_ok_def)
next
  case (Cons t ts)
  obtain r s' where r: "proc c rules (Content t) (runner_state st) = Inr (r, s')"
    "allowed c rules (Content t) r" "inv c rules s'"
    using proc_allowed [OF Cons.prems] by blast
  obtain st' where st': "token_body proc c rules t st = (True, st')" "runner_state st' = s'"
    "panicked st' = panicked st" "actions st' = actions st @ actions_of [(t, r)]"
    "set (detectedEntities st') = set (detectedEntities st) \<union> {rule_entity r' | t' r'. (t', Some r') \<in> set [(t, r)]}"
    using r(1) by (cases r) (auto simp: token_body_def add_finding_def map_insert_set)
  obtain tds where tds: "map fst tds = ts" "decisions_ok c rules tds"
    "actions (range_over ts (token_body proc c rules) st') = actions st' @ actions_of tds"
    "panicked (range_over ts (token_body proc c rules) st') = panicked st'"
    "inv c rules (runner_state (range_over ts (token_body proc c rules) st'))"
    "set (detectedEntities (range_over ts (token_body proc c rules) st'))
        = set (detectedEntities st') \<union> {rule_entity r | t r. (t, Some r) \<in> set tds}"
    using Cons.IH [of st'] r(3) st'(2) by blast
  show ?case
  proof (intro exI [of _ "(t, r) # tds"] conjI)
    show "actions (range_over (t # ts) (token_body proc c rules) st) = actions st @ actions_of ((t, r) # tds)"
      using st' tds(3) by (cases r) simp_all
    show "decisions_ok c rules ((t, r) # tds)" using r(2) tds(2) by (simp add: decisions_ok_def)
  qed (use st' tds in auto)
qed

end

text \<open>The full contract: the returned rule is a function of the rules and the token.\<close>

locale rule_runner =
  fixes proc :: "'s Process_fun"
    and inv :: "ctx \<Rightarrow> Rule list \<Rightarrow> 's \<Rightarrow> bool"
    and decide :: "ctx \<Rightarrow> Rule list \<Rightarrow> bytes \<Rightarrow> Rule option"
  assumes proc_decides: "inv c rules s \<Longrightarrow>
    \<exists>s'. proc c rules d s = Inr (decide c rules d, s') \<and> inv c rules s'"

sublocale rule_runner \<subseteq> sound_runner proc inv "\<lambda>c rules d r. r = decide c rules d"
  by unfold_locales (use proc_decides in blast)

definition decide_all :: "(bytes \<Rightarrow> Rule option) \<Rightarrow> Token list \<Rightarrow> (Token \<times> Rule option) list" where
  "decide_all f ts = map (\<lambda>t. (t, f (Content t))) ts"

lemma fst_decide_all [simp]: "map fst (decide_all f ts) = ts"
  by (simp add: decide_all_def comp_def)

lemma decide_all_findings: "(t, Some r) \<in> set (decide_all f ts) \<longleftrightarrow> t \<in> set ts \<and> f (Content t) = Some r"
  by (auto simp: decide_all_def)

lemma decided_eq: "map fst tds = ts \<Longrightarrow> \<forall>(t, d)\<in>set tds. d = f (Content t) \<Longrightarrow> tds = decide_all f ts"
  by (induction tds arbitrary: ts) (auto simp: decide_all_def)

section \<open>Concurrent scanning\<close>

definition orderly :: "WorkerPool \<Rightarrow> bytes \<Rightarrow> bool" where
  "orderly p content \<longleftrightarrow> (\<forall>n. Submit_ok p n) \<and> mset (run_order p (tokens content)) = mset (tokens content)
     \<and> (\<forall>t\<in>set (tokens content). \<not> ctx_done p t)"

lemma submit_loop_all:
  "(\<And>n. Submit_ok p n) \<Longrightarrow>
     range_over ts (\<lambda>tok (n, acc). if Submit p n then (True, (n + 1, acc @ [tok])) else (False, (n, acc))) (k, acc)
       = (k + length ts, acc @ ts)"
  by (induction ts arbitrary: k acc) (simp_all add: Submit_def)

lemma submit_all_orderly:
  assumes "\<And>n. Submit_ok p n"
  shows "submit_all p content = tokens content"
  unfolding submit_all_def TokenIterator_range by (subst submit_loop_all) (simp_all add: assms)

lemma submit_all_closed: "\<not> Submit_ok p 0 \<Longrightarrow> submit_all p content = []"
  unfolding submit_all_def TokenIterator_range by (cases "tokens content") (simp_all add: Submit_def)

text \<open>Tokens are strictly ordered by position, so a list of actions on them has one sorted
  arrangement.\<close>

lemma tokens_ok_sorted: "tokens_ok s pos ts \<Longrightarrow> sorted_wrt (<) (map Start ts) \<and> (\<forall>t\<in>set ts. pos \<le> Start t)"
proof (induction s pos ts rule: tokens_ok.induct)
  case (2 s pos t ts)
  then show ?case by fastforce
qed simp

lemma tokens_sorted: "sorted_wrt (<) (map Start (tokens s))"
  using tokens_ok_sorted tokens_from_ok [OF tokens_from_tokens] by blast

lemma starts_of_actions:
  "sorted_wrt (<) (map Start (map fst tds)) \<Longrightarrow> sorted_wrt (<) (map (\<lambda>a. Start (act_token a)) (actions_of tds))"
proof (induction tds)
  case (Cons td tds)
  obtain t d where td: "td = (t, d)" by fastforce
  have "Start (act_token a) \<in> Start ` fst ` set tds" if "a \<in> set (actions_of tds)" for a
    using that by (force simp: actions_of_def split: option.splits)
  then have "Start t < Start (act_token a)" if "a \<in> set (actions_of tds)" for a
    using that Cons.prems td by fastforce
  with Cons td show ?case by (cases d) auto
qed simp

lemma mset_actions: "mset (actions_of tds) = sum_mset (image_mset (\<lambda>td. mset (actions_of [td])) (mset tds))"
proof (induction tds)
  case (Cons td tds)
  have "actions_of (td # tds) = actions_of [td] @ actions_of tds" using actions_of_simps(4) [of "[td]" tds] by simp
  with Cons show ?case by simp
qed simp

lemma sort_actions:
  assumes "mset tds' = mset tds" "sorted_wrt (<) (map Start (map fst tds))"
  shows "sort_key (\<lambda>a. Start (act_token a)) (actions_of tds') = actions_of tds"
proof -
  let ?k = "\<lambda>a. Start (act_token a)" and ?A = "actions_of tds" and ?A' = "actions_of tds'"
  have s: "sorted_wrt (<) (map ?k ?A)" using starts_of_actions [OF assms(2)] .
  have m: "mset ?A' = mset ?A" by (simp only: mset_actions [of tds] mset_actions [of tds'] assms(1))
  have d: "distinct (map ?k ?A)" "sorted (map ?k ?A)" using s by (auto simp: strict_sorted_iff)
  have "filter (\<lambda>x. ?k a = ?k x) xs = replicate (count (mset xs) a) a" if "mset xs = mset ?A" "a \<in> set ?A" for xs a
  proof -
    have "x \<in> set xs \<Longrightarrow> ?k a = ?k x \<longleftrightarrow> x = a" for x
      using d(1) that mset_eq_setD [OF that(1)] by (auto simp: distinct_map dest: inj_onD)
    then have "filter (\<lambda>x. ?k a = ?k x) xs = filter (\<lambda>x. x = a) xs" by (intro filter_cong refl)
    also have "\<dots> = replicate (count (mset xs) a) a"
      by (induction xs) simp_all
    finally show ?thesis .
  qed
  with m have "filter (\<lambda>x. ?k a = ?k x) ?A = filter (\<lambda>x. ?k a = ?k x) ?A'" if "a \<in> set ?A" for a
    using that by simp
  with m d(2) show ?thesis by (intro properties_for_sort_key) simp_all
qed

text \<open>Pairs can be rearranged so that their keys come in any order the keys can.\<close>

lemma mset_keys_rearrange: "mset (map fst tds') = mset ts \<Longrightarrow> \<exists>tds. mset tds = mset tds' \<and> map fst tds = ts"
proof (induction ts arbitrary: tds')
  case (Cons t ts)
  then have "t \<in> fst ` set tds'" by (metis list.set_intros(1) list.set_map mset_eq_setD)
  then obtain td where td: "td \<in> set tds'" "fst td = t" by blast
  have "mset tds' = add_mset td (mset (remove1 td tds'))" using td(1) by simp
  then obtain us where us: "mset tds' = add_mset td (mset us)" by blast
  then have "mset (map fst tds') = add_mset t (mset (map fst us))" using td(2) by simp
  then have "mset (map fst us) = mset ts" using Cons.prems by simp
  from Cons.IH [OF this] obtain tds where "mset tds = mset us" "map fst tds = ts" by blast
  with td us show ?case by (intro exI [of _ "td # tds"]) simp
qed simp

text \<open>The scan of an analyzer, with or without a pool.\<close>

definition scan_of :: "WorkerPool option \<Rightarrow> 's Process_fun \<Rightarrow> ctx \<Rightarrow> Rule list \<Rightarrow> bytes \<Rightarrow> 's \<Rightarrow> 's scan_state" where
  "scan_of pl proc c rules data s =
     (case pl of
        Some p \<Rightarrow> anonymizeConcurrent p proc c rules data (initial_scan s)
      | None \<Rightarrow> anonymizeSequential proc c rules data (initial_scan s))"

definition pool_orderly :: "WorkerPool option \<Rightarrow> bytes \<Rightarrow> bool" where
  "pool_orderly pl data \<longleftrightarrow> (\<forall>p. pl = Some p \<longrightarrow> orderly p data)"

lemma pool_orderly_None [simp]: "pool_orderly None data"
  by (simp add: pool_orderly_def)

context sound_runner
begin

text \<open>Tasks that run one after the other do what the loop over the tokens does.\<close>

lemma tasks_scan:
  assumes "inv c rules (runner_state st)" "\<forall>t\<in>set ts. \<not> ctx_done p t"
  shows "foldl (task_body p proc c rules) st ts = range_over ts (token_body proc c rules) st"
  using assms
proof (induction ts arbitrary: st)
  case (Cons t ts)
  obtain r s' where r: "proc c rules (Content t) (runner_state st) = Inr (r, s')" "inv c rules s'"
    using proc_allowed [OF Cons.prems(1)] by blast
  have step: "token_body proc c rules t st = (True, task_body p proc c rules st t)"
    using r(1) Cons.prems(2) by (cases r) (simp_all add: token_body_def task_body_def)
  have "runner_state (task_body p proc c rules st t) = s'"
    using r(1) Cons.prems(2) by (cases r) (simp_all add: task_body_def add_finding_def)
  with Cons r(2) step show ?case by simp
qed simp

lemma scan_of_decides:
  assumes "inv c rules s" "pool_orderly pl data"
  shows "\<exists>tds. map fst tds = tokens data \<and> decisions_ok c rules tds
     \<and> actions (scan_of pl proc c rules data s) = actions_of tds \<and> panicked (scan_of pl proc c rules data s) = None
     \<and> inv c rules (runner_state (scan_of pl proc c rules data s))
     \<and> set (detectedEntities (scan_of pl proc c rules data s)) = {rule_entity r | t r. (t, Some r) \<in> set tds}"
proof (cases pl)
  case None
  then show ?thesis
    using scan_decides [of c rules "initial_scan s" "tokens data"] assms(1)
    by (simp add: scan_of_def anonymizeSequential_def TokenIterator_range initial_scan_def)
next
  case (Some p)
  let ?ts = "run_order p (tokens data)"
  have ord: "mset ?ts = mset (tokens data)" "\<forall>t\<in>set ?ts. \<not> ctx_done p t" "\<And>n. Submit_ok p n"
    using assms(2) Some mset_eq_setD [of ?ts "tokens data"] by (auto simp: pool_orderly_def orderly_def)
  let ?st = "range_over ?ts (token_body proc c rules) (initial_scan s)"
  have con: "scan_of pl proc c rules data s = ?st\<lparr>actions := sort_key (\<lambda>a. Start (act_token a)) (actions ?st)\<rparr>"
    using tasks_scan [of c rules "initial_scan s" ?ts p] ord(2) assms(1) submit_all_orderly [OF ord(3), of data]
    by (simp add: Some scan_of_def anonymizeConcurrent_def Let_def initial_scan_def)
  obtain tds' where tds': "map fst tds' = ?ts" "decisions_ok c rules tds'" "actions ?st = actions_of tds'"
    "panicked ?st = None" "inv c rules (runner_state ?st)"
    "set (detectedEntities ?st) = {rule_entity r | t r. (t, Some r) \<in> set tds'}"
    using scan_decides [of c rules "initial_scan s" ?ts] assms(1) by (auto simp: initial_scan_def)
  obtain tds where tds: "mset tds = mset tds'" "map fst tds = tokens data"
    using mset_keys_rearrange [of tds' "tokens data"] tds'(1) ord(1) by auto
  have same: "set tds = set tds'" using tds(1) by (rule mset_eq_setD)
  have "sort_key (\<lambda>a. Start (act_token a)) (actions_of tds') = actions_of tds"
    by (rule sort_actions) (use tds tokens_sorted in simp_all)
  with tds' tds(2) show ?thesis
    unfolding con by (intro exI [of _ tds]) (simp add: same decisions_ok_def)
qed

lemma analyzer_output:
  assumes "inv (WithWorkID (WithLogger c logger) uuid) rules s" "rules \<noteq> []" "data \<noteq> []"
    "\<forall>d r. allowed (WithWorkID (WithLogger c logger) uuid) rules d (Some r) \<longrightarrow> settings_ok (Settings r)"
    "pool_orderly pl data"
  shows "\<exists>tds ws details s'.
     Anonymize \<lparr>ruleRunner = Some \<lparr>runner_Process = proc, runner_Stop = stop\<rparr>, pool = pl\<rparr> logger uuid c rules data s = (ws, Inr details, s')
     \<and> map fst tds = tokens data \<and> decisions_ok (WithWorkID (WithLogger c logger) uuid) rules tds
     \<and> concat ws = anonymized_text data 0 tds
     \<and> (HasFindings details \<longleftrightarrow> (\<exists>t r. (t, Some r) \<in> set tds))
     \<and> set (DetectedEntities details) = {rule_entity r | t r. (t, Some r) \<in> set tds}
     \<and> inv (WithWorkID (WithLogger c logger) uuid) rules s'"
proof -
  let ?c = "WithWorkID (WithLogger c logger) uuid"
  let ?st = "scan_of pl proc ?c rules data s"
  obtain tds where tds: "map fst tds = tokens data" "decisions_ok ?c rules tds" "actions ?st = actions_of tds"
    "panicked ?st = None" "inv ?c rules (runner_state ?st)"
    "set (detectedEntities ?st) = {rule_entity r | t r. (t, Some r) \<in> set tds}"
    using scan_of_decides [OF assms(1,5)] by blast
  have ok: "tokens_ok data 0 (map fst tds)"
    using tokens_from_ok [OF tokens_from_tokens, of data] tds(1) by simp
  have set: "\<forall>(t, d)\<in>set tds. \<forall>r. d = Some r \<longrightarrow> settings_ok (Settings r)"
    using tds(2) assms(4) by (fastforce simp: decisions_ok_def)
  obtain ws where ws: "apply_loop data 0 (actions_of tds) = (ws, None)" "concat ws = anonymized_text data 0 tds"
    using apply_loop_text [OF ok set] by blast
  note empty = actions_of_Nil [of tds]
  have same: "concat ws = data" if "actions_of tds = []" using ws that by (auto simp: slice_def)
  show ?thesis
    using assms(2,3) tds ws empty same
    by (cases "actions_of tds = []")
      (auto simp: Anonymize_def Let_def applyActions_def entityMapToSlice_def simp flip: scan_of_def)
qed

end

context rule_runner
begin

lemma analyzer_decides:
  assumes "inv (WithWorkID (WithLogger c logger) uuid) rules s" "rules \<noteq> []" "data \<noteq> []"
    "\<And>r. r \<in> set rules \<Longrightarrow> settings_ok (Settings r)"
    "\<And>c d r. decide c rules d = Some r \<Longrightarrow> r \<in> set rules"
    "pool_orderly pl data"
  defines "f \<equiv> decide (WithWorkID (WithLogger c logger) uuid) rules"
  shows "\<exists>ws details s'.
     Anonymize \<lparr>ruleRunner = Some \<lparr>runner_Process = proc, runner_Stop = stop\<rparr>, pool = pl\<rparr> logger uuid c rules data s = (ws, Inr details, s')
     \<and> concat ws = anonymized_text data 0 (decide_all f (tokens data))
     \<and> (HasFindings details \<longleftrightarrow> (\<exists>t\<in>set (tokens data). f (Content t) \<noteq> None))
     \<and> set (DetectedEntities details) = {rule_entity r | t r. t \<in> set (tokens data) \<and> f (Content t) = Some r}"
proof -
  have "\<forall>d r. Some r = decide (WithWorkID (WithLogger c logger) uuid) rules d \<longrightarrow> settings_ok (Settings r)"
    using assms(4,5) by metis
  from analyzer_output [OF assms(1-3) this assms(6)] obtain tds ws details s' where
    out: "Anonymize \<lparr>ruleRunner = Some \<lparr>runner_Process = proc, runner_Stop = stop\<rparr>, pool = pl\<rparr> logger uuid c rules data s = (ws, Inr details, s')"
    and tds: "map fst tds = tokens data" "decisions_ok (WithWorkID (WithLogger c logger) uuid) rules tds"
    and body: "concat ws = anonymized_text data 0 tds"
    and found: "HasFindings details \<longleftrightarrow> (\<exists>t r. (t, Some r) \<in> set tds)"
    and ents: "set (DetectedEntities details) = {rule_entity r | t r. (t, Some r) \<in> set tds}"
    by blast
  have eq: "tds = decide_all f (tokens data)"
    using tds(2) by (intro decided_eq tds(1)) (simp add: decisions_ok_def f_def)
  show ?thesis
    using out body found ents unfolding eq decide_all_findings by (intro exI conjI) auto
qed

text \<open>Whatever order the pool runs the tasks in, the writes are those of the sequential scan.\<close>

lemma concurrent_same_output:
  assumes "inv (WithWorkID (WithLogger c logger) uuid) rules s" "orderly p data"
  shows "let seq = Anonymize \<lparr>ruleRunner = Some \<lparr>runner_Process = proc, runner_Stop = stop\<rparr>, pool = None\<rparr> logger uuid c rules data s;
             con = Anonymize \<lparr>ruleRunner = Some \<lparr>runner_Process = proc, runner_Stop = stop\<rparr>, pool = Some p\<rparr> logger uuid c rules data s
         in fst con = fst seq \<and> rel_sum (=) (\<lambda>d d'. HasFindings d = HasFindings d'
              \<and> set (DetectedEntities d) = set (DetectedEntities d')) (fst (snd con)) (fst (snd seq))"
proof -
  let ?c = "WithWorkID (WithLogger c logger) uuid"
  let ?con = "anonymizeConcurrent p proc ?c rules data (initial_scan s)"
  let ?seq = "anonymizeSequential proc ?c rules data (initial_scan s)"
  let ?tds = "decide_all (decide ?c rules) (tokens data)"
  have scan: "actions (scan_of pl proc ?c rules data s) = actions_of ?tds
      \<and> panicked (scan_of pl proc ?c rules data s) = None
      \<and> set (detectedEntities (scan_of pl proc ?c rules data s)) = {rule_entity r | t r. (t, Some r) \<in> set ?tds}"
    if ord: "pool_orderly pl data" for pl
  proof -
    obtain tds where tds: "map fst tds = tokens data" "decisions_ok ?c rules tds"
      "actions (scan_of pl proc ?c rules data s) = actions_of tds" "panicked (scan_of pl proc ?c rules data s) = None"
      "set (detectedEntities (scan_of pl proc ?c rules data s)) = {rule_entity r | t r. (t, Some r) \<in> set tds}"
      using scan_of_decides [OF assms(1) ord] by blast
    have "tds = ?tds" using tds(2) by (intro decided_eq tds(1)) (simp add: decisions_ok_def)
    with tds show ?thesis by simp
  qed
  have con: "actions ?con = actions_of ?tds" "panicked ?con = None"
    "set (detectedEntities ?con) = {rule_entity r | t r. (t, Some r) \<in> set ?tds}"
    using scan [of "Some p"] assms(2) by (simp_all add: scan_of_def pool_orderly_def)
  have seq: "actions ?seq = actions ?con" "panicked ?seq = None"
    "set (detectedEntities ?seq) = set (detectedEntities ?con)"
    using scan [of None] con by (simp_all add: scan_of_def pool_orderly_def)
  obtain ws pn where ap: "applyActions data (actions ?con) = (ws, pn)" by fastforce
  show ?thesis
    using con(2) seq ap
    by (cases "data = [] \<or> rules = []"; cases pn)
      (auto simp: Anonymize_def Let_def entityMapToSlice_def)
qed

end

text \<open>After \<open>Stop\<close> the pool accepts nothing and no token is examined.\<close>

lemma stopped_writes_input:
  assumes "data \<noteq> []" "rules \<noteq> []" "pool t = Some p" "run_order p [] = []"
  shows "fst (Anonymize (fst (Stop t s0)) logger uuid c rules data s) = [data]"
proof -
  have "submit_all (ReleaseContext p) data = []" by (rule submit_all_closed) (simp add: ReleaseContext_def)
  with assms show ?thesis
    by (simp add: Anonymize_def Stop_def anonymizeConcurrent_def ReleaseContext_def Let_def initial_scan_def)
qed

section \<open>The serial runner\<close>

text \<open>The runner with the flights of its calls taken from a list; when the list ends, every call
  leads its own flight.\<close>

definition serial_step :: "'w SerialRulesRunner \<Rightarrow> ('w run_state \<times> (bytes \<Rightarrow> flight) list) Process_fun" where
  "serial_step s c rules data sf =
     (let f = (case snd sf of [] \<Rightarrow> Leads | g # gs \<Rightarrow> g data) in
      case Process s f c rules data (fst sf) of
        Inl p \<Rightarrow> Inl p
      | Inr (r, st') \<Rightarrow> Inr (r, (st', tl (snd sf))))"

text \<open>Stopping the serial runner does nothing.\<close>

definition serial_runner :: "'w SerialRulesRunner \<Rightarrow> ('w run_state \<times> (bytes \<Rightarrow> flight) list) RuleRunner" where
  "serial_runner s = \<lparr>runner_Process = serial_step s, runner_Stop = (\<lambda>sf. sf)\<rparr>"

definition flight_ok :: "(Entity \<Rightarrow> bytes \<Rightarrow> bool) \<Rightarrow> bool \<Rightarrow> (bytes \<Rightarrow> flight) \<Rightarrow> bool" where
  "flight_ok verdict coal g \<longleftrightarrow> (\<forall>d. completes coal (g d) \<and>
     (case shared_value (g d) of None \<Rightarrow> True | Some m \<Rightarrow> sound_results verdict d m))"

definition serial_inv :: "('w \<Rightarrow> bytes \<Rightarrow> Entity \<Rightarrow> bool option) \<Rightarrow> (Entity \<Rightarrow> bytes \<Rightarrow> bool) \<Rightarrow> bool \<Rightarrow>
    ctx \<Rightarrow> Rule list \<Rightarrow> 'w run_state \<times> (bytes \<Rightarrow> flight) list \<Rightarrow> bool" where
  "serial_inv content verdict coal c rules sf \<longleftrightarrow>
     verdicts_agree verdict c rules \<and> cache_store.negatives_only content verdict (cache_state (fst sf))
     \<and> list_all (flight_ok verdict coal) (snd sf)"

lemma serial_rule_runner:
  assumes "cache_store store content"
  shows "rule_runner (serial_step \<lparr>sr_cache = Some store, sr_coalescing = coal\<rparr>)
     (serial_inv content verdict coal) first_match"
proof unfold_locales
  fix c rules d and sf :: "'a run_state \<times> (bytes \<Rightarrow> flight) list"
  assume inv: "serial_inv content verdict coal c rules sf"
  define f where "f = (case snd sf of [] \<Rightarrow> Leads | g # gs \<Rightarrow> g d)"
  have f_cases: "f = Leads \<or> (\<exists>g. flight_ok verdict coal g \<and> f = g d)"
    using inv by (cases "snd sf") (auto simp: f_def serial_inv_def)
  then have "completes coal f \<and> (case shared_value f of None \<Rightarrow> True | Some m \<Rightarrow> sound_results verdict d m)"
    by (auto simp: flight_ok_def completes_def shared_value_def)
  then have ok: "completes coal f" "\<And>m. shared_value f = Some m \<Longrightarrow> sound_results verdict d m"
    by simp_all
  have rest: "list_all (flight_ok verdict coal) (tl (snd sf))"
    using inv by (cases "snd sf") (auto simp: serial_inv_def)
  obtain st' where "Process \<lparr>sr_cache = Some store, sr_coalescing = coal\<rparr> f c rules d (fst sf)
      = Inr (first_match c rules d, st')" "cache_store.negatives_only content verdict (cache_state st')"
    using cache_store.Process_refines [OF assms _ _ ok(1), of verdict "fst sf" c rules d] ok(2) inv
    by (auto simp: serial_inv_def)
  with inv rest show "\<exists>s'. serial_step \<lparr>sr_cache = Some store, sr_coalescing = coal\<rparr> c rules d sf
      = Inr (first_match c rules d, s') \<and> serial_inv content verdict coal c rules s'"
    by (simp add: serial_step_def serial_inv_def flip: f_def)
qed

interpretation serial_noop: rule_runner
  "serial_step \<lparr>sr_cache = Some NoopRuleMatchingCache, sr_coalescing = coal\<rparr>"
  "serial_inv (\<lambda>w d e. None) verdict coal" first_match
  for coal verdict
  by (rule serial_rule_runner) (rule noop.cache_store_axioms)

lemma noop_inv:
  "distinct (map rule_entity rules) \<Longrightarrow>
     serial_inv (\<lambda>w d e. None) (rule_verdict c rules) False c rules (st, [])"
  by (simp add: serial_inv_def noop.negatives_only_def distinct_entities_agree)

lemma settings_replacement_mask:
  assumes "Strategy stg = MASK" "Mask stg = Some m"
  shows "replacement stg tok = concat (replicate (mask_count m (length tok)) (MaskingChar m)) @ drop (mask_count m (length tok)) tok"
proof -
  have "MASK \<noteq> REDACT" by (simp add: MASK_def REDACT_def)
  then show ?thesis using assms by (simp add: replacement_def Let_def)
qed

lemma length_masking: "length (concat (replicate n w)) = n * length w"
  by (induction n) simp_all

lemma token_slice:
  assumes "t \<in> set (tokens content)"
  shows "Start t < End t" "End t \<le> length content" "slice content (Start t) (End t) = Inr (Content t)"
    "length (Content t) = Token_Len t"
proof -
  have "tokens_ok content 0 (tokens content)" using tokens_from_ok [OF tokens_from_tokens, of content] by simp
  with assms show "Start t < End t" "End t \<le> length content" "slice content (Start t) (End t) = Inr (Content t)"
    by (auto dest: tokens_ok_mem)
  then show "length (Content t) = Token_Len t"
    by (simp add: slice_def Token_Len_def) (metis length_drop length_take diff_le_mono min.absorb2)
qed

text \<open>A small input, worked out.\<close>

lemma email_settings_ok: "settings_ok (Settings DefaultEmailRule)"
  by (simp add: settings_ok_def default_rule_defs DefaultRuleSetting_def REDACT_def MASK_def)

lemma email_redacted:
  defines "d \<equiv> str ''to a@b.co, ok''"
  shows "anonymized_text d 0 (decide_all (first_match c [DefaultEmailRule]) (tokens d)) = str ''to <REDACTED>, ok''"
    "\<exists>t\<in>set (tokens d). first_match c [DefaultEmailRule] (Content t) \<noteq> None"
proof -
  have toks: "tokens d = [\<lparr>Start = 0, End = 2, Content = str ''to''\<rparr>,
      \<lparr>Start = 3, End = 9, Content = str ''a@b.co''\<rparr>, \<lparr>Start = 11, End = 13, Content = str ''ok''\<rparr>]"
    by (simp add: token_eval d_def)
  have m: "\<not> MatchEmailV2 (str ''to'') \<and> MatchEmailV2 (str ''a@b.co'') \<and> \<not> MatchEmailV2 (str ''ok'')"
    by code_simp
  then have f: "map (first_match c [DefaultEmailRule] \<circ> Content) (tokens d) = [None, Some DefaultEmailRule, None]"
    unfolding toks first_match_def by (simp add: default_applies del: str_Cons)
  have dec: "decide_all (first_match c [DefaultEmailRule]) (tokens d)
      = zip (tokens d) (map (first_match c [DefaultEmailRule] \<circ> Content) (tokens d))"
    by (simp add: decide_all_def zip_map2 zip_same_conv_map comp_def)
  show "anonymized_text d 0 (decide_all (first_match c [DefaultEmailRule]) (tokens d)) = str ''to <REDACTED>, ok''"
    unfolding dec unfolding f unfolding toks
    by (simp add: replacement_def default_rule_defs DefaultRuleSetting_def DefaultRedactString_def d_def)
  show "\<exists>t\<in>set (tokens d). first_match c [DefaultEmailRule] (Content t) \<noteq> None"
    using f unfolding toks by (auto simp del: str_Cons)
qed

lemma serial_anonymizes:
  assumes "cache_store store content"
    and "serial_inv content verdict coal (WithWorkID (WithLogger c logger) uuid) rules s"
    and "rules \<noteq> []" "data \<noteq> []"
    and "\<And>r. r \<in> set rules \<Longrightarrow> settings_ok (Settings r)"
  defines "f \<equiv> first_match (WithWorkID (WithLogger c logger) uuid) rules"
  shows "\<exists>ws details s'.
     Anonymize (NewByteAnalyzer (Some (serial_runner \<lparr>sr_cache = Some store, sr_coalescing = coal\<rparr>))) logger uuid c rules data s
       = (ws, Inr details, s')
     \<and> concat ws = anonymized_text data 0 (decide_all f (tokens data))
     \<and> (HasFindings details \<longleftrightarrow> (\<exists>t\<in>set (tokens data). f (Content t) \<noteq> None))
     \<and> set (DetectedEntities details) = {rule_entity r | t r. t \<in> set (tokens data) \<and> f (Content t) = Some r}"
  unfolding NewByteAnalyzer_def serial_runner_def f_def
  by (rule rule_runner.analyzer_decides [OF serial_rule_runner [OF assms(1)] assms(2-5)])
    (auto dest: first_match_SomeD)

section \<open>The reported entities\<close>

text \<open>What every scan keeps: the two entity sets are equal and without duplicates, and there is an
  entity exactly when there is an action.\<close>

definition scan_ok :: "'s scan_state \<Rightarrow> bool" where
  "scan_ok st \<longleftrightarrow> distinct (detectedEntities st) \<and> anonymizedEntities st = detectedEntities st
     \<and> (detectedEntities st = [] \<longleftrightarrow> actions st = [])"

lemma scan_ok_add_finding: "scan_ok st \<Longrightarrow> scan_ok (add_finding tok r st)"
  by (auto simp: scan_ok_def add_finding_def map_insert_def)

lemma scan_ok_cong:
  "scan_ok (st\<lparr>runner_state := s\<rparr>) = scan_ok st" "scan_ok (st\<lparr>panicked := p\<rparr>) = scan_ok st"
  by (simp_all add: scan_ok_def)

lemma scan_ok_range: "scan_ok st \<Longrightarrow> scan_ok (range_over ts (token_body proc c rules) st)"
proof (induction ts arbitrary: st)
  case (Cons t ts)
  have "scan_ok (snd (token_body proc c rules t st))"
    using Cons.prems by (auto simp: token_body_def scan_ok_cong scan_ok_add_finding split: sum.splits option.splits)
  with Cons.IH show ?case by (simp add: case_prod_beta)
qed simp

lemma scan_ok_tasks: "scan_ok st \<Longrightarrow> scan_ok (foldl (task_body p proc c rules) st ts)"
proof (induction ts arbitrary: st)
  case (Cons t ts)
  have "scan_ok (task_body p proc c rules st t)"
    using Cons.prems by (auto simp: task_body_def scan_ok_cong scan_ok_add_finding split: sum.splits option.splits)
  with Cons.IH show ?case by simp
qed simp

lemma scan_ok_scans:
  "scan_ok (anonymizeSequential proc c rules data (initial_scan s))"
  "scan_ok (anonymizeConcurrent p proc c rules data (initial_scan s))"
proof -
  have init: "scan_ok (initial_scan s)" by (simp add: scan_ok_def initial_scan_def)
  show "scan_ok (anonymizeSequential proc c rules data (initial_scan s))"
    by (simp add: anonymizeSequential_def TokenIterator_range scan_ok_range init)
  have "sort_key f xs = [] \<longleftrightarrow> xs = []" for f :: "anonymizationAction \<Rightarrow> nat" and xs
    by (metis length_0_conv length_sort)
  then show "scan_ok (anonymizeConcurrent p proc c rules data (initial_scan s))"
    using scan_ok_tasks [OF init] by (simp add: anonymizeConcurrent_def Let_def scan_ok_def)
qed

lemma details_ok:
  assumes "Anonymize t logger uuid c rules data s = (ws, Inr details, s')"
  shows "distinct (DetectedEntities details) \<and> distinct (AnonymizedEntities details)
     \<and> set (AnonymizedEntities details) = set (DetectedEntities details)
     \<and> (HasFindings details \<longleftrightarrow> DetectedEntities details \<noteq> [])"
proof (cases "data = [] \<or> rules = []")
  case True
  with assms show ?thesis by (auto simp: Anonymize_def no_details_def Let_def split: if_splits)
next
  case False
  define st where "st = (case pool t of
      Some p \<Rightarrow> anonymizeConcurrent p (call_Process (ruleRunner t)) (WithWorkID (WithLogger c logger) uuid) rules data (initial_scan s)
    | None \<Rightarrow> anonymizeSequential (call_Process (ruleRunner t)) (WithWorkID (WithLogger c logger) uuid) rules data (initial_scan s))"
  have "scan_ok st" unfolding st_def using scan_ok_scans by (auto split: option.split)
  moreover have "details = \<lparr>HasFindings = length (actions st) > 0, DetectedEntities = detectedEntities st,
      AnonymizedEntities = anonymizedEntities st\<rparr>"
    using assms False unfolding st_def Anonymize_def
    by (simp add: Let_def case_prod_beta entityMapToSlice_def split: option.splits if_splits)
  ultimately show ?thesis by (simp add: scan_ok_def)
qed

lemma string_details_ok:
  assumes "fst (StringAnalyzer_Anonymize sa logger uuid c rules data s) = Inr (out, details)"
  shows "distinct (DetectedEntities details) \<and> distinct (AnonymizedEntities details)
     \<and> set (AnonymizedEntities details) = set (DetectedEntities details)
     \<and> (HasFindings details \<longleftrightarrow> DetectedEntities details \<noteq> [])"
proof -
  obtain ws r s' where r: "Anonymize (byteAnalyzer sa) logger uuid c rules data s = (ws, r, s')" by (rule prod_cases3)
  with assms have "r = Inr details"
    by (auto simp: StringAnalyzer_Anonymize_def Anonymize_to_def split: sum.splits)
  with r have "Anonymize (byteAnalyzer sa) logger uuid c rules data s = (ws, Inr details, s')" by simp
  then show ?thesis by (rule details_ok)
qed

section \<open>Properties\<close>

text \<open>C4: Anonymizing a non-empty input with a non-empty list of rules and the serial runner, over
  any cache that keeps its contract and holds only true negative answers, with or without
  coalescing.  The rules have valid settings (a redacting rule has its placeholder, a
  masking rule its mask), rules of the same entity agree on every token, and the flights that
  the run joins end with sound results.  Then \<open>Anonymize\<close> does not panic and writes the input
  with exactly the tokens to which a rule applies replaced as the first applicable rule
  demands; everything else is kept byte for byte.  The details report findings exactly when
  a token was replaced and name the entities of the replacing rules.\<close>

theorem anonymize_replaces_first_matches:
  assumes "cache_store store content"
    and "serial_inv content verdict coal (WithWorkID (WithLogger c logger) uuid) rules s"
    and "rules \<noteq> []" "data \<noteq> []"
    and "\<And>r. r \<in> set rules \<Longrightarrow> settings_ok (Settings r)"
  defines "f \<equiv> first_match (WithWorkID (WithLogger c logger) uuid) rules"
  shows "\<exists>ws details s'.
     Anonymize (NewByteAnalyzer (Some (serial_runner \<lparr>sr_cache = Some store, sr_coalescing = coal\<rparr>))) logger uuid c rules data s
       = (ws, Inr details, s')
     \<and> concat ws = anonymized_text data 0 (decide_all f (tokens data))
     \<and> (HasFindings details \<longleftrightarrow> (\<exists>t\<in>set (tokens data). f (Content t) \<noteq> None))
     \<and> set (DetectedEntities details) = {rule_entity r | t r. t \<in> set (tokens data) \<and> f (Content t) = Some r}"
  unfolding f_def by (rule serial_anonymizes [OF assms(1-5)])

theorem anonymize_replaces_first_matches_witness:
  "\<exists>ws details s'.
     Anonymize (NewByteAnalyzer (Some (serial_runner \<lparr>sr_cache = Some NoopRuleMatchingCache, sr_coalescing = False\<rparr>)))
       ''log'' ''id'' background [DefaultEmailRule] (str ''to a@b.co, ok'') (\<lparr>cache_state = (), trace = []\<rparr>, [])
       = (ws, Inr details, s')
     \<and> concat ws = str ''to <REDACTED>, ok'' \<and> HasFindings details"
proof -
  let ?c = "WithWorkID (WithLogger background ''log'') ''id''" and ?d = "str ''to a@b.co, ok''"
  have inv: "serial_inv (\<lambda>w d e. None) (rule_verdict ?c [DefaultEmailRule]) False ?c [DefaultEmailRule]
      (\<lparr>cache_state = (), trace = []\<rparr>, [])"
    by (rule noop_inv) simp
  have st: "r \<in> set [DefaultEmailRule] \<Longrightarrow> settings_ok (Settings r)" for r
    by (simp add: email_settings_ok)
  have ne: "[DefaultEmailRule] \<noteq> []" "?d \<noteq> []" by simp_all
  from anonymize_replaces_first_matches [OF noop.cache_store_axioms inv ne st] email_redacted [of ?c]
  show ?thesis by (simp del: str_Cons) blast
qed

text \<open>C7: With a pool that accepts every task and runs it before the context is done, with rules of
  the same entity that agree, a sound cache and sound flights, the concurrent scan makes
  exactly the same writes as the sequential one, in whatever order the tasks run, and
  reports the same findings.\<close>

theorem concurrent_scan_equals_sequential:
  assumes "cache_store store content"
    and "serial_inv content verdict coal (WithWorkID (WithLogger c logger) uuid) rules s"
    and "orderly p data"
  shows "let run = serial_runner \<lparr>sr_cache = Some store, sr_coalescing = coal\<rparr>;
             seq = Anonymize \<lparr>ruleRunner = Some run, pool = None\<rparr> logger uuid c rules data s;
             con = Anonymize \<lparr>ruleRunner = Some run, pool = Some p\<rparr> logger uuid c rules data s
         in fst con = fst seq \<and> rel_sum (=) (\<lambda>d d'. HasFindings d = HasFindings d'
              \<and> set (DetectedEntities d) = set (DetectedEntities d')) (fst (snd con)) (fst (snd seq))"
  using rule_runner.concurrent_same_output [OF serial_rule_runner [OF assms(1)] assms(2,3)]
  by (simp add: serial_runner_def)

theorem concurrent_scan_equals_sequential_witness:
  "let run = serial_runner \<lparr>sr_cache = Some NoopRuleMatchingCache, sr_coalescing = False\<rparr>;
       s = (\<lparr>cache_state = (), trace = []\<rparr>, []);
       p = \<lparr>Submit_ok = \<lambda>n. True, run_order = rev, ctx_done = \<lambda>t. False\<rparr>
   in fst (Anonymize \<lparr>ruleRunner = Some run, pool = Some p\<rparr> ''log'' ''id'' background default_rules (str ''a@b.co 1.2.3.4'') s)
    = fst (Anonymize \<lparr>ruleRunner = Some run, pool = None\<rparr> ''log'' ''id'' background default_rules (str ''a@b.co 1.2.3.4'') s)"
proof -
  let ?c = "WithWorkID (WithLogger background ''log'') ''id''"
  let ?p = "\<lparr>Submit_ok = \<lambda>n. True, run_order = rev, ctx_done = \<lambda>t. False\<rparr>"
  have inv: "serial_inv (\<lambda>w d e. None) (rule_verdict ?c default_rules) False ?c default_rules
      (\<lparr>cache_state = (), trace = []\<rparr>, [])"
    by (rule noop_inv) (rule default_rules_consistent)
  have "orderly ?p (str ''a@b.co 1.2.3.4'')" by (simp add: orderly_def)
  from concurrent_scan_equals_sequential [OF noop.cache_store_axioms inv this]
  show ?thesis unfolding Let_def by blast
qed



text \<open>C32: Masking a token of the input, with any masking string: with \<open>n\<close> the \<open>MaxSize\<close> of the
  settings raised to at least one and cut to the length of the token, the first \<open>n\<close> bytes of the
  token are replaced by \<open>n\<close> copies of the masking string and the rest of the token is kept.  So
  the length in bytes grows or shrinks with the masking string, and is kept exactly when
  the masking string is one byte.\<close>

theorem mask_replaces_prefix:
  assumes "t \<in> set (tokens content)" "Strategy stg = MASK" "Mask stg = Some m"
  defines "n \<equiv> min (Token_Len t) (nat (max 1 (MaxSize m)))"
  shows "\<exists>ws. strategy_writes content \<lparr>act_token = t, act_settings = stg\<rparr> = (ws, None)
     \<and> concat ws = concat (replicate n (MaskingChar m)) @ drop n (Content t)
     \<and> length (concat ws) + n = Token_Len t + n * length (MaskingChar m)
     \<and> (length (concat ws) = Token_Len t \<longleftrightarrow> length (MaskingChar m) = 1)"
proof -
  note tok = token_slice [OF assms(1)]
  have ok: "settings_ok stg" using assms(2,3) by (simp add: settings_ok_def MASK_def REDACT_def)
  have n: "n = mask_count m (length (Content t))" unfolding n_def mask_count_def tok(4) ..
  obtain ws where ws: "strategy_writes content \<lparr>act_token = t, act_settings = stg\<rparr> = (ws, None)"
    "concat ws = concat (replicate n (MaskingChar m)) @ drop n (Content t)"
    using strategy_writes_ok [OF ok tok(1-3)] settings_replacement_mask [OF assms(2,3), of "Content t"]
    unfolding n by auto
  have "n \<le> Token_Len t" "0 < n" using tok(1) by (simp_all add: n_def Token_Len_def)
  moreover from this have len: "length (concat ws) + n = Token_Len t + n * length (MaskingChar m)"
    by (simp add: ws(2) length_masking tok(4))
  ultimately have "length (concat ws) = Token_Len t \<longleftrightarrow> length (MaskingChar m) = 1" by auto
  with ws len show ?thesis by blast
qed

theorem mask_replaces_prefix_witness:
  "\<exists>ws. strategy_writes (str ''secret'') \<lparr>act_token = \<lparr>Start = 0, End = 6, Content = str ''secret''\<rparr>,
       act_settings = \<lparr>Strategy = MASK, Redact = None, Mask = Some \<lparr>MaskingChar = str ''<>'', MaxSize = 3\<rparr>\<rparr>\<rparr> = (ws, None)
     \<and> concat ws = str ''<><><>ret''"
proof -
  have "\<lparr>Start = 0, End = 6, Content = str ''secret''\<rparr> \<in> set (tokens (str ''secret''))"
    by (simp add: token_eval)
  from mask_replaces_prefix [OF this, of "\<lparr>Strategy = MASK, Redact = None, Mask = Some \<lparr>MaskingChar = str ''<>'', MaxSize = 3\<rparr>\<rparr>"
      "\<lparr>MaskingChar = str ''<>'', MaxSize = 3\<rparr>"]
  show ?thesis by (auto simp: Token_Len_def numeral_3_eq_3)
qed

text \<open>A string analyzer returns the concatenation of what the byte analyzer writes, with the
  same details or panic; with no rules it returns the empty string, so the input is lost.\<close>

lemma string_analyzer_output:
  "StringAnalyzer_Anonymize sa logger uuid c rules input s =
     (case Anonymize (byteAnalyzer sa) logger uuid c rules input s of
        (ws, Inl p, s') \<Rightarrow> (Inl p, s')
      | (ws, Inr details, s') \<Rightarrow> (Inr (concat ws, details), s'))
   \<and> StringAnalyzer_Anonymize sa logger uuid c [] input s = (Inr ([], no_details), s)"
proof -
  have gen: "StringAnalyzer_Anonymize sa logger uuid c rules input s =
     (case Anonymize (byteAnalyzer sa) logger uuid c rules input s of
        (ws, Inl p, s') \<Rightarrow> (Inl p, s')
      | (ws, Inr details, s') \<Rightarrow> (Inr (concat ws, details), s'))" for rules
    by (auto simp: StringAnalyzer_Anonymize_def Anonymize_to_def buffer_collects split: prod.splits sum.splits)
  have "Anonymize (byteAnalyzer sa) logger uuid c [] input s = ([], Inr no_details, s)"
    by (simp add: Anonymize_def Let_def)
  with gen gen [of "[]"] show ?thesis by simp
qed

text \<open>C8: Whatever the runner, the pool, the rules and the input, the details of a call are
  consistent: an entity is reported at most once, the anonymized entities are the detected
  ones, and there are findings exactly when an entity is reported.\<close>

theorem details_consistent:
  assumes "Anonymize t logger uuid c rules data s = (ws, Inr details, s')"
  shows "distinct (DetectedEntities details) \<and> distinct (AnonymizedEntities details)
     \<and> set (AnonymizedEntities details) = set (DetectedEntities details)
     \<and> (HasFindings details \<longleftrightarrow> DetectedEntities details \<noteq> [])"
  using assms by (rule details_ok)

theorem details_consistent_witness:
  "\<exists>ws details s'.
     Anonymize (NewByteAnalyzer (Some (serial_runner \<lparr>sr_cache = Some NoopRuleMatchingCache, sr_coalescing = False\<rparr>)))
       ''log'' ''id'' background [DefaultEmailRule] (str ''to a@b.co, ok'') (\<lparr>cache_state = (), trace = []\<rparr>, [])
       = (ws, Inr details, s')
     \<and> distinct (DetectedEntities details) \<and> DetectedEntities details \<noteq> []"
proof -
  let ?c = "WithWorkID (WithLogger background ''log'') ''id''"
  have st: "r \<in> set [DefaultEmailRule] \<Longrightarrow> settings_ok (Settings r)" for r
    by (simp add: email_settings_ok)
  have ne: "[DefaultEmailRule] \<noteq> []" "str ''to a@b.co, ok'' \<noteq> []" and di: "distinct (map rule_entity [DefaultEmailRule])"
    by simp_all
  obtain ws details s' where run: "Anonymize (NewByteAnalyzer (Some (serial_runner \<lparr>sr_cache = Some NoopRuleMatchingCache, sr_coalescing = False\<rparr>)))
       ''log'' ''id'' background [DefaultEmailRule] (str ''to a@b.co, ok'') (\<lparr>cache_state = (), trace = []\<rparr>, [])
       = (ws, Inr details, s')" "HasFindings details"
    using serial_anonymizes [OF noop.cache_store_axioms noop_inv [OF di] ne st] email_redacted(2) [of ?c] by blast
  from details_consistent [OF run(1)] run show ?thesis by blast
qed

end
