(* ===== verification/ConcurrentRunner.thy ===== *)
theory ConcurrentRunner
  imports ByteAnalyzer
begin

text \<open>
  \<open>src/analyzer/concurrent_runner.go\<close>: evaluating the missing entities of a token on a worker
  pool.  \<open>collectEvaluations\<close> with its workers is the step relation \<open>collect_step\<close>: every
  interleaving of submissions, workers, the collector, the caller's cancellation and the
  closing of the pool is a sequence of steps.  The rest of the runner is a function of the
  state in which the collection ends.
\<close>

section \<open>The collection\<close>

text \<open>The zero item of a worker that bailed out, or an evaluated outcome.\<close>

datatype resultItem = Skipped | Evaluated Rule Entity bool

datatype outcome = Aborted | Found Rule | Cancelled | Complete

datatype phase = Submitting | Collecting | Draining Rule | Finished outcome

text \<open>\<open>parentDone\<close>: the caller's context is done; \<open>matchDone\<close>: \<open>cancel\<close> was called.  Either makes
  \<open>matchCtx\<close> done.  A worker is queued until it has checked \<open>matchCtx\<close>, then running until
  it has sent its item on the buffered channel.\<close>

record collector =
  unsubmitted :: "missingEvaluation list"
  queued :: "missingEvaluation list"
  running :: "missingEvaluation list"
  resultCh :: "resultItem list"
  submitted :: nat
  received :: nat
  coll_results :: results
  parentDone :: bool
  matchDone :: bool
  phase :: phase

definition start_collection :: "bool \<Rightarrow> missingEvaluation list \<Rightarrow> collector" where
  "start_collection b missing =
     \<lparr>unsubmitted = missing, queued = [], running = [], resultCh = [], submitted = 0, received = 0,
      coll_results = [], parentDone = b, matchDone = False, phase = Submitting\<rparr>"

definition matchCtx_done :: "collector \<Rightarrow> bool" where
  "matchCtx_done s \<longleftrightarrow> parentDone s \<or> matchDone s"

definition worker_item :: "ctx \<Rightarrow> bytes \<Rightarrow> missingEvaluation \<Rightarrow> resultItem" where
  "worker_item c data m = Evaluated (me_rule m) (me_entity m) (rule_match (me_rule m) c data)"

inductive collect_step :: "ctx \<Rightarrow> bytes \<Rightarrow> collector \<Rightarrow> collector \<Rightarrow> bool" for c data where
  submit: "phase s = Submitting \<Longrightarrow> unsubmitted s = m # ms \<Longrightarrow>
    collect_step c data s (s\<lparr>unsubmitted := ms, queued := queued s @ [m], submitted := submitted s + 1\<rparr>)"
| pool_closed: "phase s = Submitting \<Longrightarrow> unsubmitted s = m # ms \<Longrightarrow>
    collect_step c data s (s\<lparr>matchDone := True, phase := Finished Aborted\<rparr>)"
| all_submitted: "phase s = Submitting \<Longrightarrow> unsubmitted s = [] \<Longrightarrow>
    collect_step c data s (s\<lparr>phase := Collecting\<rparr>)"
| start: "queued s = xs @ m # ys \<Longrightarrow> \<not> matchCtx_done s \<Longrightarrow>
    collect_step c data s (s\<lparr>queued := xs @ ys, running := running s @ [m]\<rparr>)"
| bail_out: "queued s = xs @ m # ys \<Longrightarrow> matchCtx_done s \<Longrightarrow>
    collect_step c data s (s\<lparr>queued := xs @ ys, resultCh := resultCh s @ [Skipped]\<rparr>)"
| send: "running s = xs @ m # ys \<Longrightarrow>
    collect_step c data s (s\<lparr>running := xs @ ys, resultCh := resultCh s @ [worker_item c data m]\<rparr>)"
| caller_cancels: "\<not> parentDone s \<Longrightarrow> collect_step c data s (s\<lparr>parentDone := True\<rparr>)"
| receive_skipped: "phase s = Collecting \<Longrightarrow> received s < submitted s \<Longrightarrow> resultCh s = Skipped # its \<Longrightarrow>
    collect_step c data s (s\<lparr>resultCh := its, received := received s + 1\<rparr>)"
| receive_negative: "phase s = Collecting \<Longrightarrow> received s < submitted s \<Longrightarrow> resultCh s = Evaluated r e False # its \<Longrightarrow>
    collect_step c data s (s\<lparr>resultCh := its, received := received s + 1,
      coll_results := AList.update e False (coll_results s)\<rparr>)"
| receive_match: "phase s = Collecting \<Longrightarrow> received s < submitted s \<Longrightarrow> resultCh s = Evaluated r e True # its \<Longrightarrow>
    collect_step c data s (s\<lparr>resultCh := its, received := received s + 1,
      coll_results := AList.update e True (coll_results s), matchDone := True, phase := Draining r\<rparr>)"
| receive_done: "phase s = Collecting \<Longrightarrow> received s < submitted s \<Longrightarrow> parentDone s \<Longrightarrow>
    collect_step c data s (s\<lparr>matchDone := True, phase := Finished Cancelled\<rparr>)"
| all_received: "phase s = Collecting \<Longrightarrow> received s = submitted s \<Longrightarrow>
    collect_step c data s (s\<lparr>matchDone := True, phase := Finished Complete\<rparr>)"
| drain_skipped: "phase s = Draining r \<Longrightarrow> resultCh s = Skipped # its \<Longrightarrow>
    collect_step c data s (s\<lparr>resultCh := its\<rparr>)"
| drain_evaluated: "phase s = Draining r \<Longrightarrow> resultCh s = Evaluated r' e b # its \<Longrightarrow>
    collect_step c data s (s\<lparr>resultCh := its, coll_results := AList.update e b (coll_results s)\<rparr>)"
| drain_end: "phase s = Draining r \<Longrightarrow> resultCh s = [] \<Longrightarrow>
    collect_step c data s (s\<lparr>phase := Finished (Found r)\<rparr>)"

abbreviation collects :: "ctx \<Rightarrow> bytes \<Rightarrow> collector \<Rightarrow> collector \<Rightarrow> bool" where
  "collects c data \<equiv> (collect_step c data)\<^sup>*\<^sup>*"

section \<open>Invariants of the collection\<close>

definition evaluated_ok :: "ctx \<Rightarrow> bytes \<Rightarrow> missingEvaluation list \<Rightarrow> resultItem \<Rightarrow> bool" where
  "evaluated_ok c data missing i \<longleftrightarrow> i = Skipped \<or> (\<exists>m\<in>set missing. i = worker_item c data m)"

definition workers_inv :: "missingEvaluation list \<Rightarrow> collector \<Rightarrow> bool" where
  "workers_inv missing s \<longleftrightarrow> set (unsubmitted s) \<subseteq> set missing \<and> set (queued s) \<subseteq> set missing \<and> set (running s) \<subseteq> set missing"

definition results_inv :: "ctx \<Rightarrow> bytes \<Rightarrow> missingEvaluation list \<Rightarrow> collector \<Rightarrow> bool" where
  "results_inv c data missing s \<longleftrightarrow> list_all (evaluated_ok c data missing) (resultCh s)
     \<and> (\<forall>(e, b)\<in>set (coll_results s). \<exists>m\<in>set missing. e = me_entity m \<and> b = rule_match (me_rule m) c data)"

definition winner_inv :: "ctx \<Rightarrow> bytes \<Rightarrow> missingEvaluation list \<Rightarrow> collector \<Rightarrow> bool" where
  "winner_inv c data missing s \<longleftrightarrow>
     (\<forall>r. phase s = Draining r \<or> phase s = Finished (Found r) \<longrightarrow>
        (\<exists>m\<in>set missing. r = me_rule m \<and> rule_match (me_rule m) c data))"

definition early :: "collector \<Rightarrow> bool" where
  "early s \<longleftrightarrow> phase s = Submitting \<or> phase s = Collecting"

definition count_inv :: "collector \<Rightarrow> bool" where
  "count_inv s \<longleftrightarrow> (phase s \<noteq> Submitting \<longrightarrow> unsubmitted s = [] \<or> phase s = Finished Aborted) \<and>
     (early s \<longrightarrow> \<not> matchDone s \<and> submitted s = length (queued s) + length (running s) + length (resultCh s) + received s)"

text \<open>As long as nothing was cancelled, every missing evaluation is still to come or recorded as
  negative.\<close>

definition covered :: "ctx \<Rightarrow> bytes \<Rightarrow> collector \<Rightarrow> missingEvaluation \<Rightarrow> bool" where
  "covered c data s m \<longleftrightarrow> m \<in> set (unsubmitted s) \<or> m \<in> set (queued s) \<or> m \<in> set (running s)
     \<or> worker_item c data m \<in> set (resultCh s)
     \<or> (me_entity m \<in> dom (map_of (coll_results s)) \<and> \<not> rule_match (me_rule m) c data)"

definition coverage_inv :: "ctx \<Rightarrow> bytes \<Rightarrow> missingEvaluation list \<Rightarrow> collector \<Rightarrow> bool" where
  "coverage_inv c data missing s \<longleftrightarrow>
     (\<not> parentDone s \<and> (early s \<or> phase s = Finished Complete) \<longrightarrow> Skipped \<notin> set (resultCh s) \<or> phase s = Finished Complete) \<and>
     (\<not> parentDone s \<and> early s \<longrightarrow> (\<forall>m\<in>set missing. covered c data s m)) \<and>
     (\<not> parentDone s \<and> phase s = Finished Complete \<longrightarrow>
        (\<forall>m\<in>set missing. me_entity m \<in> dom (map_of (coll_results s)) \<and> \<not> rule_match (me_rule m) c data))"

definition collector_inv :: "ctx \<Rightarrow> bytes \<Rightarrow> missingEvaluation list \<Rightarrow> collector \<Rightarrow> bool" where
  "collector_inv c data missing s \<longleftrightarrow> workers_inv missing s \<and> results_inv c data missing s
     \<and> winner_inv c data missing s \<and> count_inv s \<and> coverage_inv c data missing s"

lemma worker_item_inject [simp]:
  "worker_item c data m \<noteq> Skipped" "Skipped \<noteq> worker_item c data m"
  "worker_item c data m = Evaluated r e b \<longleftrightarrow> r = me_rule m \<and> e = me_entity m \<and> b = rule_match (me_rule m) c data"
  "Evaluated r e b = worker_item c data m \<longleftrightarrow> r = me_rule m \<and> e = me_entity m \<and> b = rule_match (me_rule m) c data"
  by (auto simp: worker_item_def)

lemma workers_inv_step: "collect_step c data s s' \<Longrightarrow> workers_inv missing s \<Longrightarrow> workers_inv missing s'"
  by (induction rule: collect_step.cases) (auto simp: workers_inv_def)

lemma results_update:
  assumes "\<forall>(e, b)\<in>set rs. P e b" "P e b"
  shows "\<forall>(e, b)\<in>set (AList.update e b rs). P e b"
  using assms set_update [of e b rs] by blast

lemma results_inv_step:
  assumes "collect_step c data s s'" "workers_inv missing s" "results_inv c data missing s"
  shows "results_inv c data missing s'"
  using assms
proof (cases rule: collect_step.cases)
  case (send xs m ys)
  with assms(2,3) show ?thesis by (auto simp: results_inv_def evaluated_ok_def workers_inv_def)
next
  case (receive_negative r e its)
  with assms(3) have "\<exists>m\<in>set missing. e = me_entity m \<and> False = rule_match (me_rule m) c data"
    by (auto simp: results_inv_def evaluated_ok_def)
  with receive_negative assms(3) show ?thesis
    using results_update [of "coll_results s" "\<lambda>e b. \<exists>m\<in>set missing. e = me_entity m \<and> b = rule_match (me_rule m) c data" e False]
    by (simp add: results_inv_def)
next
  case (receive_match r e its)
  with assms(3) have "\<exists>m\<in>set missing. e = me_entity m \<and> True = rule_match (me_rule m) c data"
    by (auto simp: results_inv_def evaluated_ok_def)
  with receive_match assms(3) show ?thesis
    using results_update [of "coll_results s" "\<lambda>e b. \<exists>m\<in>set missing. e = me_entity m \<and> b = rule_match (me_rule m) c data" e True]
    by (simp add: results_inv_def)
next
  case (drain_evaluated r r' e b its)
  with assms(3) have "\<exists>m\<in>set missing. e = me_entity m \<and> b = rule_match (me_rule m) c data"
    by (auto simp: results_inv_def evaluated_ok_def)
  with drain_evaluated assms(3) show ?thesis
    using results_update [of "coll_results s" "\<lambda>e b. \<exists>m\<in>set missing. e = me_entity m \<and> b = rule_match (me_rule m) c data" e b]
    by (simp add: results_inv_def)
qed (auto simp: results_inv_def evaluated_ok_def)

lemma winner_inv_step:
  assumes "collect_step c data s s'" "results_inv c data missing s" "winner_inv c data missing s"
  shows "winner_inv c data missing s'"
  using assms by (cases rule: collect_step.cases) (auto simp: winner_inv_def results_inv_def evaluated_ok_def)

lemma count_inv_step:
  assumes "collect_step c data s s'" "count_inv s"
  shows "count_inv s'"
  using assms by (cases rule: collect_step.cases) (auto simp: count_inv_def early_def)

lemma coverage_inv_step:
  assumes "collect_step c data s s'" "workers_inv missing s" "count_inv s" "coverage_inv c data missing s"
  shows "coverage_inv c data missing s'"
  using assms
proof (cases rule: collect_step.cases)
  case all_received
  then have "unsubmitted s = []" "queued s = []" "running s = []" "resultCh s = []"
    using assms(3) by (auto simp: count_inv_def early_def)
  with all_received assms(4) show ?thesis
    by (auto simp: coverage_inv_def early_def covered_def)
next
  case (receive_negative r e its)
  have "covered c data s' m" if "covered c data s m" for m
    using that receive_negative by (auto simp: covered_def update_conv')
  with receive_negative assms(4) show ?thesis by (auto simp: coverage_inv_def early_def)
next
  case (start xs m ys)
  have "covered c data s' m'" if "covered c data s m'" for m'
    using that start by (auto simp: covered_def)
  with start assms(4) show ?thesis by (auto simp: coverage_inv_def early_def)
next
  case (send xs m ys)
  have "covered c data s' m'" if "covered c data s m'" for m'
    using that send by (auto simp: covered_def)
  with send assms(4) show ?thesis by (auto simp: coverage_inv_def early_def)
next
  case (submit m ms)
  have "covered c data s' m'" if "covered c data s m'" for m'
    using that submit by (auto simp: covered_def)
  with submit assms(4) show ?thesis by (auto simp: coverage_inv_def early_def)
next
  case (bail_out xs m ys)
  then have "early s \<Longrightarrow> parentDone s" using assms(3) by (auto simp: count_inv_def matchCtx_done_def)
  with bail_out assms(4) show ?thesis by (auto simp: coverage_inv_def early_def)
qed (auto simp: coverage_inv_def early_def covered_def)

lemma collector_inv_step:
  "collect_step c data s s' \<Longrightarrow> collector_inv c data missing s \<Longrightarrow> collector_inv c data missing s'"
  unfolding collector_inv_def
  by (elim conjE, intro conjI)
    (rule workers_inv_step results_inv_step winner_inv_step count_inv_step coverage_inv_step; assumption)+

lemma collector_inv_start: "collector_inv c data missing (start_collection b missing)"
  by (simp add: collector_inv_def workers_inv_def results_inv_def winner_inv_def count_inv_def coverage_inv_def
      early_def covered_def start_collection_def)

lemma collector_inv_reachable:
  "collects c data (start_collection b missing) s \<Longrightarrow> collector_inv c data missing s"
  by (induction rule: rtranclp_induct) (auto intro: collector_inv_start collector_inv_step)

section \<open>Termination and progress\<close>

fun phase_weight :: "phase \<Rightarrow> nat" where
  "phase_weight Submitting = 3"
| "phase_weight Collecting = 2"
| "phase_weight (Draining r) = 1"
| "phase_weight (Finished out) = 0"

definition work_left :: "collector \<Rightarrow> nat" where
  "work_left s = 4 * length (unsubmitted s) + 3 * length (queued s) + 2 * length (running s) + length (resultCh s)
     + phase_weight (phase s) + (if parentDone s then 0 else 1)"

lemma work_decreases: "collect_step c data s s' \<Longrightarrow> work_left s' < work_left s"
  by (induction rule: collect_step.cases) (auto simp: work_left_def)

text \<open>A step of the runner or its workers, without the caller's cancellation and without a closed
  pool.\<close>

definition own_step :: "ctx \<Rightarrow> bytes \<Rightarrow> collector \<Rightarrow> collector \<Rightarrow> bool" where
  "own_step c data s s' \<longleftrightarrow> collect_step c data s s' \<and> parentDone s' = parentDone s \<and> phase s' \<noteq> Finished Aborted"

lemma not_stuck_collecting:
  assumes "count_inv s" "phase s = Collecting" "received s \<noteq> submitted s"
  shows "\<exists>s'. own_step c data s s'"
proof -
  have len: "received s < submitted s" "0 < length (queued s) + length (running s) + length (resultCh s)"
    using assms by (auto simp: count_inv_def early_def)
  consider its where "resultCh s = Skipped # its" | r e its where "resultCh s = Evaluated r e False # its"
    | r e its where "resultCh s = Evaluated r e True # its" | m ms where "queued s = [] @ m # ms"
    | m ms where "running s = [] @ m # ms"
  proof (cases "resultCh s")
    case Nil
    then show ?thesis using len(2) that(4,5) by (cases "queued s"; cases "running s") auto
  next
    case (Cons i its)
    then show ?thesis using that(1-3) by (metis (full_types) resultItem.exhaust)
  qed
  then show ?thesis
  proof cases
    case 1
    from receive_skipped [OF assms(2) len(1) 1, of c data] assms(2) show ?thesis
      unfolding own_step_def by fastforce
  next
    case 2
    from receive_negative [OF assms(2) len(1) 2, of c data] assms(2) show ?thesis
      unfolding own_step_def by fastforce
  next
    case 3
    from receive_match [OF assms(2) len(1) 3, of c data] show ?thesis unfolding own_step_def by fastforce
  next
    case 4
    from start [OF 4, of c data] bail_out [OF 4, of c data] assms(2) show ?thesis
      unfolding own_step_def by fastforce
  next
    case 5
    from send [OF 5, of c data] assms(2) show ?thesis unfolding own_step_def by fastforce
  qed
qed

lemma not_stuck:
  assumes "count_inv s" "\<And>out. phase s \<noteq> Finished out"
  shows "\<exists>s'. own_step c data s s'"
proof (cases "phase s")
  case Submitting
  from submit [OF Submitting, of _ _ c data] all_submitted [OF Submitting, of c data] Submitting
  show ?thesis unfolding own_step_def by (cases "unsubmitted s") fastforce+
next
  case Collecting
  show ?thesis
  proof (cases "received s = submitted s")
    case True
    from all_received [OF Collecting True, of c data] show ?thesis unfolding own_step_def by fastforce
  qed (rule not_stuck_collecting [OF assms(1) Collecting])
next
  case (Draining r)
  from drain_end [OF Draining, of c data] drain_skipped [OF Draining, of _ c data]
    drain_evaluated [OF Draining, of _ _ _ _ c data] Draining
  show ?thesis
    unfolding own_step_def by (cases "resultCh s"; cases "hd (resultCh s)") fastforce+
qed (use assms(2) in simp)

section \<open>The runner\<close>

record 'w ConcurrentRulesRunner =
  cr_cache :: "'w CacheStore option"
  cr_coalescing :: bool

definition NewConcurrentRulesRunner :: "'o RunnerOptions \<Rightarrow> 'w CacheStore option \<Rightarrow> 'w ConcurrentRulesRunner" where
  "NewConcurrentRulesRunner options cache = \<lparr>cr_cache = cache, cr_coalescing = coalescing options\<rparr>"

text \<open>The runner has its own copies of the helpers of the serial runner.\<close>

fun conc_classify_loop :: "ctx \<Rightarrow> bytes \<Rightarrow> results \<Rightarrow> Rule list \<Rightarrow> Entity list \<Rightarrow> ruleView list \<times> missingEvaluation list" where
  "conc_classify_loop c data cached [] seen = ([], [])"
| "conc_classify_loop c data cached (rule # rules) seen =
     (if Disable rule then conc_classify_loop c data cached rules seen
      else let e = rule_entity rule;
               view = \<lparr>view_rule = rule, view_entity = e, view_cached = False, view_result = False, view_excepted = False\<rparr>
           in case map_of cached e of
             Some result \<Rightarrow>
               (let (vs, ms) = conc_classify_loop c data cached rules seen
                in (view\<lparr>view_cached := True, view_result := result\<rparr> # vs, ms))
           | None \<Rightarrow>
               if isException c data (Exceptions rule) then
                 (let (vs, ms) = conc_classify_loop c data cached rules seen
                  in (view\<lparr>view_excepted := True\<rparr> # vs, ms))
               else if e \<in> set seen then
                 (let (vs, ms) = conc_classify_loop c data cached rules seen in (view # vs, ms))
               else
                 (let (vs, ms) = conc_classify_loop c data cached rules (e # seen)
                  in (view # vs, \<lparr>me_entity = e, me_rule = rule\<rparr> # ms)))"

definition conc_classifyRules :: "ctx \<Rightarrow> Rule list \<Rightarrow> bytes \<Rightarrow> results \<Rightarrow> ruleView list \<times> missingEvaluation list" where
  "conc_classifyRules c rules data cached = conc_classify_loop c data cached rules []"

definition conc_matchMissing :: "ctx \<Rightarrow> bytes \<Rightarrow> missingEvaluation list \<Rightarrow> results" where
  "conc_matchMissing c data missing =
     foldl (\<lambda>results m. AList.update (me_entity m) (rule_match (me_rule m) c data) results) [] missing"

definition conc_saveNegatives :: "'w CacheStore \<Rightarrow> ctx \<Rightarrow> bytes \<Rightarrow> results \<Rightarrow> 'w run_state \<Rightarrow> cache_error option \<times> 'w run_state" where
  "conc_saveNegatives store c data results st =
     (let negatives = map (\<lambda>(e, m). (e, False)) (filter (\<lambda>(e, m). \<not> m) results) in
      if length negatives = 0 then (None, st) else call_SaveMatches store c data negatives st)"

text \<open>What \<open>collectEvaluations\<close> returns when the collection has ended: the results (nil when the
  pool was closed), the matching rule, and the save error.\<close>

definition collectEvaluations :: "'w CacheStore \<Rightarrow> ctx \<Rightarrow> bytes \<Rightarrow> collector \<Rightarrow> 'w run_state \<Rightarrow> results option \<times> Rule option \<times> run_error option \<times> 'w run_state" where
  "collectEvaluations store c data fin st =
     (case phase fin of
        Finished Aborted \<Rightarrow> (None, None, Some ErrPoolClosed, st)
      | Finished (Found r) \<Rightarrow>
          (let (err, st') = conc_saveNegatives store c data (coll_results fin) st
           in (Some (coll_results fin), Some r, map_option CacheErr err, st'))
      | Finished Complete \<Rightarrow>
          (let (err, st') = conc_saveNegatives store c data (coll_results fin) st
           in (Some (coll_results fin), None, map_option CacheErr err, st'))
      | _ \<Rightarrow> (Some (coll_results fin), None, None, st))"

text \<open>\<open>winner\<close> and \<open>found\<close> are set when the caller's own function ran; a caller that waits for
  another flight sees their zero values.\<close>

definition own_winner :: "'w CacheStore \<Rightarrow> bool \<Rightarrow> flight \<Rightarrow> ctx \<Rightarrow> bytes \<Rightarrow> collector \<Rightarrow> 'w run_state \<Rightarrow> Rule option" where
  "own_winner store coal f c data fin st =
     (if coal \<and> f \<noteq> Leads then None else fst (snd (collectEvaluations store c data fin st)))"

definition conc_computation :: "'w CacheStore \<Rightarrow> ctx \<Rightarrow> bytes \<Rightarrow> collector \<Rightarrow> 'w run_state computation" where
  "conc_computation store c data fin st =
     (case collectEvaluations store c data fin st of (results, w, saveErr, st') \<Rightarrow> (results, saveErr, st'))"

text \<open>\<open>ctxErr\<close>: the caller's context is done when the flight has ended.\<close>

definition conc_evaluateMissing :: "'w CacheStore \<Rightarrow> bool \<Rightarrow> flight \<Rightarrow> collector \<Rightarrow> bool \<Rightarrow> ctx \<Rightarrow> bytes \<Rightarrow> missingEvaluation list \<Rightarrow> 'w run_state \<Rightarrow> results \<times> Rule option \<times> 'w run_state" where
  "conc_evaluateMissing store coal f fin ctxErr c data missing st =
     (case doToken coal f (tokenFlightKey data) (conc_computation store c data fin) st of
        (None, flightErr, st1) \<Rightarrow>
          ([], None, log_err ''Token evaluation did not complete'' flightErr st1)
      | (Some results, flightErr, st1) \<Rightarrow>
          (let st2 = log_err ''Failed to save matching rules in cache'' flightErr st1 in
           case own_winner store coal f c data fin st of
             Some w \<Rightarrow> (results, Some w, st2)
           | None \<Rightarrow>
               if ctxErr then (results, None, st2)
               else
                 let residual = residual_of results missing in
                 if length residual = 0 then (results, None, st2)
                 else let residualResults = conc_matchMissing c data residual;
                          (saveErr, st3) = conc_saveNegatives store c data residualResults st2;
                          st4 = log_err ''Failed to save matching rules in cache'' (map_option CacheErr saveErr) st3
                      in (maps_Copy (maps_Copy [] results) residualResults, None, st4)))"

text \<open>\<open>sched\<close> gives the state in which the collection for a missing set ends.\<close>

definition conc_Process :: "'w ConcurrentRulesRunner \<Rightarrow> flight \<Rightarrow> (missingEvaluation list \<Rightarrow> collector) \<Rightarrow> bool \<Rightarrow> ctx \<Rightarrow> Rule list \<Rightarrow> bytes \<Rightarrow> 'w run_state \<Rightarrow> (Rule option \<times> 'w run_state) result" where
  "conc_Process r f sched ctxErr c rules data st =
     (if length rules = 0 then Inr (None, st)
      else case cr_cache r of
        None \<Rightarrow> Inl NilDereference
      | Some store \<Rightarrow>
          let (cached, st1) = read_cached store c data st;
              (views, missing) = conc_classifyRules c rules data cached
          in if length missing > 0 then
               (case conc_evaluateMissing store (cr_coalescing r) f (sched missing) ctxErr c data missing st1 of
                  (evaluated, Some w, st2) \<Rightarrow> Inr (Some w, st2)
                | (evaluated, None, st2) \<Rightarrow> Inr (in_order_pass views evaluated, st2))
             else Inr (in_order_pass views [], st1))"

text \<open>The copies agree with the helpers of the serial runner.\<close>

lemma conc_classify_eq: "conc_classify_loop c data cached rules seen = classify_loop c data cached rules seen"
  by (induction rules arbitrary: seen) (simp_all add: Let_def case_prod_beta split: option.split)

lemma conc_helpers:
  "conc_classifyRules = classifyRules" "conc_matchMissing = matchMissing" "conc_saveNegatives = saveNegatives"
  by (simp_all add: fun_eq_iff conc_classifyRules_def classifyRules_def conc_classify_eq
      conc_matchMissing_def matchMissing_def conc_saveNegatives_def saveNegatives_def)

section \<open>Correctness\<close>

text \<open>A collection that is neither cancelled by the caller nor aborted.\<close>

definition undisturbed :: "ctx \<Rightarrow> bytes \<Rightarrow> missingEvaluation list \<Rightarrow> collector \<Rightarrow> bool" where
  "undisturbed c data missing fin \<longleftrightarrow> collects c data (start_collection False missing) fin
     \<and> \<not> parentDone fin \<and> (phase fin = Finished Complete \<or> (\<exists>r. phase fin = Finished (Found r)))"

text \<open>However a collection ends, what it has collected and the match it returns are answers of
  the matchers.\<close>

definition collected :: "ctx \<Rightarrow> bytes \<Rightarrow> missingEvaluation list \<Rightarrow> collector \<Rightarrow> bool" where
  "collected c data missing fin \<longleftrightarrow>
     (\<exists>b. collects c data (start_collection b missing) fin) \<and> (\<exists>out. phase fin = Finished out)"

lemma collected_inv: "collected c data missing fin \<Longrightarrow> collector_inv c data missing fin"
  using collector_inv_reachable by (auto simp: collected_def)

lemma undisturbed_collected: "undisturbed c data missing fin \<Longrightarrow> collected c data missing fin"
  by (auto simp: undisturbed_def collected_def)

lemma collected_sound:
  assumes "collected c data missing fin" "missing_ok verdict c data missing"
  shows "sound_results verdict data (coll_results fin)"
proof -
  have "\<forall>(e, b)\<in>set (coll_results fin). \<exists>m\<in>set missing. e = me_entity m \<and> b = rule_match (me_rule m) c data"
    using collected_inv [OF assms(1)] by (simp add: collector_inv_def results_inv_def)
  with assms(2) show ?thesis unfolding sound_results_def missing_ok_def by fastforce
qed

lemma collected_found:
  assumes "collected c data missing fin" "phase fin = Finished (Found r)"
  shows "\<exists>m\<in>set missing. r = me_rule m \<and> rule_match (me_rule m) c data"
  using collected_inv [OF assms(1)] assms(2) by (auto simp: collector_inv_def winner_inv_def)

lemma collected_complete:
  assumes "collected c data missing fin" "phase fin = Finished Complete" "\<not> parentDone fin" "m \<in> set missing"
  shows "me_entity m \<in> dom (map_of (coll_results fin)) \<and> \<not> rule_match (me_rule m) c data"
  using collected_inv [OF assms(1)] assms(2-4) by (auto simp: collector_inv_def coverage_inv_def)

lemmas undisturbed_results = collected_sound [OF undisturbed_collected]

lemmas undisturbed_found = collected_found [OF undisturbed_collected]

text \<open>The rules behind a missing set are enabled and not excepted.\<close>

lemma classify_missing_rules:
  "m \<in> set (snd (classify_loop c data cached rules seen)) \<Longrightarrow>
     me_rule m \<in> set rules \<and> \<not> Disable (me_rule m) \<and> \<not> isException c data (Exceptions (me_rule m))"
proof (induction rules arbitrary: seen)
  case (Cons r rules)
  then show ?case
    by (fastforce simp: Let_def case_prod_beta split: if_splits option.splits)
qed simp

definition conc_allowed :: "ctx \<Rightarrow> Rule list \<Rightarrow> bytes \<Rightarrow> Rule option \<Rightarrow> bool" where
  "conc_allowed c rules data r \<longleftrightarrow>
     (case r of None \<Rightarrow> first_match c rules data = None | Some x \<Rightarrow> x \<in> set rules \<and> applies c data x)"

lemma first_match_allowed: "conc_allowed c rules data (first_match c rules data)"
  using first_match_SomeD by (fastforce simp: conc_allowed_def split: option.splits)

text \<open>With sound results the final pass returns only rules that apply.\<close>

lemma in_order_pass_applies:
  assumes "in_order_pass (fst (classify_loop c data cached rules seen)) ev = Some x"
    and "verdicts_agree verdict c rules" "sound_results verdict data ev"
    and "\<And>e b. map_of cached e = Some b \<Longrightarrow> \<not> b \<and> \<not> verdict e data"
  shows "x \<in> set rules \<and> applies c data x"
  using assms
proof (induction rules arbitrary: seen)
  case (Cons r rules)
  have r: "rule_match r c data = verdict (rule_entity r) data" and rs: "verdicts_agree verdict c rules"
    using Cons.prems(2) by (simp_all add: verdicts_agree_def)
  note IH = Cons.IH [OF _ rs Cons.prems(3,4)]
  have "\<not> b" if "map_of cached (rule_entity r) = Some b" for b using that Cons.prems(4) by blast
  moreover have "b = verdict (rule_entity r) data" if "map_of ev (rule_entity r) = Some b" for b
    using that Cons.prems(3) by (rule sound_resultsD [rotated])
  ultimately show ?case
    using Cons.prems(1) IH r
    by (fastforce simp: Let_def case_prod_beta applies_def split: if_splits option.splits)
qed simp

context cache_store
begin

lemma collect_keeps:
  assumes "sound_state verdict st" "sound_results verdict data (coll_results fin)"
  shows "sound_state verdict (snd (snd (conc_computation store c data fin st)))"
  using assms saveNegatives_keeps [OF assms, of c]
  by (auto simp: conc_computation_def collectEvaluations_def conc_helpers case_prod_beta Let_def
      split: phase.splits outcome.splits)

lemma conc_evaluate:
  assumes "sound_state verdict st" "missing_ok verdict c data missing" "undisturbed c data missing fin"
    "completes coal f" "\<And>m. shared_value f = Some m \<Longrightarrow> sound_results verdict data m"
  shows "\<exists>ev w st'. conc_evaluateMissing store coal f fin False c data missing st = (ev, w, st')
     \<and> sound_state verdict st'
     \<and> (case w of Some x \<Rightarrow> \<exists>m\<in>set missing. x = me_rule m \<and> rule_match (me_rule m) c data
                 | None \<Rightarrow> answers verdict data missing ev)"
proof -
  let ?fn = "conc_computation store c data fin"
  let ?d = "doToken coal f (tokenFlightKey data) ?fn st"
  have sound: "sound_results verdict data (coll_results fin)" by (rule undisturbed_results [OF assms(3,2)])
  have fn: "fst (?fn st) = Some (coll_results fin)"
    using assms(3) by (auto simp: undisturbed_def conc_computation_def collectEvaluations_def case_prod_beta Let_def)
  then obtain m where m: "fst ?d = Some m" using completes_delivers [OF assms(4), of ?fn st] by auto
  have "sound_results verdict data m"
    using m by (rule chosen.delivered_property) (use fn sound assms(5) in auto)
  moreover have "sound_state verdict (snd (snd ?d))"
    by (rule chosen.effects_invariant [where I = "sound_state verdict"]) (simp_all add: assms(1) collect_keeps sound)
  ultimately have d: "sound_results verdict data m" "sound_state verdict (snd (snd ?d))" .
  let ?st2 = "log_err ''Failed to save matching rules in cache'' (fst (snd ?d)) (snd (snd ?d))"
  show ?thesis
  proof (cases "own_winner store coal f c data fin st")
    case (Some w)
    then have "phase fin = Finished (Found w)"
      by (auto simp: own_winner_def collectEvaluations_def case_prod_beta Let_def
          split: if_splits phase.splits outcome.splits)
    with undisturbed_found [OF assms(3)] Some m d(2) show ?thesis
      by (cases ?d) (simp add: conc_evaluateMissing_def Let_def)
  next
    case None
    have "conc_evaluateMissing store coal f fin False c data missing st =
        (fst (finish_residual store c data missing m ?st2), None, snd (finish_residual store c data missing m ?st2))"
      using m None by (cases ?d) (simp add: conc_evaluateMissing_def finish_residual_def conc_helpers case_prod_beta Let_def)
    with finish_residual_answers [OF assms(2) d(1)] finish_residual_keeps [of verdict ?st2 c data missing m] d(2) assms(2)
    show ?thesis by simp
  qed
qed

lemma conc_Process_allowed:
  assumes "sound_state verdict st" "verdicts_agree verdict c rules" "completes coal f"
    "\<And>m. shared_value f = Some m \<Longrightarrow> sound_results verdict data m"
    "\<And>missing. undisturbed c data missing (sched missing)"
  shows "\<exists>r st'. conc_Process \<lparr>cr_cache = Some store, cr_coalescing = coal\<rparr> f sched False c rules data st = Inr (r, st')
     \<and> conc_allowed c rules data r \<and> sound_state verdict st'"
proof -
  obtain cached st1 where rc: "read_cached store c data st = (cached, st1)" by fastforce
  obtain views missing where cl: "classify_loop c data cached rules [] = (views, missing)" by fastforce
  note neg = read_cached_facts(2) [OF assms(1), of c data, unfolded rc fst_conv]
  have st1: "sound_state verdict st1" using read_cached_facts(1) [OF assms(1), of c data] rc by simp
  have ok: "missing_ok verdict c data missing"
    using classify_missing_ok [OF assms(2), of data cached "[]"] cl by simp
  have pass: "in_order_pass views ev = first_match c rules data" if "answers verdict data missing ev" for ev
    using in_order_pass_first_match [where cached = cached and queued = "[]" and ev = ev, OF assms(2) neg] that cl by simp
  obtain ev w st2 where ev: "conc_evaluateMissing store coal f (sched missing) False c data missing st1 = (ev, w, st2)"
    and st2: "sound_state verdict st2"
    and w: "case w of Some x \<Rightarrow> \<exists>m\<in>set missing. x = me_rule m \<and> rule_match (me_rule m) c data
                 | None \<Rightarrow> answers verdict data missing ev"
    using conc_evaluate [OF st1 ok assms(5,3,4)] by blast
  note unf = conc_Process_def conc_helpers classifyRules_def
  consider "rules = []" | "rules \<noteq> []" "missing = []" | x where "rules \<noteq> []" "missing \<noteq> []" "w = Some x"
    | "rules \<noteq> []" "missing \<noteq> []" "w = None" by blast
  then show ?thesis
  proof cases
    case 1
    then show ?thesis using assms(1) by (simp add: unf conc_allowed_def first_match_def)
  next
    case 2
    then have "answers verdict data missing []" by (simp add: answers_def)
    with 2 st1 pass first_match_allowed [of c rules data] show ?thesis
      by (auto simp: unf rc cl)
  next
    case (3 x)
    then obtain m where "m \<in> set missing" "x = me_rule m" "rule_match (me_rule m) c data" using w by auto
    then have "x \<in> set rules \<and> applies c data x"
      using classify_missing_rules [of m c data cached rules "[]"] cl by (simp add: applies_def)
    with 3 st2 ev show ?thesis by (auto simp: unf rc cl conc_allowed_def)
  next
    case 4
    with w pass [of ev] st2 ev first_match_allowed [of c rules data] show ?thesis
      by (auto simp: unf rc cl)
  qed
qed

text \<open>Whatever the collection and the flight end in, the evaluation keeps the cache sound, its
  results are sound, and its winner is a matching rule of the missing set.\<close>

lemma conc_evaluate_safe:
  assumes "sound_state verdict st" "missing_ok verdict c data missing" "collected c data missing fin"
    "\<And>m. shared_value f = Some m \<Longrightarrow> sound_results verdict data m"
    "conc_evaluateMissing store coal f fin ctxErr c data missing st = (ev, w, st')"
  shows "sound_state verdict st' \<and> sound_results verdict data ev
     \<and> (\<forall>x. w = Some x \<longrightarrow> (\<exists>m\<in>set missing. x = me_rule m \<and> rule_match (me_rule m) c data))"
proof -
  let ?fn = "conc_computation store c data fin"
  let ?d = "doToken coal f (tokenFlightKey data) ?fn st"
  have sound: "sound_results verdict data (coll_results fin)" by (rule collected_sound [OF assms(3,2)])
  have fn: "m = coll_results fin" if "fst (?fn st) = Some m" for m
    using that by (auto simp: conc_computation_def collectEvaluations_def case_prod_beta Let_def
        split: phase.splits outcome.splits)
  have d: "sound_state verdict (snd (snd ?d))"
    by (rule chosen.effects_invariant [where I = "sound_state verdict"]) (simp_all add: assms(1) collect_keeps sound)
  let ?st2 = "log_err ''Failed to save matching rules in cache'' (fst (snd ?d)) (snd (snd ?d))"
  have win: "\<exists>m\<in>set missing. x = me_rule m \<and> rule_match (me_rule m) c data"
    if "own_winner store coal f c data fin st = Some x" for x
  proof -
    from that have "phase fin = Finished (Found x)"
      by (auto simp: own_winner_def collectEvaluations_def case_prod_beta Let_def
          split: if_splits phase.splits outcome.splits)
    then show ?thesis by (rule collected_found [OF assms(3)])
  qed
  show ?thesis
  proof (cases "fst ?d")
    case None
    with assms(5) d show ?thesis
      by (cases ?d) (auto simp: conc_evaluateMissing_def sound_results_def)
  next
    case (Some m)
    then have m: "sound_results verdict data m"
      by (rule chosen.delivered_property) (use fn sound assms(4) in auto)
    let ?fr = "finish_residual store c data missing m ?st2"
    have fr: "sound_state verdict (snd ?fr)" using d by (intro finish_residual_keeps assms(2)) simp
    have frs: "sound_results verdict data (fst ?fr)" by (rule finish_residual_sound [OF assms(2) m])
    have "(ev, w, st') = (m, own_winner store coal f c data fin st, ?st2)
        \<or> (ev, w, st') = (fst ?fr, None, snd ?fr)"
      using assms(5) Some
      by (cases ?d) (auto simp: conc_evaluateMissing_def finish_residual_def conc_helpers case_prod_beta Let_def
          split: option.splits if_splits)
    then show ?thesis using m d fr frs win by auto
  qed
qed

lemma conc_Process_safe:
  assumes "sound_state verdict st" "verdicts_agree verdict c rules"
    "\<And>m. shared_value f = Some m \<Longrightarrow> sound_results verdict data m"
    "\<And>missing. collected c data missing (sched missing)"
  shows "\<exists>r st'. conc_Process \<lparr>cr_cache = Some store, cr_coalescing = coal\<rparr> f sched ctxErr c rules data st = Inr (r, st')
     \<and> (\<forall>x. r = Some x \<longrightarrow> x \<in> set rules \<and> applies c data x) \<and> sound_state verdict st'"
proof -
  obtain cached st1 where rc: "read_cached store c data st = (cached, st1)" by fastforce
  obtain views missing where cl: "classify_loop c data cached rules [] = (views, missing)" by fastforce
  note neg = read_cached_facts(2) [OF assms(1), of c data, unfolded rc fst_conv]
  have st1: "sound_state verdict st1" using read_cached_facts(1) [OF assms(1), of c data] rc by simp
  have ok: "missing_ok verdict c data missing"
    using classify_missing_ok [OF assms(2), of data cached "[]"] cl by simp
  have pass: "x \<in> set rules \<and> applies c data x"
    if "in_order_pass views ev = Some x" "sound_results verdict data ev" for ev x
    using in_order_pass_applies [where cached = cached and seen = "[]", OF _ assms(2) that(2) neg] that(1) cl by simp
  obtain ev w st2 where ev: "conc_evaluateMissing store coal f (sched missing) ctxErr c data missing st1 = (ev, w, st2)"
    by (rule prod_cases3)
  have safe: "sound_state verdict st2 \<and> sound_results verdict data ev
     \<and> (\<forall>x. w = Some x \<longrightarrow> (\<exists>m\<in>set missing. x = me_rule m \<and> rule_match (me_rule m) c data))"
    using st1 ok assms(4) assms(3) ev by (rule conc_evaluate_safe)
  have win: "x \<in> set rules \<and> applies c data x" if w: "w = Some x" for x
  proof -
    obtain m where "m \<in> set missing" "x = me_rule m" "rule_match (me_rule m) c data" using safe w by blast
    then show ?thesis using classify_missing_rules [of m c data cached rules "[]"] cl by (simp add: applies_def)
  qed
  note unf = conc_Process_def conc_helpers classifyRules_def
  consider "rules = []" | "rules \<noteq> []" "missing = []" | "rules \<noteq> []" "missing \<noteq> []" by blast
  then show ?thesis
  proof cases
    case 1
    then show ?thesis using assms(1) by (simp add: unf)
  next
    case 2
    with st1 pass [of "[]"] show ?thesis by (simp add: unf rc cl sound_results_def)
  next
    case 3
    with safe win pass [of ev] ev show ?thesis by (cases w) (auto simp: unf rc cl)
  qed
qed

end

section \<open>An executable schedule\<close>

text \<open>All workers finish before the collector receives: the first match in rule order is received
  and the rest is drained.\<close>

fun eager_drain :: "Rule \<Rightarrow> resultItem list \<Rightarrow> collector \<Rightarrow> collector" where
  "eager_drain r [] s = s\<lparr>phase := Finished (Found r)\<rparr>"
| "eager_drain r (Skipped # its) s = eager_drain r its (s\<lparr>resultCh := its\<rparr>)"
| "eager_drain r (Evaluated r' e b # its) s =
     eager_drain r its (s\<lparr>resultCh := its, coll_results := AList.update e b (coll_results s)\<rparr>)"

fun eager_collect :: "resultItem list \<Rightarrow> collector \<Rightarrow> collector" where
  "eager_collect [] s = s\<lparr>matchDone := True, phase := Finished Complete\<rparr>"
| "eager_collect (Skipped # its) s = eager_collect its (s\<lparr>resultCh := its, received := received s + 1\<rparr>)"
| "eager_collect (Evaluated r e b # its) s =
     (let s' = s\<lparr>resultCh := its, received := received s + 1, coll_results := AList.update e b (coll_results s)\<rparr>
      in if b then eager_drain r its (s'\<lparr>matchDone := True, phase := Draining r\<rparr>) else eager_collect its s')"

definition eager_schedule :: "ctx \<Rightarrow> bytes \<Rightarrow> missingEvaluation list \<Rightarrow> collector" where
  "eager_schedule c data missing =
     (let its = map (worker_item c data) missing
      in eager_collect its ((start_collection False missing)\<lparr>unsubmitted := [], resultCh := its,
           submitted := length missing, phase := Collecting\<rparr>))"

lemma eager_drain_collects:
  "phase s = Draining r \<Longrightarrow> resultCh s = its \<Longrightarrow>
     collects c data s (eager_drain r its s) \<and> parentDone (eager_drain r its s) = parentDone s
     \<and> phase (eager_drain r its s) = Finished (Found r)"
proof (induction r its s rule: eager_drain.induct)
  case (1 r s)
  then show ?case using drain_end by auto
next
  case (2 r its s)
  from drain_skipped [OF 2(2,3)] have "collect_step c data s (s\<lparr>resultCh := its\<rparr>)" .
  with 2 show ?case by (auto intro: converse_rtranclp_into_rtranclp)
next
  case (3 r r' e b its s)
  from drain_evaluated [OF 3(2,3)]
  have "collect_step c data s (s\<lparr>resultCh := its, coll_results := AList.update e b (coll_results s)\<rparr>)" .
  with 3 show ?case by (auto intro: converse_rtranclp_into_rtranclp)
qed

lemma eager_collect_collects:
  "phase s = Collecting \<Longrightarrow> resultCh s = its \<Longrightarrow> submitted s = received s + length its \<Longrightarrow>
     collects c data s (eager_collect its s) \<and> parentDone (eager_collect its s) = parentDone s
     \<and> (phase (eager_collect its s) = Finished Complete \<or> (\<exists>r. phase (eager_collect its s) = Finished (Found r)))"
proof (induction its s rule: eager_collect.induct)
  case (1 s)
  then show ?case using all_received by auto
next
  case (2 its s)
  from receive_skipped [OF 2(2) _ 2(3)] 2(4)
  have "collect_step c data s (s\<lparr>resultCh := its, received := received s + 1\<rparr>)" by simp
  with 2 show ?case by (auto intro: converse_rtranclp_into_rtranclp)
next
  case (3 r e b its s)
  let ?s' = "s\<lparr>resultCh := its, received := received s + 1, coll_results := AList.update e b (coll_results s)\<rparr>"
  show ?case
  proof (cases b)
    case True
    let ?d = "?s'\<lparr>matchDone := True, phase := Draining r\<rparr>"
    have "collect_step c data s ?d"
      using receive_match [of s r e its c data] "3.prems" True by simp
    with eager_drain_collects [of ?d r its c data] True show ?thesis
      by (auto simp: Let_def intro: converse_rtranclp_into_rtranclp)
  next
    case False
    have "collect_step c data s ?s'"
      using receive_negative [of s r e its c data] "3.prems" False by simp
    with 3 False show ?thesis by (auto simp: Let_def intro: converse_rtranclp_into_rtranclp)
  qed
qed

lemma eager_submit:
  assumes "phase s = Submitting" "unsubmitted s = ms" "queued s = []" "running s = []" "\<not> matchCtx_done s"
  shows "collects c data s (s\<lparr>unsubmitted := [], resultCh := resultCh s @ map (worker_item c data) ms,
     submitted := submitted s + length ms\<rparr>)"
  using assms
proof (induction ms arbitrary: s)
  case Nil
  then show ?case by (cases s) simp
next
  case (Cons m ms)
  let ?s1 = "s\<lparr>unsubmitted := ms, queued := queued s @ [m], submitted := submitted s + 1\<rparr>"
  let ?s2 = "?s1\<lparr>queued := [] @ [], running := running ?s1 @ [m]\<rparr>"
  let ?s3 = "?s2\<lparr>running := [] @ [], resultCh := resultCh ?s2 @ [worker_item c data m]\<rparr>"
  have 1: "collect_step c data s ?s1" using Cons.prems by (intro submit)
  have 2: "collect_step c data ?s1 ?s2"
    using Cons.prems by (intro start) (simp_all add: matchCtx_done_def)
  have 3: "collect_step c data ?s2 ?s3" using Cons.prems by (intro send) simp
  have "collects c data ?s3 (?s3\<lparr>unsubmitted := [], resultCh := resultCh ?s3 @ map (worker_item c data) ms,
     submitted := submitted ?s3 + length ms\<rparr>)"
    using Cons.prems by (intro Cons.IH) (simp_all add: matchCtx_done_def)
  moreover have "?s3\<lparr>unsubmitted := [], resultCh := resultCh ?s3 @ map (worker_item c data) ms,
     submitted := submitted ?s3 + length ms\<rparr> = s\<lparr>unsubmitted := [], resultCh := resultCh s @ map (worker_item c data) (m # ms),
     submitted := submitted s + length (m # ms)\<rparr>"
    using Cons.prems by simp
  ultimately show ?case
    using 1 2 3 by (metis (no_types, lifting) converse_rtranclp_into_rtranclp)
qed

lemma eager_undisturbed: "undisturbed c data missing (eager_schedule c data missing)"
proof -
  let ?its = "map (worker_item c data) missing"
  let ?s0 = "start_collection False missing"
  let ?s1 = "?s0\<lparr>unsubmitted := [], resultCh := ?its, submitted := length missing\<rparr>"
  let ?s2 = "?s1\<lparr>phase := Collecting\<rparr>"
  have "collects c data ?s0 ?s1"
    using eager_submit [of ?s0 missing c data] by (simp add: start_collection_def matchCtx_done_def)
  also have "collect_step c data ?s1 ?s2" by (intro all_submitted) (simp_all add: start_collection_def)
  also (rtranclp.rtrancl_into_rtrancl) have "collects c data ?s2 (eager_collect ?its ?s2)"
    using eager_collect_collects [of ?s2 ?its c data] by (simp add: start_collection_def)
  finally show ?thesis
    using eager_collect_collects [of ?s2 ?its c data]
    by (simp add: undisturbed_def eager_schedule_def Let_def start_collection_def)
qed

section \<open>The runner as a rule runner\<close>

text \<open>The state of the runner: what its runs keep, and whether its pool has been released.  A
  released pool rejects the first submission, which ends the collection.\<close>

definition closed_collection :: "missingEvaluation list \<Rightarrow> collector" where
  "closed_collection missing = (start_collection False missing)\<lparr>matchDone := True, phase := Finished Aborted\<rparr>"

lemma closed_collection_step:
  "missing \<noteq> [] \<Longrightarrow> collect_step c data (start_collection False missing) (closed_collection missing)"
  using pool_closed [of "start_collection False missing" "hd missing" "tl missing" c data]
  by (simp add: closed_collection_def start_collection_def)

definition conc_step :: "'w ConcurrentRulesRunner \<Rightarrow> (bytes \<Rightarrow> flight) \<Rightarrow> (ctx \<Rightarrow> bytes \<Rightarrow> missingEvaluation list \<Rightarrow> collector) \<Rightarrow> ('w run_state \<times> bool) Process_fun" where
  "conc_step r fl sched c rules data sr =
     (case conc_Process r (fl data) (if snd sr then closed_collection else sched c data) False c rules data (fst sr) of
        Inl p \<Rightarrow> Inl p
      | Inr (w, st) \<Rightarrow> Inr (w, (st, snd sr)))"

definition conc_Stop :: "'w run_state \<times> bool \<Rightarrow> 'w run_state \<times> bool" where
  "conc_Stop sr = (fst sr, True)"

definition conc_runner :: "'w ConcurrentRulesRunner \<Rightarrow> (bytes \<Rightarrow> flight) \<Rightarrow> (ctx \<Rightarrow> bytes \<Rightarrow> missingEvaluation list \<Rightarrow> collector) \<Rightarrow> ('w run_state \<times> bool) RuleRunner" where
  "conc_runner r fl sched = \<lparr>runner_Process = conc_step r fl sched, runner_Stop = conc_Stop\<rparr>"

definition conc_inv :: "('w \<Rightarrow> bytes \<Rightarrow> Entity \<Rightarrow> bool option) \<Rightarrow> (Entity \<Rightarrow> bytes \<Rightarrow> bool) \<Rightarrow> ctx \<Rightarrow> Rule list \<Rightarrow> 'w run_state \<times> bool \<Rightarrow> bool" where
  "conc_inv content verdict c rules sr \<longleftrightarrow>
     verdicts_agree verdict c rules \<and> cache_store.negatives_only content verdict (cache_state (fst sr)) \<and> \<not> snd sr"

lemma conc_sound_runner:
  assumes "cache_store store content" "flight_ok verdict coal fl"
    "\<And>c data missing. undisturbed c data missing (sched c data missing)"
  shows "sound_runner (conc_step \<lparr>cr_cache = Some store, cr_coalescing = coal\<rparr> fl sched)
     (conc_inv content verdict) conc_allowed"
proof unfold_locales
  fix c rules d and sr :: "'a run_state \<times> bool"
  assume inv: "conc_inv content verdict c rules sr"
  have fl: "completes coal (fl d)" "\<And>m. shared_value (fl d) = Some m \<Longrightarrow> sound_results verdict d m"
    using assms(2) by (auto simp: flight_ok_def split: option.splits)
  obtain r st' where "conc_Process \<lparr>cr_cache = Some store, cr_coalescing = coal\<rparr> (fl d) (sched c d) False c rules d (fst sr)
      = Inr (r, st')" "conc_allowed c rules d r" "cache_store.negatives_only content verdict (cache_state st')"
    using cache_store.conc_Process_allowed [OF assms(1) _ _ fl assms(3), of "fst sr" c rules] inv
    by (auto simp: conc_inv_def)
  with inv show "\<exists>r s'. conc_step \<lparr>cr_cache = Some store, cr_coalescing = coal\<rparr> fl sched c rules d sr = Inr (r, s')
      \<and> conc_allowed c rules d r \<and> conc_inv content verdict c rules s'"
    by (simp add: conc_step_def conc_inv_def)
qed

text \<open>After \<open>Stop\<close> a run that leads its own evaluation gets no results, and only cached positive
  answers, which the runners never write, could still match.\<close>

lemma cached_negatives_pass:
  "(\<forall>e b. map_of cached e = Some b \<longrightarrow> \<not> b) \<Longrightarrow>
     in_order_pass (fst (classify_loop c data cached rules seen)) [] = None"
  by (induction rules arbitrary: seen) (auto simp: Let_def case_prod_beta split: option.split)

lemma stopped_Process:
  assumes "cache_store store content" "cache_store.negatives_only content verdict (cache_state st)" "coal \<longrightarrow> f = Leads"
  shows "\<exists>st'. conc_Process \<lparr>cr_cache = Some store, cr_coalescing = coal\<rparr> f closed_collection False c rules data st
     = Inr (None, st') \<and> cache_store.negatives_only content verdict (cache_state st')"
proof -
  obtain cached st1 where rc: "read_cached store c data st = (cached, st1)" by fastforce
  note facts = cache_store.read_cached_facts [OF assms(1,2), of c data, unfolded rc]
  have neg: "\<forall>e b. map_of cached e = Some b \<longrightarrow> \<not> b" using facts(2) by auto
  have ev: "conc_evaluateMissing store coal f (closed_collection missing) False c data missing st1
      = ([], None, log_err ''Token evaluation did not complete'' (Some ErrPoolClosed) st1)" for missing
    using assms(3)
    by (auto simp: conc_evaluateMissing_def doToken_def disabled_doToken_def single_doToken_def doShared_def
        conc_computation_def collectEvaluations_def closed_collection_def)
  show ?thesis
    using assms(2) facts(1) cached_negatives_pass [OF neg, of c data rules "[]"]
    by (auto simp: conc_Process_def conc_helpers classifyRules_def rc ev case_prod_beta log_err_def record_item_def)
qed

lemma leads_ok: "flight_ok verdict coal (\<lambda>d. Leads)"
  by (simp add: flight_ok_def completes_def shared_value_def)

interpretation conc_noop: sound_runner
  "conc_step \<lparr>cr_cache = Some NoopRuleMatchingCache, cr_coalescing = coal\<rparr> (\<lambda>d. Leads) eager_schedule"
  "conc_inv (\<lambda>w d e. None) verdict" conc_allowed
  for coal verdict
  by (rule conc_sound_runner) (rule noop.cache_store_axioms leads_ok eager_undisturbed)+

text \<open>With a cache a run always returns.\<close>

lemma conc_Process_returns:
  assumes "cr_cache r = Some store"
  obtains w st' where "conc_Process r f sched ctxErr c rules data st = Inr (w, st')"
proof -
  have "\<exists>p. conc_Process r f sched ctxErr c rules data st = Inr p"
    using assms by (simp add: conc_Process_def case_prod_beta Let_def split: option.split)
  then show thesis using that by auto
qed

section \<open>Cache traffic\<close>

lemma traffic_collect: "traffic data 1 st (snd (snd (conc_computation store c data fin st)))"
  using traffic_saveNegatives [of data st store c "coll_results fin"]
  by (auto simp: conc_computation_def collectEvaluations_def conc_helpers case_prod_beta Let_def traffic_refl
      split: phase.splits outcome.splits)

text \<open>Only a collection that has received every item or a match saves; the first covers the
  missing set unless the caller's context is done, the second ends the evaluation.\<close>

lemma collect_silent:
  assumes "collected c data missing fin" "fst (conc_computation store c data fin st) = Some m"
    "fst (snd (collectEvaluations store c data fin st)) = None" "\<not> parentDone fin"
  shows "residual_of m missing = [] \<or> snd (snd (conc_computation store c data fin st)) = st"
proof (cases "phase fin = Finished Complete")
  case True
  then have "m = coll_results fin"
    using assms(2) by (simp add: conc_computation_def collectEvaluations_def case_prod_beta Let_def)
  then have "map_of m (me_entity x) \<noteq> None" if "x \<in> set missing" for x
    using collected_complete [OF assms(1) True assms(4) that] by auto
  then show ?thesis by (simp add: residual_of_def filter_empty_conv)
next
  case False
  then show ?thesis
    using assms(3) by (auto simp: conc_computation_def collectEvaluations_def case_prod_beta Let_def
        split: phase.splits outcome.splits)
qed

lemma traffic_conc_evaluate:
  assumes "collected c data missing fin" "parentDone fin \<longrightarrow> ctxErr"
  shows "traffic data 1 st (snd (snd (conc_evaluateMissing store coal f fin ctxErr c data missing st)))"
proof -
  let ?fn = "conc_computation store c data fin"
  let ?d = "doToken coal f (tokenFlightKey data) ?fn st"
  let ?log = "log_err ''Failed to save matching rules in cache''"
  let ?st2 = "?log (fst (snd ?d)) (snd (snd ?d))"
  let ?e = "snd (snd (conc_evaluateMissing store coal f fin ctxErr c data missing st))"
  have d: "traffic data 1 st (snd (snd ?d))"
    by (rule chosen.effects_invariant [where I = "traffic data 1 st"]) (rule traffic_refl traffic_collect)+
  have logged: "traffic data 1 st (log_err msg e (snd (snd ?d)))" for msg e
    using traffic_trans [OF d traffic_log] by simp
  show ?thesis
  proof (cases "fst ?d")
    case None
    then have "?e = log_err ''Token evaluation did not complete'' (fst (snd ?d)) (snd (snd ?d))"
      by (cases ?d) (simp add: conc_evaluateMissing_def)
    then show ?thesis using logged by simp
  next
    case (Some m)
    show ?thesis
    proof (cases "own_winner store coal f c data fin st = None \<and> \<not> ctxErr \<and> residual_of m missing \<noteq> []")
      case False
      with Some have "?e = ?st2"
        by (cases ?d) (auto simp: conc_evaluateMissing_def Let_def split: option.split)
      then show ?thesis using logged by simp
    next
      case True
      have "snd (snd ?d) = st"
      proof (cases "coal \<and> f \<noteq> Leads")
        case True
        then show ?thesis using doToken_waits [OF _ Some] by simp
      next
        case False
        then have "?d = ?fn st" by (rule doToken_leads)
        then show ?thesis
          using collect_silent [OF assms(1), of store st m] Some True False assms(2) by (auto simp: own_winner_def)
      qed
      moreover have "?e = snd (finish_residual store c data missing m ?st2)"
        using Some True
        by (cases ?d) (simp add: conc_evaluateMissing_def finish_residual_def conc_helpers case_prod_beta Let_def)
      ultimately show ?thesis using traffic_trans [OF traffic_log traffic_finish] by simp
    qed
  qed
qed

section \<open>Properties\<close>

text \<open>C14: A collection always ends: no infinite sequence of steps exists, and in every reachable
  state that has not ended the runner or a worker can take a step of its own, so it is
  never stuck waiting.\<close>

theorem collection_terminates:
  "wfP (\<lambda>s' s. collect_step c data s s') \<and>
   (collects c data (start_collection b missing) s \<and> (\<forall>out. phase s \<noteq> Finished out) \<longrightarrow>
      (\<exists>s'. own_step c data s s'))"
proof -
  have "wfP (\<lambda>s' s. collect_step c data s s')"
    by (rule wfp_if_convertible_to_nat [where f = work_left]) (rule work_decreases)
  moreover have "\<exists>s'. own_step c data s s'"
    if "collects c data (start_collection b missing) s" "\<forall>out. phase s \<noteq> Finished out"
    using not_stuck [of s] collector_inv_reachable [OF that(1)] that(2) by (simp add: collector_inv_def)
  ultimately show ?thesis by blast
qed

theorem collection_terminates_witness:
  "\<exists>s'. own_step background (str ''x'') (start_collection False [\<lparr>me_entity = EntityEmail, me_rule = DefaultEmailRule\<rparr>]) s'"
  using collection_terminates [of background "str ''x''" False
      "[\<lparr>me_entity = EntityEmail, me_rule = DefaultEmailRule\<rparr>]"
      "start_collection False [\<lparr>me_entity = EntityEmail, me_rule = DefaultEmailRule\<rparr>]"]
  by (simp add: start_collection_def)

text \<open>C12: With a cache that keeps its contract and holds only true negative answers, with rules of
  which those of the same entity agree on every token, and in a flight that completes with
  true answers, a concurrent run whose
  collection is neither cancelled nor aborted reports a match exactly when some rule
  applies, and the rule it reports is one that applies; the cache keeps only negative
  answers.  This holds for every interleaving of the workers.\<close>

theorem concurrent_reports_applicable_rule:
  assumes "cache_store store content"
    and "cache_store.negatives_only content verdict (cache_state st)"
    and "verdicts_agree verdict c rules"
    and "completes coal f"
    and "\<And>m. shared_value f = Some m \<Longrightarrow> sound_results verdict data m"
    and "\<And>missing. undisturbed c data missing (sched missing)"
  shows "\<exists>r st'. conc_Process \<lparr>cr_cache = Some store, cr_coalescing = coal\<rparr> f sched False c rules data st = Inr (r, st')
     \<and> (case r of None \<Rightarrow> first_match c rules data = None | Some x \<Rightarrow> x \<in> set rules \<and> applies c data x)
     \<and> cache_store.negatives_only content verdict (cache_state st')"
  using cache_store.conc_Process_allowed [OF assms] unfolding conc_allowed_def .

theorem concurrent_reports_applicable_rule_witness:
  "\<exists>r st'. conc_Process \<lparr>cr_cache = Some NoopRuleMatchingCache, cr_coalescing = False\<rparr> Leads
       (eager_schedule background (str ''a@b.co'')) False background default_rules (str ''a@b.co'')
       \<lparr>cache_state = (), trace = []\<rparr> = Inr (Some r, st')
     \<and> applies background (str ''a@b.co'') r"
proof -
  define d where "d = str ''a@b.co''"
  have m: "MatchEmailV2 d" unfolding d_def by code_simp
  then have "first_match background default_rules d \<noteq> None"
    unfolding first_match_Some_iff using default_applies(3) [of background d]
    by (auto simp: default_rules_def)
  moreover have "\<exists>r st'. conc_Process \<lparr>cr_cache = Some NoopRuleMatchingCache, cr_coalescing = False\<rparr> Leads
       (eager_schedule background d) False background default_rules d \<lparr>cache_state = (), trace = []\<rparr> = Inr (r, st')
     \<and> (case r of None \<Rightarrow> first_match background default_rules d = None
         | Some x \<Rightarrow> x \<in> set default_rules \<and> applies background d x)
     \<and> cache_store.negatives_only (\<lambda>w d e. None) (rule_verdict background default_rules) (cache_state st')"
    by (intro concurrent_reports_applicable_rule)
      (auto simp: noop.cache_store_axioms noop.negatives_only_def distinct_entities_agree
        default_rules_consistent completes_def shared_value_def eager_undisturbed)
  ultimately show ?thesis unfolding d_def by (auto split: option.splits)
qed

text \<open>C13: With a cache that keeps its contract and holds only true negative answers, with rules of
  which those of the same entity agree on every token, and when a value shared by another
  caller's flight holds true answers: whether the collection completes, is cancelled by the
  caller or is aborted by a closed pool, and whether the flight leads, waits or is abandoned, a
  concurrent run does not panic, a rule it reports is one of the rules and applies, and the
  cache keeps only true negative answers.  A disturbed run can miss a match but never makes
  one up and never poisons the cache.\<close>

theorem concurrent_run_safe:
  assumes "cache_store store content"
    and "cache_store.negatives_only content verdict (cache_state st)"
    and "verdicts_agree verdict c rules"
    and "\<And>m. shared_value f = Some m \<Longrightarrow> sound_results verdict data m"
    and "\<And>missing. collected c data missing (sched missing)"
  shows "\<exists>r st'. conc_Process \<lparr>cr_cache = Some store, cr_coalescing = coal\<rparr> f sched ctxErr c rules data st = Inr (r, st')
     \<and> (\<forall>x. r = Some x \<longrightarrow> x \<in> set rules \<and> applies c data x)
     \<and> cache_store.negatives_only content verdict (cache_state st')"
  using assms by (rule cache_store.conc_Process_safe)

theorem concurrent_run_safe_witness:
  "\<exists>r st'. conc_Process \<lparr>cr_cache = Some NoopRuleMatchingCache, cr_coalescing = True\<rparr> (CtxDone True)
       (\<lambda>missing. if missing = [] then eager_schedule background (str ''a@b.co'') [] else closed_collection missing)
       True background default_rules (str ''a@b.co'') \<lparr>cache_state = (), trace = []\<rparr> = Inr (r, st')
     \<and> (\<forall>x. r = Some x \<longrightarrow> x \<in> set default_rules \<and> applies background (str ''a@b.co'') x)"
proof -
  define d where "d = str ''a@b.co''"
  have "collected background d missing (if missing = [] then eager_schedule background d [] else closed_collection missing)"
    for missing
    using undisturbed_collected [OF eager_undisturbed [of background d "[]"]]
      closed_collection_step [of missing background d]
    by (auto simp: collected_def closed_collection_def intro: r_into_rtranclp)
  then have "\<exists>r st'. conc_Process \<lparr>cr_cache = Some NoopRuleMatchingCache, cr_coalescing = True\<rparr> (CtxDone True)
       (\<lambda>missing. if missing = [] then eager_schedule background d [] else closed_collection missing)
       True background default_rules d \<lparr>cache_state = (), trace = []\<rparr> = Inr (r, st')
     \<and> (\<forall>x. r = Some x \<longrightarrow> x \<in> set default_rules \<and> applies background d x)
     \<and> cache_store.negatives_only (\<lambda>w d e. None) (rule_verdict background default_rules) (cache_state st')"
    by (intro concurrent_run_safe)
      (auto simp: noop.cache_store_axioms noop.negatives_only_def distinct_entities_agree
        default_rules_consistent shared_value_def)
  then show ?thesis unfolding d_def by blast
qed

text \<open>C29: Whatever the cache, the interleaving, the outcome of the collection and the flight, a
  concurrent run with rules reads the cache exactly once and first, and saves at most one
  batch, which is for the run's token, is not empty and holds negative answers only.  A
  context that was done during the collection is still done after it.\<close>

theorem concurrent_cache_traffic:
  assumes "conc_Process r f sched ctxErr c rules data st = Inr (w, st')"
    and "\<And>missing. collected c data missing (sched missing)"
    and "\<And>missing. parentDone (sched missing) \<longrightarrow> ctxErr"
  shows "if rules = [] then st' = st
     else \<exists>t. trace st' = trace st @ GotMatches data # t \<and> list_all (\<lambda>i. \<not> is_get i) t
       \<and> length (filter is_save t) \<le> 1 \<and> list_all (proper_save data) t"
proof (cases "rules = []")
  case True
  with assms(1) show ?thesis by (simp add: conc_Process_def)
next
  case False
  then obtain store where store: "cr_cache r = Some store"
    using assms(1) by (auto simp: conc_Process_def split: option.splits)
  let ?st1 = "snd (read_cached store c data st)"
  have "st' = ?st1 \<or> (\<exists>ms. st' = snd (snd (conc_evaluateMissing store (cr_coalescing r) f (sched ms) ctxErr c data ms ?st1)))"
    using assms(1) store False
    by (auto simp: conc_Process_def case_prod_beta Let_def split: if_splits option.splits)
  then have "traffic data 1 ?st1 st'"
    using traffic_conc_evaluate [OF assms(2,3)] traffic_refl by blast
  then show ?thesis using False traffic_after_read by simp
qed

theorem concurrent_cache_traffic_witness:
  "\<exists>w st' t. conc_Process \<lparr>cr_cache = Some NoopRuleMatchingCache, cr_coalescing = False\<rparr> Leads
       (eager_schedule background (str ''a@b.co'')) False background default_rules (str ''a@b.co'')
       \<lparr>cache_state = (), trace = []\<rparr> = Inr (w, st')
     \<and> trace st' = GotMatches (str ''a@b.co'') # t \<and> length (filter is_save t) \<le> 1
     \<and> list_all (proper_save (str ''a@b.co'')) t"
proof -
  define d where "d = str ''a@b.co''"
  let ?sched = "eager_schedule background d"
  obtain w st' where p: "conc_Process \<lparr>cr_cache = Some NoopRuleMatchingCache, cr_coalescing = False\<rparr> Leads
       ?sched False background default_rules d \<lparr>cache_state = (), trace = []\<rparr> = Inr (w, st')"
    using conc_Process_returns [of "\<lparr>cr_cache = Some NoopRuleMatchingCache, cr_coalescing = False\<rparr>"
        NoopRuleMatchingCache Leads ?sched False background default_rules d "\<lparr>cache_state = (), trace = []\<rparr>"]
    by (metis ConcurrentRulesRunner.select_convs(1))
  have "collected background d missing (?sched missing)" "parentDone (?sched missing) \<longrightarrow> False" for missing
    using eager_undisturbed [of background d missing] undisturbed_collected by (auto simp: undisturbed_def)
  then have "if default_rules = [] then st' = \<lparr>cache_state = (), trace = []\<rparr>
     else \<exists>t. trace st' = trace \<lparr>cache_state = (), trace = []\<rparr> @ GotMatches d # t \<and> list_all (\<lambda>i. \<not> is_get i) t
       \<and> length (filter is_save t) \<le> 1 \<and> list_all (proper_save d) t"
    by (rule concurrent_cache_traffic [OF p])
  then obtain t where "trace st' = GotMatches d # t" "length (filter is_save t) \<le> 1" "list_all (proper_save d) t"
    by (auto simp: default_rules_def)
  with p show ?thesis unfolding d_def by blast
qed

lemma later_rule_can_win:
  assumes "rule_match (me_rule m2) c data"
  shows "\<exists>fin. undisturbed c data [m1, m2] fin \<and> phase fin = Finished (Found (me_rule m2))
     \<and> coll_results fin = [(me_entity m2, True)]"
proof -
  let ?s0 = "start_collection False [m1, m2]"
  let ?s1 = "?s0\<lparr>unsubmitted := [m2], queued := [m1], submitted := 1\<rparr>"
  let ?s2 = "?s1\<lparr>unsubmitted := [], queued := [m1, m2], submitted := 2\<rparr>"
  let ?s3 = "?s2\<lparr>phase := Collecting\<rparr>"
  let ?s4 = "?s3\<lparr>queued := [m1], running := [m2]\<rparr>"
  let ?s5 = "?s4\<lparr>running := [], resultCh := [worker_item c data m2]\<rparr>"
  let ?s6 = "?s5\<lparr>resultCh := [], received := 1, coll_results := [(me_entity m2, True)], matchDone := True, phase := Draining (me_rule m2)\<rparr>"
  let ?s7 = "?s6\<lparr>phase := Finished (Found (me_rule m2))\<rparr>"
  note sc = start_collection_def
  have "collect_step c data ?s0 ?s1" using submit [of ?s0 m1 "[m2]" c data] by (simp add: sc)
  moreover have "collect_step c data ?s1 ?s2" using submit [of ?s1 m2 "[]" c data] by (simp add: sc numeral_2_eq_2)
  moreover have "collect_step c data ?s2 ?s3" using all_submitted [of ?s2 c data] by (simp add: sc)
  moreover have "collect_step c data ?s3 ?s4" using start [of ?s3 "[m1]" m2 "[]" c data] by (simp add: sc matchCtx_done_def)
  moreover have "collect_step c data ?s4 ?s5" using send [of ?s4 "[]" m2 "[]" c data] by (simp add: sc)
  moreover have "collect_step c data ?s5 ?s6"
    using receive_match [of ?s5 "me_rule m2" "me_entity m2" "[]" c data] assms by (simp add: sc)
  moreover have "collect_step c data ?s6 ?s7" using drain_end [of ?s6 "me_rule m2" c data] by (simp add: sc)
  ultimately have "collects c data ?s0 ?s7" by (meson r_into_rtranclp rtranclp.rtrancl_into_rtrancl)
  then have "undisturbed c data [m1, m2] ?s7" by (simp add: undisturbed_def sc)
  then show ?thesis by (intro exI [of _ ?s7]) simp
qed

text \<open>C31: Once the concurrent runner has been stopped, a run that is not answered by another
  caller's flight reports no match, whatever the rules, and leaves the cache sound.\<close>

theorem stopped_runner_reports_nothing:
  assumes "cache_store store content"
    and "cache_store.negatives_only content verdict (cache_state (fst sr))"
    and "coal \<longrightarrow> fl data = Leads"
  shows "\<exists>st'. conc_step \<lparr>cr_cache = Some store, cr_coalescing = coal\<rparr> fl sched c rules data (conc_Stop sr)
       = Inr (None, (st', True))
     \<and> cache_store.negatives_only content verdict (cache_state st')"
  using stopped_Process [OF assms, of c rules data] by (auto simp: conc_step_def conc_Stop_def)

theorem stopped_runner_reports_nothing_witness:
  "\<exists>st'. conc_step \<lparr>cr_cache = Some NoopRuleMatchingCache, cr_coalescing = True\<rparr> (\<lambda>d. Leads) eager_schedule
       background default_rules (str ''a@b.co'') (conc_Stop (\<lparr>cache_state = (), trace = []\<rparr>, False))
       = Inr (None, (st', True))"
  using stopped_runner_reports_nothing [OF noop.cache_store_axioms, of "\<lambda>e d. False"
      "(\<lparr>cache_state = (), trace = []\<rparr>, False)" True "\<lambda>d. Leads"]
  by (auto simp: noop.negatives_only_def)

text \<open>C38: The concurrent runner does not keep rule order: for two rules of different entities that
  both apply, there is an undisturbed interleaving in which the second rule is reported
  although \<open>first_match\<close> is the first.\<close>

theorem concurrent_may_skip_first_match:
  assumes "applies c data r1" "applies c data r2" "rule_entity r1 \<noteq> rule_entity r2"
  shows "first_match c [r1, r2] data = Some r1 \<and>
    (\<exists>sched st'. (\<forall>missing. undisturbed c data missing (sched missing)) \<and>
       conc_Process \<lparr>cr_cache = Some NoopRuleMatchingCache, cr_coalescing = False\<rparr> Leads sched False c [r1, r2] data st
         = Inr (Some r2, st'))"
proof
  show "first_match c [r1, r2] data = Some r1" using assms(1) by (simp add: first_match_def)
  let ?m1 = "\<lparr>me_entity = rule_entity r1, me_rule = r1\<rparr>" and ?m2 = "\<lparr>me_entity = rule_entity r2, me_rule = r2\<rparr>"
  obtain fin where fin: "undisturbed c data [?m1, ?m2] fin" "phase fin = Finished (Found r2)"
    using later_rule_can_win [of ?m2 c data ?m1] assms(2) by (auto simp: applies_def)
  define sched where "sched ms = (if ms = [?m1, ?m2] then fin else eager_schedule c data ms)" for ms
  have "undisturbed c data ms (sched ms)" for ms by (simp add: sched_def fin(1) eager_undisturbed)
  moreover have "\<exists>st'. conc_Process \<lparr>cr_cache = Some NoopRuleMatchingCache, cr_coalescing = False\<rparr> Leads sched False c [r1, r2] data st
         = Inr (Some r2, st')"
    using assms fin(2)
    by (simp add: conc_Process_def conc_classifyRules_def read_cached_def call_GetMatches_def NoopRuleMatchingCache_def
        applies_def conc_evaluateMissing_def doToken_def disabled_doToken_def conc_computation_def collectEvaluations_def
        own_winner_def sched_def Let_def case_prod_beta)
  ultimately show "\<exists>sched st'. (\<forall>missing. undisturbed c data missing (sched missing)) \<and>
       conc_Process \<lparr>cr_cache = Some NoopRuleMatchingCache, cr_coalescing = False\<rparr> Leads sched False c [r1, r2] data st
         = Inr (Some r2, st')" by blast
qed

text \<open>The address below is also a valid CPF.\<close>

theorem concurrent_may_skip_first_match_witness:
  "first_match background [DefaultCPFRule, DefaultIPRule] (str ''100.100.100.17'') = Some DefaultCPFRule \<and>
    (\<exists>sched st'. (\<forall>missing. undisturbed background (str ''100.100.100.17'') missing (sched missing)) \<and>
       conc_Process \<lparr>cr_cache = Some NoopRuleMatchingCache, cr_coalescing = False\<rparr> Leads sched False background
         [DefaultCPFRule, DefaultIPRule] (str ''100.100.100.17'') \<lparr>cache_state = (), trace = []\<rparr>
         = Inr (Some DefaultIPRule, st'))"
proof -
  define d where "d = str ''100.100.100.17''"
  have m: "MatchCPF d" "MatchIP d" unfolding d_def by code_simp+
  have "applies background d DefaultCPFRule" "applies background d DefaultIPRule"
    "rule_entity DefaultCPFRule \<noteq> rule_entity DefaultIPRule"
    using m by (simp_all add: default_applies)
      (simp add: default_rule_defs as_Matcher_def matcher_defs entity_defs)
  from concurrent_may_skip_first_match [OF this, of "\<lparr>cache_state = (), trace = []\<rparr>"]
  show ?thesis unfolding d_def .
qed

end
