(* ===== verification/Valkey.thy ===== *)
theory Valkey
  imports Cache Options
begin

text \<open>
  \<open>src/analyzer/cache/valkey.go\<close> and \<open>factory.go\<close>: the store backed by a Valkey server.  The
  client is the vendored third-party library \<open>valkey-go\<close>: its commands are the fields of the record
  \<open>valkey_client\<close>, on a state that stands for the server and the local cache, and
  \<open>client_laws\<close> says what is relied on.  The random numbers are taken from a list in the
  state.  Floating-point rounding is the argument \<open>fl\<close>, applied after every operation on
  floats; rationals stand for the float values.
\<close>

section \<open>The client library\<close>

type_synonym message = "cache_error + bytes"

record 'v valkey_client =
  Do_Hgetall :: "ctx \<Rightarrow> bytes \<Rightarrow> 'v \<Rightarrow> (cache_error + (bytes \<times> message) list) \<times> 'v"
  DoCache_Hgetall :: "ctx \<Rightarrow> bytes \<Rightarrow> duration \<Rightarrow> 'v \<Rightarrow> (cache_error + (bytes \<times> message) list) \<times> 'v"
  Do_Hset :: "ctx \<Rightarrow> bytes \<Rightarrow> (bytes \<times> bytes) list \<Rightarrow> 'v \<Rightarrow> cache_error option \<times> 'v"
  DoMulti_Hset_ExpireNx :: "ctx \<Rightarrow> bytes \<Rightarrow> (bytes \<times> bytes) list \<Rightarrow> int \<Rightarrow> 'v \<Rightarrow> (cache_error option \<times> cache_error option) \<times> 'v"

text \<open>\<open>hash v k f\<close> is the value that a read of field \<open>f\<close> of key \<open>k\<close> may return.  Reads return such
  values and change nothing else; writes set at most the given flds of the given key.\<close>

definition read_law :: "('v \<Rightarrow> bytes \<Rightarrow> bytes \<Rightarrow> bytes option) \<Rightarrow> bytes \<Rightarrow> 'v \<Rightarrow> (cache_error + (bytes \<times> message) list) \<times> 'v \<Rightarrow> bool" where
  "read_law hash k v r \<longleftrightarrow>
     (\<forall>k' f x. hash (snd r) k' f = Some x \<longrightarrow> hash v k' f = Some x)
     \<and> (case fst r of Inl e \<Rightarrow> True
        | Inr flds \<Rightarrow> distinct (map fst flds) \<and> (\<forall>f x. (f, Inr x) \<in> set flds \<longrightarrow> hash v k f = Some x))"

definition write_law :: "('v \<Rightarrow> bytes \<Rightarrow> bytes \<Rightarrow> bytes option) \<Rightarrow> bytes \<Rightarrow> (bytes \<times> bytes) list \<Rightarrow> 'v \<Rightarrow> 'v \<Rightarrow> bool" where
  "write_law hash k fvs v v' \<longleftrightarrow>
     (\<forall>k' f x. hash v' k' f = Some x \<longrightarrow> hash v k' f = Some x \<or> (k' = k \<and> (f, x) \<in> set fvs))"

definition client_laws :: "'v valkey_client \<Rightarrow> ('v \<Rightarrow> bytes \<Rightarrow> bytes \<Rightarrow> bytes option) \<Rightarrow> bool" where
  "client_laws cl hash \<longleftrightarrow>
     (\<forall>c k v. read_law hash k v (Do_Hgetall cl c k v))
     \<and> (\<forall>c k ttl v. read_law hash k v (DoCache_Hgetall cl c k ttl v))
     \<and> (\<forall>c k fvs v. write_law hash k fvs v (snd (Do_Hset cl c k fvs v)))
     \<and> (\<forall>c k fvs n v. write_law hash k fvs v (snd (DoMulti_Hset_ExpireNx cl c k fvs n v)))"

section \<open>The store\<close>

definition matchKeyNamespace :: bytes where
  "matchKeyNamespace = str ''leakspok:m:''"

record 'v RuleMatchingCache =
  client :: "'v valkey_client"
  cacheTTL :: duration
  jitterPct :: rat
  disableCSC :: bool

record 'v vstate =
  server :: 'v
  rands :: "rat list"

definition next_rand :: "'v vstate \<Rightarrow> rat \<times> 'v vstate" where
  "next_rand st = (case rands st of [] \<Rightarrow> (0, st) | x # xs \<Rightarrow> (x, st\<lparr>rands := xs\<rparr>))"

text \<open>Conversion of a float to an integer type cuts off the fraction.\<close>

definition trunc :: "rat \<Rightarrow> int" where
  "trunc x = (if 0 \<le> x then \<lfloor>x\<rfloor> else \<lceil>x\<rceil>)"

text \<open>\<open>math.Round\<close> rounds half away from zero.\<close>

definition math_Round :: "rat \<Rightarrow> int" where
  "math_Round x = (if 0 \<le> x then \<lfloor>x + 1 / 2\<rfloor> else \<lceil>x - 1 / 2\<rceil>)"

definition jitteredTTL :: "(rat \<Rightarrow> rat) \<Rightarrow> 'v RuleMatchingCache \<Rightarrow> 'v vstate \<Rightarrow> duration \<times> 'v vstate" where
  "jitteredTTL fl r st =
     (if jitterPct r \<le> 0 then (cacheTTL r, st)
      else let (u, st') = next_rand st;
               delta = trunc (fl (fl (fl (of_int (cacheTTL r)) * jitterPct r) * fl (fl (2 * u) - 1)))
           in (cacheTTL r + delta, st'))"

definition useClientSideCache :: "'v RuleMatchingCache \<Rightarrow> bool" where
  "useClientSideCache r \<longleftrightarrow> \<not> disableCSC r \<and> cacheTTL r > 0"

definition matchKey :: "bytes \<Rightarrow> bytes" where
  "matchKey data = matchKeyNamespace @ data"

definition entity_of_field :: "bytes \<Rightarrow> Entity" where
  "entity_of_field f = map (\<lambda>b. char_of (unat b)) f"

text \<open>The loop over the flds of the reply; a message that is not a string ends it.\<close>

fun read_fields :: "(bytes \<times> message) list \<Rightarrow> cache_error + results" where
  "read_fields [] = Inr []"
| "read_fields ((field, message) # flds) =
     (case message of
        Inl convErr \<Rightarrow> Inl convErr
      | Inr value \<Rightarrow>
          (case read_fields flds of
             Inl e \<Rightarrow> Inl e
           | Inr rs \<Rightarrow> Inr ((entity_of_field field, value = str ''1'') # rs)))"

definition Valkey_GetMatches :: "(rat \<Rightarrow> rat) \<Rightarrow> 'v RuleMatchingCache \<Rightarrow> ctx \<Rightarrow> bytes \<Rightarrow> 'v vstate \<Rightarrow> (cache_error + results) \<times> 'v vstate" where
  "Valkey_GetMatches fl r c data st =
     (let key = matchKey data;
          (result, st') =
            (if \<not> useClientSideCache r then
               (let (x, v) = Do_Hgetall (client r) c key (server st) in (x, st\<lparr>server := v\<rparr>))
             else
               (let (ttl, st1) = jitteredTTL fl r st;
                    (x, v) = DoCache_Hgetall (client r) c key ttl (server st1)
                in (x, st1\<lparr>server := v\<rparr>)))
      in case result of
           Inl err \<Rightarrow> (Inl err, st')
         | Inr flds \<Rightarrow> (read_fields flds, st'))"

definition seconds_of :: "(rat \<Rightarrow> rat) \<Rightarrow> duration \<Rightarrow> rat" where
  "seconds_of fl d = fl (of_int d / of_int time_Second)"

definition expireSeconds :: "(rat \<Rightarrow> rat) \<Rightarrow> 'v RuleMatchingCache \<Rightarrow> 'v vstate \<Rightarrow> int \<times> 'v vstate" where
  "expireSeconds fl r st =
     (let (ttl, st') = jitteredTTL fl r st;
          seconds = math_Round (seconds_of fl ttl);
          lower = \<lceil>fl (fl (fl (of_int (cacheTTL r)) * fl (1 - jitterPct r)) / of_int time_Second)\<rceil>;
          upper = \<lfloor>fl (fl (fl (of_int (cacheTTL r)) * fl (1 + jitterPct r)) / of_int time_Second)\<rfloor>;
          seconds1 = (if seconds < lower then lower else seconds);
          seconds2 = (if seconds1 > upper then upper else seconds1);
          seconds3 = (if seconds2 < 1 then 1 else seconds2)
      in (seconds3, st'))"

definition Valkey_SaveMatches :: "(rat \<Rightarrow> rat) \<Rightarrow> 'v RuleMatchingCache \<Rightarrow> ctx \<Rightarrow> bytes \<Rightarrow> results \<Rightarrow> 'v vstate \<Rightarrow> cache_error option \<times> 'v vstate" where
  "Valkey_SaveMatches fl r c data m st =
     (if length m = 0 then (None, st)
      else
        let key = matchKey data;
            fvs = map (\<lambda>(e, matched). (str e, if matched then str ''1'' else str ''0'')) m
        in if cacheTTL r = 0 then
             (let (err, v) = Do_Hset (client r) c key fvs (server st) in (err, st\<lparr>server := v\<rparr>))
           else
             (let (n, st1) = expireSeconds fl r st;
                  ((e0, e1), v) = DoMulti_Hset_ExpireNx (client r) c key fvs n (server st1);
                  st2 = st1\<lparr>server := v\<rparr>
              in case e0 of Some err \<Rightarrow> (Some err, st2) | None \<Rightarrow> (e1, st2)))"

definition valkey_store :: "(rat \<Rightarrow> rat) \<Rightarrow> 'v RuleMatchingCache \<Rightarrow> 'v vstate CacheStore" where
  "valkey_store fl r = \<lparr>GetMatches = Valkey_GetMatches fl r, SaveMatches = Valkey_SaveMatches fl r\<rparr>"

section \<open>Construction\<close>

record TLSConfig =
  MinVersion :: string
  tls_InsecureSkipVerify :: bool

record ClientOption =
  InitAddress :: "bytes list"
  opt_Username :: bytes
  opt_Password :: bytes
  ForceSingleClient :: bool
  DisableCache :: bool
  Dialer_Timeout :: duration
  ConnWriteTimeout :: duration
  BlockingPoolSize :: int
  TLS :: "TLSConfig option"

definition build_option :: "ClientOption RuleMatchingCacheOptions \<Rightarrow> ClientOption" where
  "build_option options =
     (let r = Redis options;
          opt0 = \<lparr>InitAddress = Split (Addr r) (of_char (CHR '','')), opt_Username = Username r,
            opt_Password = Password r, ForceSingleClient = DisableClusterMode r,
            DisableCache = DisableInMemoryCache options, Dialer_Timeout = DialTimeout r,
            ConnWriteTimeout = 0, BlockingPoolSize = 0, TLS = None\<rparr>;
          opt1 = (if WriteTimeout r > 0 then opt0\<lparr>ConnWriteTimeout := WriteTimeout r\<rparr> else opt0);
          opt2 = (if PoolSize r > 0 then opt1\<lparr>BlockingPoolSize := PoolSize r\<rparr> else opt1);
          opt3 = (if Password r \<noteq> [] then
                    opt2\<lparr>TLS := Some \<lparr>MinVersion = ''VersionTLS12'', tls_InsecureSkipVerify = InsecureSkipVerify r\<rparr>\<rparr>
                  else opt2)
      in case ValkeyConfigMutator options of None \<Rightarrow> opt3 | Some mutate \<Rightarrow> mutate opt3)"

text \<open>\<open>valkey.NewClient\<close> and the ping are arguments; the result names the errors by the prefix
  the source gives them.  The second component is the client on which \<open>Close\<close> is called.\<close>

definition open_RuleMatchingCache :: "(ClientOption \<Rightarrow> string + 'v valkey_client) \<Rightarrow> ('v valkey_client \<Rightarrow> string option) \<Rightarrow> ClientOption RuleMatchingCacheOptions \<Rightarrow> (string + 'v RuleMatchingCache) \<times> 'v valkey_client option" where
  "open_RuleMatchingCache newClient ping options =
     (case newClient (build_option options) of
        Inl err \<Rightarrow> (Inl (''failed to create valkey client: '' @ err), None)
      | Inr cl \<Rightarrow>
          (case (if PingOnConnect (Redis options) then ping cl else None) of
             Some pingErr \<Rightarrow> (Inl (''valkey connection check failed: '' @ pingErr), Some cl)
           | None \<Rightarrow> (Inr \<lparr>client = cl, cacheTTL = CacheTTL options,
               jitterPct = TTLJitterPercentage options, disableCSC = DisableInMemoryCache options\<rparr>, None)))"

definition NewRuleMatchingCache :: "(ClientOption \<Rightarrow> string + 'v valkey_client) \<Rightarrow> ('v valkey_client \<Rightarrow> string option) \<Rightarrow> ClientOption RuleMatchingCacheOptions \<Rightarrow> string + 'v RuleMatchingCache" where
  "NewRuleMatchingCache newClient ping options = fst (open_RuleMatchingCache newClient ping options)"

lemmas open_cache_defs = NewRuleMatchingCache_def open_RuleMatchingCache_def

definition NewCacheStore :: "(rat \<Rightarrow> rat) \<Rightarrow> (ClientOption \<Rightarrow> string + 'v valkey_client) \<Rightarrow> ('v valkey_client \<Rightarrow> string option) \<Rightarrow> ClientOption RuleMatchingCacheOptions \<Rightarrow> string + 'v vstate CacheStore" where
  "NewCacheStore fl newClient ping options = map_sum id (valkey_store fl) (NewRuleMatchingCache newClient ping options)"

text \<open>A client that was created is closed exactly when the construction fails.\<close>

lemma failed_construction_closes:
  assumes "newClient (build_option options) = Inr cl"
  shows "snd (open_RuleMatchingCache newClient ping options)
     = (if isl (NewRuleMatchingCache newClient ping options) then Some cl else None)"
  using assms by (simp add: open_cache_defs split: option.split)

section \<open>The contract\<close>

lemma entity_of_field_str [simp]: "entity_of_field (str e) = e"
proof -
  have "char_of (unat (of_char c :: byte)) = c" for c :: char
  proof -
    have "unat (of_nat (of_char c) :: byte) = of_char c" by (simp add: unat_of_nat)
    then show ?thesis by (simp only: of_nat_of_char char_of_char)
  qed
  then show ?thesis by (simp add: entity_of_field_def str_def comp_def)
qed

lemma str_entity_of_field [simp]: "str (entity_of_field f) = f"
proof -
  have "of_char (char_of (unat b)) = b" for b :: byte
  proof -
    have "(of_nat (of_char (char_of (unat b))) :: byte) = b" by (simp del: of_nat_of_char)
    then show ?thesis by (simp only: of_nat_of_char)
  qed
  then show ?thesis by (simp add: entity_of_field_def str_def comp_def)
qed

lemma str_inj: "str e = str e' \<longleftrightarrow> e = e'"
  by (metis entity_of_field_str)

lemma coded_answers_differ: "str ''0'' \<noteq> str ''1''"
  by simp

lemma matchKey_inj: "matchKey d = matchKey d' \<longleftrightarrow> d = d'"
  by (simp add: matchKey_def)

lemma server_next_rand [simp]: "server (snd (next_rand st)) = server st"
  by (simp add: next_rand_def split: list.splits)

lemma server_jitteredTTL [simp]: "server (snd (jitteredTTL fl r st)) = server st"
  by (simp add: jitteredTTL_def split_def Let_def)

lemma server_expireSeconds [simp]: "server (snd (expireSeconds fl r st)) = server st"
  by (simp add: expireSeconds_def split_def Let_def)

text \<open>What the store holds for a token: the answers coded by the flds of its hash.\<close>

definition held :: "('v \<Rightarrow> bytes \<Rightarrow> bytes \<Rightarrow> bytes option) \<Rightarrow> 'v vstate \<Rightarrow> bytes \<Rightarrow> Entity \<Rightarrow> bool option" where
  "held hash st d e = map_option (\<lambda>v. v = str ''1'') (hash (server st) (matchKey d) (str e))"

lemma read_fields_held:
  "read_fields flds = Inr m \<Longrightarrow> (e, b) \<in> set m \<Longrightarrow> \<exists>x. (str e, Inr x) \<in> set flds \<and> b = (x = str ''1'')"
proof (induction flds arbitrary: m rule: read_fields.induct)
  case (2 field message flds)
  then obtain x rs where "message = Inr x" "read_fields flds = Inr rs"
    "m = (entity_of_field field, x = str ''1'') # rs"
    by (auto split: sum.splits)
  with 2 show ?case by (auto simp del: str_Cons)
qed simp

lemma get_read_law:
  assumes "client_laws (client r) hash"
  shows "\<exists>res. read_law hash (matchKey d) (server st) res \<and> server (snd (Valkey_GetMatches fl r c d st)) = snd res
     \<and> fst (Valkey_GetMatches fl r c d st) = (case fst res of Inl e \<Rightarrow> Inl e | Inr f \<Rightarrow> read_fields f)"
proof (cases "useClientSideCache r")
  case True
  let ?j = "jitteredTTL fl r st"
  show ?thesis
    using assms True
    by (intro exI [of _ "DoCache_Hgetall (client r) c (matchKey d) (fst ?j) (server st)"])
      (simp add: client_laws_def Valkey_GetMatches_def split_def Let_def split: sum.splits)
next
  case False
  show ?thesis
    using assms False
    by (intro exI [of _ "Do_Hgetall (client r) c (matchKey d) (server st)"])
      (simp add: client_laws_def Valkey_GetMatches_def split_def Let_def split: sum.splits)
qed

lemma save_write_law:
  assumes "client_laws (client r) hash"
  shows "write_law hash (matchKey d) (map (\<lambda>(e, matched). (str e, if matched then str ''1'' else str ''0'')) m)
     (server st) (server (snd (Valkey_SaveMatches fl r c d m st)))"
proof -
  let ?fvs = "map (\<lambda>(e, matched). (str e, if matched then str ''1'' else str ''0'')) m"
  have "server (snd (Valkey_SaveMatches fl r c d m st)) = server st
     \<or> server (snd (Valkey_SaveMatches fl r c d m st)) = snd (Do_Hset (client r) c (matchKey d) ?fvs (server st))
     \<or> (\<exists>n. server (snd (Valkey_SaveMatches fl r c d m st)) = snd (DoMulti_Hset_ExpireNx (client r) c (matchKey d) ?fvs n (server st)))"
    unfolding Valkey_SaveMatches_def Let_def case_prod_beta
    by (auto simp del: str_Cons split: option.splits intro!: exI)
  moreover have "write_law hash (matchKey d) ?fvs (server st) (server st)" by (simp add: write_law_def)
  ultimately show ?thesis
    using assms unfolding client_laws_def by (elim disjE exE) (simp_all only:)
qed

lemma valkey_cache_store:
  assumes "client_laws (client r) hash"
  shows "cache_store (valkey_store fl r) (held hash)"
proof unfold_locales
  fix c d st m st' e b
  assume get: "GetMatches (valkey_store fl r) c d st = (Inr m, st')" and b: "map_of m e = Some b"
  obtain res where res: "read_law hash (matchKey d) (server st) res"
    "fst (Valkey_GetMatches fl r c d st) = (case fst res of Inl e \<Rightarrow> Inl e | Inr f \<Rightarrow> read_fields f)"
    using get_read_law [OF assms] by blast
  then obtain flds where f: "fst res = Inr flds" "read_fields flds = Inr m"
    using get by (auto simp: valkey_store_def split: sum.splits)
  from read_fields_held [OF f(2) map_of_SomeD [OF b]] res(1) f(1)
  show "held hash st d e = Some b" by (auto simp: read_law_def held_def simp del: str_Cons)
next
  fix c d st d' e b
  assume "held hash (snd (GetMatches (valkey_store fl r) c d st)) d' e = Some b"
  moreover obtain res where "read_law hash (matchKey d) (server st) res"
    "server (snd (Valkey_GetMatches fl r c d st)) = snd res"
    using get_read_law [OF assms] by blast
  ultimately show "held hash st d' e = Some b"
    by (fastforce simp: held_def read_law_def valkey_store_def simp del: str_Cons)
next
  fix c d m st d' e b
  assume "held hash (snd (SaveMatches (valkey_store fl r) c d m st)) d' e = Some b"
  then obtain x where x: "hash (server (snd (Valkey_SaveMatches fl r c d m st))) (matchKey d') (str e) = Some x"
    "b = (x = str ''1'')"
    by (auto simp: held_def valkey_store_def simp del: str_Cons)
  from save_write_law [OF assms, of d m st fl c] x(1) consider "hash (server st) (matchKey d') (str e) = Some x"
    | "d' = d" "(str e, x) \<in> set (map (\<lambda>(e, matched). (str e, if matched then str ''1'' else str ''0'')) m)"
    unfolding write_law_def by (metis matchKey_inj)
  then show "held hash st d' e = Some b \<or> d' = d \<and> (e, b) \<in> set m"
    by cases (auto simp: held_def x(2) str_inj coded_answers_differ simp del: str_Cons)
qed

section \<open>A server in memory\<close>

text \<open>A client whose server keeps hashes and honours writes, as a model of the laws.\<close>

definition mem_client :: "(bytes \<Rightarrow> (bytes \<times> bytes) list) valkey_client" where
  "mem_client =
     \<lparr>Do_Hgetall = (\<lambda>c k v. (Inr (map (\<lambda>(f, x). (f, Inr x)) (AList.clearjunk (v k))), v)),
      DoCache_Hgetall = (\<lambda>c k ttl v. (Inr (map (\<lambda>(f, x). (f, Inr x)) (AList.clearjunk (v k))), v)),
      Do_Hset = (\<lambda>c k fvs v. (None, v(k := AList.clearjunk (fvs @ v k)))),
      DoMulti_Hset_ExpireNx = (\<lambda>c k fvs n v. ((None, None), v(k := AList.clearjunk (fvs @ v k))))\<rparr>"

definition mem_hash :: "(bytes \<Rightarrow> (bytes \<times> bytes) list) \<Rightarrow> bytes \<Rightarrow> bytes \<Rightarrow> bytes option" where
  "mem_hash v k f = map_of (AList.clearjunk (v k)) f"

lemma mem_read_law: "read_law mem_hash k v (Inr (map (\<lambda>(f, x). (f, Inr x)) (AList.clearjunk (v k))), v)"
  by (auto simp: read_law_def mem_hash_def comp_def case_prod_beta distinct_clearjunk map_of_eq_Some_iff
      simp del: map_of_clearjunk clearjunk.simps)

lemma mem_write_law: "write_law mem_hash k fvs v (v(k := AList.clearjunk (fvs @ v k)))"
proof -
  have "map_of (AList.clearjunk (fvs @ v k)) f = (map_of (v k) ++ map_of fvs) f" for f
    by (simp add: map_of_clearjunk)
  then show ?thesis
    by (auto simp: write_law_def mem_hash_def map_of_clearjunk map_add_Some_iff dest: map_of_SomeD
        simp del: map_of_eq_Some_iff)
qed

lemma mem_client_laws: "client_laws mem_client mem_hash"
  by (simp add: client_laws_def mem_client_def mem_read_law mem_write_law)

section \<open>Properties\<close>

lemma expire_at_least_one: "1 \<le> fst (expireSeconds fl r st)"
  by (simp add: expireSeconds_def case_prod_beta Let_def)

lemma clamp_cases:
  "n = (let s1 = (if s < lo then lo else s); s2 = (if s1 > hi then hi else s1) in if s2 < 1 then 1 else s2) \<Longrightarrow>
     if lo \<le> hi \<and> 1 \<le> hi then lo \<le> n \<and> n \<le> hi else n = max 1 (hi :: int)"
  by (auto simp: Let_def)

text \<open>C15: The store over a client that keeps its documented laws keeps the contract the runners
  rely on: it returns only answers that were saved under the same token, with the same
  value, and saving under one token never changes another.\<close>

theorem valkey_keeps_contract:
  "client_laws (client r) hash \<Longrightarrow> cache_store (valkey_store fl r) (held hash)"
  by (rule valkey_cache_store)

theorem valkey_keeps_contract_witness:
  "cache_store (valkey_store (\<lambda>x. x) \<lparr>client = mem_client, cacheTTL = 60 * time_Second, jitterPct = 1 / 10, disableCSC = False\<rparr>)
     (held mem_hash)"
  by (rule valkey_keeps_contract) (simp add: mem_client_laws)

text \<open>C33: The expiry sent with \<open>EXPIRE\<close> is never below one second, whatever the TTL, the jitter and
  the rounding.  With exact arithmetic: when a whole number of seconds, at least one, lies in the
  band of the TTL and the jitter percentage, the expiry lies in that band; in every other case
  (a TTL that is too short, a band between two whole seconds, the inverted band of a negative
  percentage) it is the upper end of the band rounded down to seconds, but at least one
  second, so that it may lie outside the band.\<close>

theorem expire_within_band:
  fixes r :: "'v RuleMatchingCache" and st :: "'v vstate"
  defines "lo \<equiv> of_int (cacheTTL r) * (1 - jitterPct r)" and "hi \<equiv> of_int (cacheTTL r) * (1 + jitterPct r)"
  shows "1 \<le> fst (expireSeconds fl r st) \<and>
   (let n = fst (expireSeconds (\<lambda>x. x) r st) in
    if \<exists>k. 1 \<le> k \<and> lo \<le> of_int (k * time_Second) \<and> of_int (k * time_Second) \<le> hi
    then lo \<le> of_int (n * time_Second) \<and> of_int (n * time_Second) \<le> hi
    else n = max 1 \<lfloor>hi / of_int time_Second\<rfloor>)"
proof -
  let ?n = "fst (expireSeconds (\<lambda>x. x) r st)" and ?s = "of_int time_Second :: rat"
  let ?l = "\<lceil>lo / ?s\<rceil>" and ?h = "\<lfloor>hi / ?s\<rfloor>"
  have in_band: "lo \<le> of_int (k * time_Second) \<and> of_int (k * time_Second) \<le> hi \<longleftrightarrow> ?l \<le> k \<and> k \<le> ?h" for k
    by (simp add: ceiling_le_iff le_floor_iff divide_le_eq le_divide_eq time_Second_def)
  have "(\<exists>k. 1 \<le> k \<and> lo \<le> of_int (k * time_Second) \<and> of_int (k * time_Second) \<le> hi) \<longleftrightarrow> ?l \<le> ?h \<and> 1 \<le> ?h"
    unfolding in_band by (meson dual_order.trans order_refl)
  moreover have "if ?l \<le> ?h \<and> 1 \<le> ?h then ?l \<le> ?n \<and> ?n \<le> ?h else ?n = max 1 ?h"
    by (rule clamp_cases) (simp only: expireSeconds_def case_prod_beta Let_def fst_conv lo_def hi_def)
  ultimately show ?thesis
    unfolding Let_def in_band by (simp add: expire_at_least_one)
qed

theorem expire_within_band_witness:
  "of_int (10 * time_Second) * (1 - 1 / 10) \<le> (of_int (fst (expireSeconds (\<lambda>x. x)
      \<lparr>client = mem_client, cacheTTL = 10 * time_Second, jitterPct = 1 / 10, disableCSC = False\<rparr>
      \<lparr>server = \<lambda>k. [], rands = [1 / 3]\<rparr>) * time_Second) :: rat)"
proof -
  let ?r = "\<lparr>client = mem_client, cacheTTL = 10 * time_Second, jitterPct = 1 / 10, disableCSC = False\<rparr>"
  have "\<exists>k. 1 \<le> k \<and> of_int (cacheTTL ?r) * (1 - jitterPct ?r) \<le> of_int (k * time_Second)
      \<and> of_int (k * time_Second) \<le> of_int (cacheTTL ?r) * (1 + jitterPct ?r)"
    by (rule exI [of _ 10]) (simp add: time_Second_def)
  with expire_within_band [of "\<lambda>x. x" ?r "\<lparr>server = \<lambda>k. [], rands = [1 / 3]\<rparr>"]
  show ?thesis unfolding Let_def by simp
qed

text \<open>A negative jitter percentage, documented to disable jitter, inverts the band: with a TTL
  of 100 seconds and a percentage of -0.5 the key expires after 50 seconds.\<close>

lemma negative_jitter_shortens_ttl:
  "fst (jitteredTTL (\<lambda>x. x) \<lparr>client = cl, cacheTTL = 100 * time_Second, jitterPct = - 1 / 2, disableCSC = d\<rparr> st)
     = 100 * time_Second
   \<and> fst (expireSeconds (\<lambda>x. x) \<lparr>client = cl, cacheTTL = 100 * time_Second, jitterPct = - 1 / 2, disableCSC = d\<rparr> st) = 50"
  by (simp add: jitteredTTL_def expireSeconds_def seconds_of_def math_Round_def time_Second_def)

end
