(* ===== verification/Factory.thy ===== *)
theory Factory
  imports ConcurrentRunner Valkey
begin

text \<open>
  \<open>src/analyzer/factory.go\<close> and \<open>pool.go\<close>: building an analyzer from options.  The Valkey client,
  the pools of the vendored library \<open>ants\<close> and the hash of the tracer are
  the fields of the record \<open>environment\<close>, together with what the pools and the
  flights do while the analyzer is used.  The two runners keep different states, so an
  analyzer works on the product of both.
\<close>

section \<open>Pools\<close>

datatype ants_option = WithPanicHandler | WithExpiryDuration duration

record AntsWorkerPool =
  pool_size :: int
  pool_options :: "ants_option list"

definition poolOptions :: "ConcurrencyOptions \<Rightarrow> ants_option list" where
  "poolOptions opts =
     (if MaxGoroutineIdleTimeout opts > 0 then [WithExpiryDuration (MaxGoroutineIdleTimeout opts)] else [])"

text \<open>\<open>ants.NewPool\<close> returns an error or succeeds.\<close>

definition NewAntsWorkerPool :: "(int \<Rightarrow> ants_option list \<Rightarrow> string option) \<Rightarrow> int \<Rightarrow> ants_option list \<Rightarrow> string + AntsWorkerPool" where
  "NewAntsWorkerPool newPool n opts =
     (case newPool n (WithPanicHandler # opts) of
        Some err \<Rightarrow> Inl err
      | None \<Rightarrow> Inr \<lparr>pool_size = n, pool_options = WithPanicHandler # opts\<rparr>)"

definition createRunnerPool :: "(int \<Rightarrow> ants_option list \<Rightarrow> string option) \<Rightarrow> ConcurrencyOptions \<Rightarrow> string + AntsWorkerPool" where
  "createRunnerPool newPool concurrency =
     map_sum (\<lambda>err. ''failed to create rule runner pool: '' @ err) id
       (NewAntsWorkerPool newPool (RuleRunnerPoolSize concurrency) (poolOptions concurrency))"

definition createTokenPool :: "(int \<Rightarrow> ants_option list \<Rightarrow> string option) \<Rightarrow> ConcurrencyOptions \<Rightarrow> string + AntsWorkerPool" where
  "createTokenPool newPool concurrency =
     map_sum (\<lambda>err. ''failed to create token pool: '' @ err) id
       (NewAntsWorkerPool newPool (TokenPoolSize concurrency) (poolOptions concurrency))"

text \<open>Pools are resources with running goroutines.  What a function does to them is a trace of
  events, from which the pools that are still open are read off.\<close>

datatype pool_event = PoolCreated AntsWorkerPool | PoolReleased AntsWorkerPool

fun pools_after :: "AntsWorkerPool list \<Rightarrow> pool_event list \<Rightarrow> AntsWorkerPool list" where
  "pools_after ps [] = ps"
| "pools_after ps (PoolCreated p # evs) = pools_after (ps @ [p]) evs"
| "pools_after ps (PoolReleased p # evs) = pools_after (remove1 p ps) evs"

definition open_pools :: "pool_event list \<Rightarrow> AntsWorkerPool list" where
  "open_pools evs = pools_after [] evs"

lemma pools_after_append [simp]: "pools_after ps (evs @ evs') = pools_after (pools_after ps evs) evs'"
  by (induction ps evs rule: pools_after.induct) simp_all

section \<open>The environment\<close>

type_synonym 'v store_state = "'v vstate \<times> event list"
type_synonym 'v an_state = "'v store_state run_state \<times> (bytes \<Rightarrow> flight) list \<times> bool"

record 'v environment =
  newClient :: "ClientOption \<Rightarrow> string + 'v valkey_client"
  pingClient :: "'v valkey_client \<Rightarrow> string option"
  antsNewPool :: "int \<Rightarrow> ants_option list \<Rightarrow> string option"
  sha256 :: "bytes \<Rightarrow> bytes"
  float :: "rat \<Rightarrow> rat"
  token_behaviour :: "AntsWorkerPool \<Rightarrow> WorkerPool"
  rule_behaviour :: "AntsWorkerPool \<Rightarrow> ctx \<Rightarrow> bytes \<Rightarrow> missingEvaluation list \<Rightarrow> collector"
  rule_flights :: "bytes \<Rightarrow> flight"

section \<open>The store\<close>

definition cache_options :: "ClientOption CacheOptions \<Rightarrow> ClientOption RuleMatchingCacheOptions" where
  "cache_options options =
     \<lparr>CacheTTL = co_TTL options, TTLJitterPercentage = co_TTLJitterPercentage options,
      DisableInMemoryCache = co_DisableInMemoryCache options,
      ValkeyConfigMutator = co_ValkeyConfigMutator options,
      Redis = \<lparr>Addr = RedisAddr options, DisableClusterMode = RedisDisableClusterMode options,
        Username = RedisUsername options, Password = RedisPassword options,
        DialTimeout = RedisDialTimeout options, ReadTimeout = RedisReadTimeout options,
        WriteTimeout = RedisWriteTimeout options, PoolSize = RedisPoolSize options,
        MinIdleConns = RedisMinIdleConns options, InsecureSkipVerify = RedisInsecureSkipVerify options,
        PingOnConnect = RedisPingOnConnect options\<rparr>\<rparr>"

text \<open>A store without the decorator leaves the spans alone.\<close>

definition untraced :: "'w CacheStore \<Rightarrow> ('w \<times> event list) CacheStore" where
  "untraced u =
     \<lparr>GetMatches = (\<lambda>c d (w, evs). let (r, w') = GetMatches u c d w in (r, (w', evs))),
      SaveMatches = (\<lambda>c d m (w, evs). let (r, w') = SaveMatches u c d m w in (r, (w', evs)))\<rparr>"

definition buildCacheStore :: "'v environment \<Rightarrow> ClientOption CacheOptions \<Rightarrow> string + 'v store_state CacheStore" where
  "buildCacheStore env options =
     (if \<not> co_Enabled options then Inr NoopRuleMatchingCache
      else case NewCacheStore (float env) (newClient env) (pingClient env) (cache_options options) of
        Inl err \<Rightarrow> Inl (''failed to create cache: '' @ err)
      | Inr c \<Rightarrow> Inr (if TracingEnabled options then NewCacheStoreTracer (sha256 env) c else untraced c))"

section \<open>The runners on the common state\<close>

definition lift_process :: "('t \<Rightarrow> 's) \<Rightarrow> ('s \<Rightarrow> 't \<Rightarrow> 't) \<Rightarrow> 's Process_fun \<Rightarrow> 't Process_fun" where
  "lift_process get put proc c rules data t =
     (case proc c rules data (get t) of Inl p \<Rightarrow> Inl p | Inr (r, s) \<Rightarrow> Inr (r, put s t))"

definition lift_runner :: "('t \<Rightarrow> 's) \<Rightarrow> ('s \<Rightarrow> 't \<Rightarrow> 't) \<Rightarrow> 's RuleRunner \<Rightarrow> 't RuleRunner" where
  "lift_runner get put r =
     \<lparr>runner_Process = lift_process get put (runner_Process r), runner_Stop = (\<lambda>t. put (runner_Stop r (get t)) t)\<rparr>"

definition get_serial :: "'v an_state \<Rightarrow> 'v store_state run_state \<times> (bytes \<Rightarrow> flight) list" where
  "get_serial s = (fst s, fst (snd s))"

definition put_serial :: "'v store_state run_state \<times> (bytes \<Rightarrow> flight) list \<Rightarrow> 'v an_state \<Rightarrow> 'v an_state" where
  "put_serial x s = (fst x, snd x, snd (snd s))"

definition get_conc :: "'v an_state \<Rightarrow> 'v store_state run_state \<times> bool" where
  "get_conc s = (fst s, snd (snd s))"

definition put_conc :: "'v store_state run_state \<times> bool \<Rightarrow> 'v an_state \<Rightarrow> 'v an_state" where
  "put_conc x s = (fst x, fst (snd s), snd x)"

section \<open>Analyzers\<close>

text \<open>The functions return what they do to pools beside their result, also when a later step fails:
  a creation for every pool that \<open>NewAntsWorkerPool\<close> returned, and a release for every call of
  \<open>ReleaseContext\<close>, of which the two factories have none.  A pool exists exactly when its two
  switches are on, so the runner is chosen by the pool.\<close>

fun pool_list :: "'a option \<Rightarrow> 'a list" where
  "pool_list None = []"
| "pool_list (Some p) = [p]"

definition created :: "AntsWorkerPool option \<Rightarrow> pool_event list" where
  "created p = map PoolCreated (pool_list p)"

definition rule_pool_of :: "'v environment \<Rightarrow> ConcurrencyOptions \<Rightarrow> string + AntsWorkerPool option" where
  "rule_pool_of env concurrency =
     (if conc_Enabled concurrency \<and> ConcurrentRuleProcessing concurrency then
        (if RuleRunnerPoolSize concurrency \<le> 0
         then Inl ''RuleRunnerPoolSize must be > 0 when ConcurrentRuleProcessing is enabled''
         else map_sum id Some (createRunnerPool (antsNewPool env) concurrency))
      else Inr None)"

definition token_pool_of :: "'v environment \<Rightarrow> ConcurrencyOptions \<Rightarrow> string + AntsWorkerPool option" where
  "token_pool_of env concurrency =
     (if conc_Enabled concurrency \<and> ConcurrentTokenProcessing concurrency then
        (if TokenPoolSize concurrency \<le> 0
         then Inl ''TokenPoolSize must be > 0 when ConcurrentTokenProcessing is enabled''
         else map_sum id Some (createTokenPool (antsNewPool env) concurrency))
      else Inr None)"

definition choose_runner :: "'v environment \<Rightarrow> ClientOption RunnerOptions \<Rightarrow> 'v store_state CacheStore \<Rightarrow> AntsWorkerPool option \<Rightarrow> 'v an_state RuleRunner" where
  "choose_runner env options cache runnerPool =
     (case runnerPool of
        Some p \<Rightarrow> lift_runner get_conc put_conc
          (conc_runner (NewConcurrentRulesRunner options (Some cache)) (rule_flights env) (rule_behaviour env p))
      | None \<Rightarrow> lift_runner get_serial put_serial (serial_runner (NewSerialRulesRuner options (Some cache))))"

definition MakeByteAnalyzer :: "'v environment \<Rightarrow> ClientOption RunnerOptions \<Rightarrow> (string + 'v an_state ByteAnalyzer) \<times> pool_event list" where
  "MakeByteAnalyzer env options =
     (case buildCacheStore env (ro_Cache options) of
        Inl err \<Rightarrow> (Inl err, [])
      | Inr cache \<Rightarrow>
          (case rule_pool_of env (ro_Concurrency options) of
             Inl err \<Rightarrow> (Inl err, [])
           | Inr runnerPool \<Rightarrow>
               (case token_pool_of env (ro_Concurrency options) of
                  Inl err \<Rightarrow> (Inl err, created runnerPool)
                | Inr tokenPool \<Rightarrow>
                    let runner = choose_runner env options cache runnerPool;
                        ba = NewByteAnalyzer (Some runner)
                    in (Inr (case tokenPool of None \<Rightarrow> ba | Some p \<Rightarrow> ba\<lparr>pool := Some (token_behaviour env p)\<rparr>),
                        created runnerPool @ created tokenPool))))"

definition MakeStringAnalyzer :: "'v environment \<Rightarrow> ClientOption RunnerOptions \<Rightarrow> (string + 'v an_state StringAnalyzer) \<times> pool_event list" where
  "MakeStringAnalyzer env options =
     (case buildCacheStore env (ro_Cache options) of
        Inl err \<Rightarrow> (Inl err, [])
      | Inr cache \<Rightarrow>
          (case rule_pool_of env (ro_Concurrency options) of
             Inl err \<Rightarrow> (Inl err, [])
           | Inr runnerPool \<Rightarrow>
               (Inr (NewStringAnalyzer (Some (choose_runner env options cache runnerPool))), created runnerPool)))"

text \<open>What \<open>Stop\<close> does to the pools of an analyzer: the concurrent runner releases its pool, the
  serial runner has none, then the token pool is released.\<close>

definition runner_Stop_events :: "AntsWorkerPool option \<Rightarrow> pool_event list" where
  "runner_Stop_events runnerPool = (case runnerPool of None \<Rightarrow> [] | Some p \<Rightarrow> [PoolReleased p])"

definition Stop_events :: "AntsWorkerPool option \<Rightarrow> AntsWorkerPool option \<Rightarrow> pool_event list" where
  "Stop_events runnerPool tokenPool =
     runner_Stop_events runnerPool @ (case tokenPool of None \<Rightarrow> [] | Some p \<Rightarrow> [PoolReleased p])"

section \<open>Stores built by the factory\<close>

definition store_content :: "('v \<Rightarrow> bytes \<Rightarrow> bytes \<Rightarrow> bytes option) \<Rightarrow> ClientOption CacheOptions \<Rightarrow> 'v store_state \<Rightarrow> bytes \<Rightarrow> Entity \<Rightarrow> bool option" where
  "store_content hash options w d e = (if co_Enabled options then held hash (fst w) d e else None)"

lemma untraced_store:
  assumes "cache_store u ct"
  shows "cache_store (untraced u) (\<lambda>wv. ct (fst wv))"
proof unfold_locales
  note laws = cache_store.get_held [OF assms] cache_store.get_frame [OF assms] cache_store.save_frame [OF assms]
  show "GetMatches (untraced u) c d w = (Inr m, w') \<Longrightarrow> map_of m e = Some b \<Longrightarrow> ct (fst w) d e = Some b" for c d w m w' e b
    using laws(1) [of c d "fst w" m _ e b]
    by (cases w; cases "GetMatches u c d (fst w)") (simp add: untraced_def)
  show "ct (fst (snd (GetMatches (untraced u) c d w))) d' e = Some b \<Longrightarrow> ct (fst w) d' e = Some b" for c d w d' e b
    using laws(2) [of c d "fst w" d' e b] by (cases w) (simp add: untraced_def case_prod_beta Let_def)
  show "ct (fst (snd (SaveMatches (untraced u) c d r w))) d' e = Some b \<Longrightarrow>
      ct (fst w) d' e = Some b \<or> d' = d \<and> (e, b) \<in> set r" for c d r w d' e b
    using laws(3) [of c d r "fst w" d' e b] by (cases w) (simp add: untraced_def case_prod_beta Let_def)
qed

text \<open>What is relied on of the client library: every client it returns keeps the laws.\<close>

definition clients_lawful :: "'v environment \<Rightarrow> ('v \<Rightarrow> bytes \<Rightarrow> bytes \<Rightarrow> bytes option) \<Rightarrow> bool" where
  "clients_lawful env hash \<longleftrightarrow> (\<forall>opt cl. newClient env opt = Inr cl \<longrightarrow> client_laws cl hash)"

lemma built_store:
  assumes "clients_lawful env hash" "buildCacheStore env options = Inr store"
  shows "cache_store store (store_content hash options)"
proof (cases "co_Enabled options")
  case False
  then have "store = NoopRuleMatchingCache" "store_content hash options = (\<lambda>w d e. None)"
    using assms(2) by (simp_all add: buildCacheStore_def store_content_def fun_eq_iff)
  then show ?thesis using noop.cache_store_axioms by simp
next
  case True
  obtain r where r: "NewRuleMatchingCache (newClient env) (pingClient env) (cache_options options) = Inr r"
    and st: "store = (if TracingEnabled options then NewCacheStoreTracer (sha256 env) (valkey_store (float env) r)
        else untraced (valkey_store (float env) r))"
    using assms(2) True
    by (cases "NewRuleMatchingCache (newClient env) (pingClient env) (cache_options options)")
      (simp_all add: buildCacheStore_def NewCacheStore_def)
  have "newClient env (build_option (cache_options options)) = Inr (client r)"
    using r by (auto simp: open_cache_defs split: sum.splits option.splits)
  then have "cache_store (valkey_store (float env) r) (held hash)"
    using assms(1) by (auto simp: clients_lawful_def intro: valkey_cache_store)
  moreover have "store_content hash options = (\<lambda>w. held hash (fst w))"
    using True by (simp add: store_content_def fun_eq_iff)
  ultimately show ?thesis unfolding st by (simp add: tracer_store untraced_store)
qed

section \<open>Runners on a larger state\<close>

lemma lift_rule_runner:
  assumes "rule_runner proc invr dec" "\<And>s t. get (put s t) = s"
  shows "rule_runner (lift_process get put proc) (\<lambda>c rules t. invr c rules (get t)) dec"
proof unfold_locales
  fix c rules d t
  assume "invr c rules (get t)"
  from rule_runner.proc_decides [OF assms(1) this, of d]
  show "\<exists>s'. lift_process get put proc c rules d t = Inr (dec c rules d, s') \<and> invr c rules (get s')"
    by (auto simp: lift_process_def assms(2))
qed

lemma lift_sound_runner:
  assumes "sound_runner proc invr al" "\<And>s t. get (put s t) = s"
  shows "sound_runner (lift_process get put proc) (\<lambda>c rules t. invr c rules (get t)) al"
proof unfold_locales
  fix c rules d t
  assume "invr c rules (get t)"
  from sound_runner.proc_allowed [OF assms(1) this, of d]
  show "\<exists>r s'. lift_process get put proc c rules d t = Inr (r, s') \<and> al c rules d r \<and> invr c rules (get s')"
    by (auto simp: lift_process_def assms(2))
qed

lemma get_put [simp]: "get_serial (put_serial x s) = x" "get_conc (put_conc y s) = y"
  by (simp_all add: get_serial_def put_serial_def get_conc_def put_conc_def)

section \<open>Analyzers built by the factory\<close>

text \<open>The state a built analyzer starts from: the server holds at most true negative answers, and
  the flights its calls join end with sound results.\<close>

definition ready_serial :: "('v \<Rightarrow> bytes \<Rightarrow> bytes \<Rightarrow> bytes option) \<Rightarrow> ClientOption RunnerOptions \<Rightarrow> (Entity \<Rightarrow> bytes \<Rightarrow> bool) \<Rightarrow> ctx \<Rightarrow> Rule list \<Rightarrow> 'v an_state \<Rightarrow> bool" where
  "ready_serial hash options verdict c rules s \<longleftrightarrow>
     serial_inv (store_content hash (ro_Cache options)) verdict (coalescing options) c rules (get_serial s)"

definition ready_conc :: "('v \<Rightarrow> bytes \<Rightarrow> bytes \<Rightarrow> bytes option) \<Rightarrow> ClientOption RunnerOptions \<Rightarrow> (Entity \<Rightarrow> bytes \<Rightarrow> bool) \<Rightarrow> ctx \<Rightarrow> Rule list \<Rightarrow> 'v an_state \<Rightarrow> bool" where
  "ready_conc hash options verdict c rules s \<longleftrightarrow>
     conc_inv (store_content hash (ro_Cache options)) verdict c rules (get_conc s)"

definition rules_concurrent :: "ConcurrencyOptions \<Rightarrow> bool" where
  "rules_concurrent cc \<longleftrightarrow> conc_Enabled cc \<and> ConcurrentRuleProcessing cc"

definition tokens_concurrent :: "ConcurrencyOptions \<Rightarrow> bool" where
  "tokens_concurrent cc \<longleftrightarrow> conc_Enabled cc \<and> ConcurrentTokenProcessing cc"

lemma built_serial:
  assumes "clients_lawful env hash" "buildCacheStore env (ro_Cache options) = Inr store"
  shows "rule_runner (runner_Process (choose_runner env options store None)) (ready_serial hash options verdict) first_match"
  using lift_rule_runner [OF serial_rule_runner [OF built_store [OF assms], of "coalescing options" verdict],
      where get = get_serial and put = put_serial]
  by (simp add: choose_runner_def lift_runner_def serial_runner_def NewSerialRulesRuner_def ready_serial_def [abs_def])

lemma built_conc:
  assumes "clients_lawful env hash" "buildCacheStore env (ro_Cache options) = Inr store"
    "flight_ok verdict (coalescing options) (rule_flights env)"
    "\<And>c data missing. undisturbed c data missing (rule_behaviour env p c data missing)"
  shows "sound_runner (runner_Process (choose_runner env options store (Some p))) (ready_conc hash options verdict) conc_allowed"
  using lift_sound_runner [OF conc_sound_runner [OF built_store [OF assms(1,2)] assms(3,4)],
      where get = get_conc and put = put_conc]
  by (simp add: choose_runner_def lift_runner_def conc_runner_def NewConcurrentRulesRunner_def ready_conc_def [abs_def])

lemma rule_pool_off: "rule_pool_of env cc = Inr None \<longleftrightarrow> \<not> rules_concurrent cc"
  by (auto simp: rule_pool_of_def rules_concurrent_def createRunnerPool_def split: if_splits)
    (cases "NewAntsWorkerPool (antsNewPool env) (RuleRunnerPoolSize cc) (poolOptions cc)"; simp)

lemma token_pool_off: "token_pool_of env cc = Inr None \<longleftrightarrow> \<not> tokens_concurrent cc"
  by (auto simp: token_pool_of_def tokens_concurrent_def createTokenPool_def split: if_splits)
    (cases "NewAntsWorkerPool (antsNewPool env) (TokenPoolSize cc) (poolOptions cc)"; simp)

lemma MakeByteAnalyzer_Inr:
  assumes "MakeByteAnalyzer env options = (Inr ba, pools)"
  obtains store rp tp where "buildCacheStore env (ro_Cache options) = Inr store"
    "rule_pool_of env (ro_Concurrency options) = Inr rp" "token_pool_of env (ro_Concurrency options) = Inr tp"
    "ba = \<lparr>ruleRunner = Some (choose_runner env options store rp), pool = map_option (token_behaviour env) tp\<rparr>"
    "pools = created rp @ created tp"
  using assms
  by (auto simp: MakeByteAnalyzer_def NewByteAnalyzer_def Let_def split: sum.splits option.splits)

lemma MakeStringAnalyzer_Inr:
  assumes "MakeStringAnalyzer env options = (Inr sa, pools)"
  obtains store rp where "buildCacheStore env (ro_Cache options) = Inr store"
    "rule_pool_of env (ro_Concurrency options) = Inr rp"
    "sa = \<lparr>byteAnalyzer = \<lparr>ruleRunner = Some (choose_runner env options store rp), pool = None\<rparr>\<rparr>"
    "pools = created rp"
  using assms
  by (auto simp: MakeStringAnalyzer_def NewStringAnalyzer_def NewByteAnalyzer_def split: sum.splits)

lemma built_text:
  assumes "clients_lawful env hash" "buildCacheStore env (ro_Cache options) = Inr store"
    and "ready_serial hash options verdict (WithWorkID (WithLogger c logger) uuid) rules s"
    and "rules \<noteq> []" "data \<noteq> []" "\<forall>r\<in>set rules. settings_ok (Settings r)"
    and "pool_orderly pl data"
  defines "f \<equiv> first_match (WithWorkID (WithLogger c logger) uuid) rules"
  shows "\<exists>ws details s'.
     Anonymize \<lparr>ruleRunner = Some (choose_runner env options store None), pool = pl\<rparr> logger uuid c rules data s
       = (ws, Inr details, s')
     \<and> concat ws = anonymized_text data 0 (decide_all f (tokens data))
     \<and> (HasFindings details \<longleftrightarrow> (\<exists>t\<in>set (tokens data). f (Content t) \<noteq> None))
     \<and> set (DetectedEntities details) = {rule_entity r | t r. t \<in> set (tokens data) \<and> f (Content t) = Some r}"
proof -
  let ?r = "choose_runner env options store None"
  have r: "?r = \<lparr>runner_Process = runner_Process ?r, runner_Stop = runner_Stop ?r\<rparr>" by simp
  show ?thesis
    unfolding f_def
    by (subst r) (rule rule_runner.analyzer_decides [OF built_serial [OF assms(1,2)]],
        use assms(3-7) in \<open>auto dest: first_match_SomeD\<close>)
qed

text \<open>The analyzer with the concurrent runner.\<close>

lemma built_conc_text:
  assumes "MakeByteAnalyzer env options = (Inr ba, pools)"
    and "rules_concurrent (ro_Concurrency options)"
    and "clients_lawful env hash"
    and "flight_ok verdict (coalescing options) (rule_flights env)"
    and "\<And>p c data missing. undisturbed c data missing (rule_behaviour env p c data missing)"
    and "ready_conc hash options verdict (WithWorkID (WithLogger c logger) uuid) rules s"
    and "rules \<noteq> []" "data \<noteq> []" "\<forall>r\<in>set rules. settings_ok (Settings r)"
    and "\<forall>p. orderly (token_behaviour env p) data"
  shows "\<exists>tds ws details s'. Anonymize ba logger uuid c rules data s = (ws, Inr details, s')
     \<and> map fst tds = tokens data \<and> concat ws = anonymized_text data 0 tds
     \<and> (\<forall>(t, d)\<in>set tds. conc_allowed (WithWorkID (WithLogger c logger) uuid) rules (Content t) d)
     \<and> (HasFindings details \<longleftrightarrow> (\<exists>t r. (t, Some r) \<in> set tds))
     \<and> set (DetectedEntities details) = {rule_entity r | t r. (t, Some r) \<in> set tds}"
proof -
  let ?c = "WithWorkID (WithLogger c logger) uuid"
  from assms(1) obtain store rp tp where b: "buildCacheStore env (ro_Cache options) = Inr store"
    "rule_pool_of env (ro_Concurrency options) = Inr rp"
    "ba = \<lparr>ruleRunner = Some (choose_runner env options store rp), pool = map_option (token_behaviour env) tp\<rparr>"
    by (rule MakeByteAnalyzer_Inr)
  obtain p where rp: "rp = Some p"
    using b(2) assms(2) rule_pool_off [of env "ro_Concurrency options"] by (cases rp) auto
  let ?r = "choose_runner env options store (Some p)" and ?pl = "map_option (token_behaviour env) tp"
  have r: "?r = \<lparr>runner_Process = runner_Process ?r, runner_Stop = runner_Stop ?r\<rparr>" by simp
  have sr: "sound_runner (runner_Process ?r) (ready_conc hash options verdict) conc_allowed"
    by (rule built_conc [OF assms(3) b(1) assms(4,5)])
  have "\<forall>d r. conc_allowed ?c rules d (Some r) \<longrightarrow> settings_ok (Settings r)"
    using assms(9) by (simp add: conc_allowed_def)
  moreover have "pool_orderly ?pl data" using assms(10) by (auto simp: pool_orderly_def)
  ultimately obtain tds ws details s' where
    "Anonymize \<lparr>ruleRunner = Some ?r, pool = ?pl\<rparr> logger uuid c rules data s = (ws, Inr details, s')"
    "map fst tds = tokens data" "sound_runner.decisions_ok conc_allowed ?c rules tds" "concat ws = anonymized_text data 0 tds"
    "HasFindings details \<longleftrightarrow> (\<exists>t r. (t, Some r) \<in> set tds)"
    "set (DetectedEntities details) = {rule_entity r | t r. (t, Some r) \<in> set tds}"
    using sound_runner.analyzer_output [OF sr assms(6-8), of ?pl "runner_Stop ?r", folded r] by blast
  moreover have "ba = \<lparr>ruleRunner = Some ?r, pool = ?pl\<rparr>" by (simp add: b(3) rp)
  ultimately show ?thesis
    unfolding sound_runner.decisions_ok_def [OF sr] by (intro exI conjI) simp_all
qed

section \<open>Properties\<close>

text \<open>C3: Every analyzer the factory returns with rule concurrency off, whatever the cache, the
  tracing, the coalescing and the token concurrency in its options, anonymizes a non-empty
  input to the same text: the input with the first applicable rule's replacement in place of
  every token to which a rule applies.  The list of rules is not empty, the rules have valid
  settings (a redacting rule has its placeholder, a masking rule its mask), and rules of the
  same entity agree on every token.  The client library keeps its laws, the cache starts with
  true negative answers only, shared flights end with true answers, and the token pool
  accepts and runs every task.\<close>

theorem configuration_does_not_change_output:
  assumes "MakeByteAnalyzer env options = (Inr ba, pools)"
    and "\<not> rules_concurrent (ro_Concurrency options)"
    and "clients_lawful env hash"
    and "ready_serial hash options verdict (WithWorkID (WithLogger c logger) uuid) rules s"
    and "rules \<noteq> []" "data \<noteq> []" "\<forall>r\<in>set rules. settings_ok (Settings r)"
    and "\<forall>p. orderly (token_behaviour env p) data"
  defines "f \<equiv> first_match (WithWorkID (WithLogger c logger) uuid) rules"
  shows "\<exists>ws details s'. Anonymize ba logger uuid c rules data s = (ws, Inr details, s')
     \<and> concat ws = anonymized_text data 0 (decide_all f (tokens data))
     \<and> (HasFindings details \<longleftrightarrow> (\<exists>t\<in>set (tokens data). f (Content t) \<noteq> None))
     \<and> set (DetectedEntities details) = {rule_entity r | t r. t \<in> set (tokens data) \<and> f (Content t) = Some r}"
proof -
  from assms(1) obtain store rp tp where b: "buildCacheStore env (ro_Cache options) = Inr store"
    "rule_pool_of env (ro_Concurrency options) = Inr rp"
    "ba = \<lparr>ruleRunner = Some (choose_runner env options store rp), pool = map_option (token_behaviour env) tp\<rparr>"
    by (rule MakeByteAnalyzer_Inr)
  have rp: "rp = None" using b(2) assms(2) rule_pool_off [of env "ro_Concurrency options"] by simp
  have "pool_orderly (map_option (token_behaviour env) tp) data" using assms(8) by (auto simp: pool_orderly_def)
  from built_text [OF assms(3) b(1) assms(4-7) this] show ?thesis unfolding b(3) rp f_def .
qed

text \<open>An environment with a server in memory, and options with everything switched on but rule
  concurrency.\<close>

definition mem_env :: "(bytes \<Rightarrow> (bytes \<times> bytes) list) environment" where
  "mem_env = \<lparr>newClient = (\<lambda>opt. Inr mem_client), pingClient = (\<lambda>cl. None), antsNewPool = (\<lambda>n opts. None),
     sha256 = (\<lambda>d. replicate 32 0), float = (\<lambda>x. x),
     token_behaviour = (\<lambda>p. \<lparr>Submit_ok = \<lambda>n. True, run_order = rev, ctx_done = \<lambda>t. False\<rparr>),
     rule_behaviour = (\<lambda>p. eager_schedule), rule_flights = (\<lambda>d. Leads)\<rparr>"

definition full_options :: "ClientOption RunnerOptions" where
  "full_options = \<lparr>ro_Cache = \<lparr>co_Enabled = True, co_TTL = 60 * time_Second, co_TTLJitterPercentage = 1 / 10,
       SingleflightEnabled = True, co_DisableInMemoryCache = False, RedisAddr = str ''localhost:6379'',
       RedisDisableClusterMode = True, RedisUsername = [], RedisPassword = [], RedisDialTimeout = 0,
       RedisReadTimeout = 0, RedisWriteTimeout = 0, RedisPoolSize = 0, RedisMinIdleConns = 0,
       RedisInsecureSkipVerify = False, RedisPingOnConnect = True, co_ValkeyConfigMutator = None, TracingEnabled = True\<rparr>,
     ro_Concurrency = \<lparr>conc_Enabled = True, ConcurrentTokenProcessing = True, ConcurrentRuleProcessing = False,
       RuleRunnerPoolSize = 0, TokenPoolSize = 4, MaxGoroutineIdleTimeout = 0\<rparr>\<rparr>"

definition empty_state :: "(bytes \<Rightarrow> (bytes \<times> bytes) list) an_state" where
  "empty_state = (\<lparr>cache_state = (\<lparr>server = (\<lambda>k. []), rands = []\<rparr>, []), trace = []\<rparr>, [], False)"

lemma mem_env_lawful: "clients_lawful mem_env mem_hash"
  by (simp add: clients_lawful_def mem_env_def mem_client_laws)

lemma mem_env_orderly: "orderly (token_behaviour mem_env p) data"
  by (simp add: orderly_def mem_env_def)

lemma empty_negatives:
  assumes "cache_store store (store_content mem_hash options)"
  shows "cache_store.negatives_only (store_content mem_hash options) verdict (cache_state (fst empty_state))"
  by (simp add: cache_store.negatives_only_def [OF assms] store_content_def held_def mem_hash_def empty_state_def)

theorem configuration_does_not_change_output_witness:
  "\<exists>ba pools ws details s'. MakeByteAnalyzer mem_env full_options = (Inr ba, pools)
     \<and> Anonymize ba ''log'' ''id'' background [DefaultEmailRule] (str ''to a@b.co, ok'') empty_state = (ws, Inr details, s')
     \<and> concat ws = str ''to <REDACTED>, ok''"
proof -
  let ?c = "WithWorkID (WithLogger background ''log'') ''id''" and ?d = "str ''to a@b.co, ok''"
  obtain ba pools where ba: "MakeByteAnalyzer mem_env full_options = (Inr ba, pools)"
    by (simp add: MakeByteAnalyzer_def buildCacheStore_def NewCacheStore_def open_cache_defs mem_env_def
        full_options_def rule_pool_of_def token_pool_of_def createTokenPool_def NewAntsWorkerPool_def)
  obtain store where "buildCacheStore mem_env (ro_Cache full_options) = Inr store"
    using ba by (rule MakeByteAnalyzer_Inr)
  from empty_negatives [OF built_store [OF mem_env_lawful this]]
  have ready: "ready_serial mem_hash full_options (rule_verdict ?c [DefaultEmailRule]) ?c [DefaultEmailRule] empty_state"
    by (simp add: ready_serial_def serial_inv_def get_serial_def distinct_entities_agree) (simp add: empty_state_def)
  have off: "\<not> rules_concurrent (ro_Concurrency full_options)"
    by (simp add: rules_concurrent_def full_options_def)
  have "\<exists>ws details s'. Anonymize ba ''log'' ''id'' background [DefaultEmailRule] ?d empty_state = (ws, Inr details, s')
     \<and> concat ws = anonymized_text ?d 0 (decide_all (first_match ?c [DefaultEmailRule]) (tokens ?d))"
    using configuration_does_not_change_output [OF ba off mem_env_lawful ready, of ?d]
    by (simp add: email_settings_ok mem_env_orderly) blast
  with ba show ?thesis unfolding email_redacted by blast
qed

text \<open>C18: With rule concurrency on, with or without token concurrency, and for a non-empty input,
  a non-empty list of rules with valid settings of which rules of the same entity agree on every
  token, the analyzer the factory returns replaces exactly the tokens to which a rule applies,
  each as one of its applicable rules demands, for every undisturbed interleaving of the
  workers and every order of the tasks; the details agree with the replacements made.  The
  client library keeps its laws, the analyzer is not stopped, the cache starts with true
  negative answers only, shared flights end with true answers, and the token pool accepts
  and runs every task.\<close>

theorem rule_concurrent_analyzer_output:
  assumes "MakeByteAnalyzer env options = (Inr ba, pools)"
    and "rules_concurrent (ro_Concurrency options)"
    and "clients_lawful env hash"
    and "flight_ok verdict (coalescing options) (rule_flights env)"
    and "\<And>p c data missing. undisturbed c data missing (rule_behaviour env p c data missing)"
    and "ready_conc hash options verdict (WithWorkID (WithLogger c logger) uuid) rules s"
    and "rules \<noteq> []" "data \<noteq> []" "\<forall>r\<in>set rules. settings_ok (Settings r)"
    and "\<forall>p. orderly (token_behaviour env p) data"
  shows "\<exists>tds ws details s'. Anonymize ba logger uuid c rules data s = (ws, Inr details, s')
     \<and> map fst tds = tokens data \<and> concat ws = anonymized_text data 0 tds
     \<and> (\<forall>(t, d)\<in>set tds. conc_allowed (WithWorkID (WithLogger c logger) uuid) rules (Content t) d)
     \<and> (HasFindings details \<longleftrightarrow> (\<exists>t r. (t, Some r) \<in> set tds))
     \<and> set (DetectedEntities details) = {rule_entity r | t r. (t, Some r) \<in> set tds}"
  by (rule built_conc_text [OF assms])

definition rule_options :: "ClientOption RunnerOptions" where
  "rule_options = full_options\<lparr>ro_Concurrency := \<lparr>conc_Enabled = True, ConcurrentTokenProcessing = False,
       ConcurrentRuleProcessing = True, RuleRunnerPoolSize = 8, TokenPoolSize = 0, MaxGoroutineIdleTimeout = time_Second\<rparr>\<rparr>"

definition both_options :: "ClientOption RunnerOptions" where
  "both_options = full_options\<lparr>ro_Concurrency := \<lparr>conc_Enabled = True, ConcurrentTokenProcessing = True,
       ConcurrentRuleProcessing = True, RuleRunnerPoolSize = 8, TokenPoolSize = 4, MaxGoroutineIdleTimeout = time_Second\<rparr>\<rparr>"

lemma mem_store: "\<exists>store. buildCacheStore mem_env (ro_Cache full_options) = Inr store"
  by (simp add: buildCacheStore_def NewCacheStore_def open_cache_defs mem_env_def full_options_def)

lemma mem_negatives:
  "cache_store.negatives_only (store_content mem_hash (ro_Cache full_options)) verdict (cache_state (fst empty_state))"
  using mem_store empty_negatives built_store [OF mem_env_lawful] by blast

lemma both_built: "\<exists>ba pools. MakeByteAnalyzer mem_env both_options = (Inr ba, pools)"
proof -
  have "ro_Cache both_options = ro_Cache full_options" by (simp add: both_options_def)
  then show ?thesis
    using mem_store
    by (auto simp: MakeByteAnalyzer_def) (simp add: mem_env_def both_options_def rule_pool_of_def token_pool_of_def
        createRunnerPool_def createTokenPool_def NewAntsWorkerPool_def)
qed

lemma mem_flights: "flight_ok verdict coal (rule_flights mem_env)"
  by (simp add: mem_env_def leads_ok)

lemma mem_undisturbed: "undisturbed c data missing (rule_behaviour mem_env p c data missing)"
  by (simp add: mem_env_def eager_undisturbed)

lemma both_concurrent: "rules_concurrent (ro_Concurrency both_options)"
  by (simp add: rules_concurrent_def both_options_def)

lemma both_ready:
  "ready_conc mem_hash both_options (rule_verdict c default_rules) c default_rules empty_state"
  using mem_negatives [of "rule_verdict c default_rules"]
  by (simp add: ready_conc_def conc_inv_def both_options_def get_conc_def distinct_entities_agree default_rules_consistent)
    (simp add: empty_state_def)

lemma default_rules_ok: "default_rules \<noteq> []" "\<forall>r\<in>set default_rules. settings_ok (Settings r)"
  by (auto simp: default_rules_def settings_ok_def default_rule_defs DefaultRuleSetting_def REDACT_def MASK_def)

theorem rule_concurrent_analyzer_output_witness:
  "\<exists>ba pools tds ws details s'. MakeByteAnalyzer mem_env both_options = (Inr ba, pools)
     \<and> Anonymize ba ''log'' ''id'' background default_rules (str ''a@b.co 1.2.3.4'') empty_state = (ws, Inr details, s')
     \<and> map fst tds = tokens (str ''a@b.co 1.2.3.4'') \<and> concat ws = anonymized_text (str ''a@b.co 1.2.3.4'') 0 tds"
proof -
  let ?d = "str ''a@b.co 1.2.3.4''"
  obtain ba pools where ba: "MakeByteAnalyzer mem_env both_options = (Inr ba, pools)" using both_built by blast
  have ne: "?d \<noteq> []" and ord: "\<forall>p. orderly (token_behaviour mem_env p) ?d" by (simp_all add: mem_env_orderly)
  from rule_concurrent_analyzer_output [OF ba both_concurrent mem_env_lawful mem_flights mem_undisturbed both_ready
      default_rules_ok(1) ne default_rules_ok(2) ord, where c = background and logger = "''log''" and uuid = "''id''"]
  obtain tds ws details s' where
    "Anonymize ba ''log'' ''id'' background default_rules ?d empty_state = (ws, Inr details, s')"
    "map fst tds = tokens ?d" "concat ws = anonymized_text ?d 0 tds"
    by (elim exE conjE) (rule that)
  with ba show ?thesis by (intro exI conjI)
qed

text \<open>C19: The string analyzer the factory returns with rule concurrency off maps a non-empty string
  to its anonymized text, whatever the other options; the token concurrency options play no
  part and no pool is created.  The list of rules is not empty, the rules have valid settings,
  rules of the same entity agree on every token; the client library keeps its laws, the
  cache starts with true negative answers only, and shared flights end with true answers.\<close>

theorem string_analyzer_built:
  assumes "MakeStringAnalyzer env options = (Inr sa, pools)"
    and "\<not> rules_concurrent (ro_Concurrency options)"
    and "clients_lawful env hash"
    and "ready_serial hash options verdict (WithWorkID (WithLogger c logger) uuid) rules s"
    and "rules \<noteq> []" "input \<noteq> []" "\<forall>r\<in>set rules. settings_ok (Settings r)"
  shows "pools = [] \<and> (\<exists>details s'. StringAnalyzer_Anonymize sa logger uuid c rules input s =
     (Inr (anonymized_text input 0 (decide_all (first_match (WithWorkID (WithLogger c logger) uuid) rules) (tokens input)),
        details), s'))"
proof -
  from assms(1) obtain store rp where b: "buildCacheStore env (ro_Cache options) = Inr store"
    "rule_pool_of env (ro_Concurrency options) = Inr rp"
    "sa = \<lparr>byteAnalyzer = \<lparr>ruleRunner = Some (choose_runner env options store rp), pool = None\<rparr>\<rparr>" "pools = created rp"
    by (rule MakeStringAnalyzer_Inr)
  have rp: "rp = None" using b(2) assms(2) rule_pool_off [of env "ro_Concurrency options"] by simp
  from built_text [OF assms(3) b(1) assms(4-7) pool_orderly_None] show ?thesis
    by (auto simp: b(3,4) rp created_def StringAnalyzer_Anonymize_def Anonymize_to_def buffer_collects)
qed

theorem string_analyzer_built_witness:
  "\<exists>sa details s'. MakeStringAnalyzer mem_env full_options = (Inr sa, [])
     \<and> StringAnalyzer_Anonymize sa ''log'' ''id'' background [DefaultEmailRule] (str ''to a@b.co, ok'') empty_state
       = (Inr (str ''to <REDACTED>, ok'', details), s')"
proof -
  let ?c = "WithWorkID (WithLogger background ''log'') ''id''" and ?d = "str ''to a@b.co, ok''"
  obtain sa pools where sa: "MakeStringAnalyzer mem_env full_options = (Inr sa, pools)"
    using mem_store
    by (auto simp: MakeStringAnalyzer_def) (simp add: mem_env_def full_options_def rule_pool_of_def)
  have off: "\<not> rules_concurrent (ro_Concurrency full_options)"
    by (simp add: rules_concurrent_def full_options_def)
  have ready: "ready_serial mem_hash full_options (rule_verdict ?c [DefaultEmailRule]) ?c [DefaultEmailRule] empty_state"
    using mem_negatives [of "rule_verdict ?c [DefaultEmailRule]"]
    by (simp add: ready_serial_def serial_inv_def get_serial_def distinct_entities_agree) (simp add: empty_state_def)
  have "pools = [] \<and> (\<exists>details s'. StringAnalyzer_Anonymize sa ''log'' ''id'' background [DefaultEmailRule] ?d empty_state =
     (Inr (anonymized_text ?d 0 (decide_all (first_match ?c [DefaultEmailRule]) (tokens ?d)), details), s'))"
    by (rule string_analyzer_built [OF sa off mem_env_lawful ready]) (simp_all add: email_settings_ok)
  with sa show ?thesis unfolding email_redacted by blast
qed

text \<open>C37: Construction fails exactly when the cache cannot be built, or a concurrency level that is
  switched on has a pool size that is not positive or is rejected by the pool library; the
  switches of a level that is off are never looked at.\<close>

theorem construction_fails_iff:
  "(\<exists>err. fst (MakeByteAnalyzer env options) = Inl err) \<longleftrightarrow>
     (\<exists>err. buildCacheStore env (ro_Cache options) = Inl err)
     \<or> (let cc = ro_Concurrency options; opts = WithPanicHandler # poolOptions cc in
          rules_concurrent cc \<and> (RuleRunnerPoolSize cc \<le> 0 \<or> (\<exists>err. antsNewPool env (RuleRunnerPoolSize cc) opts = Some err))
        \<or> tokens_concurrent cc \<and> (TokenPoolSize cc \<le> 0 \<or> (\<exists>err. antsNewPool env (TokenPoolSize cc) opts = Some err)))"
proof -
  let ?cc = "ro_Concurrency options" and ?o = "WithPanicHandler # poolOptions (ro_Concurrency options)"
  have r: "(\<exists>err. rule_pool_of env ?cc = Inl err) \<longleftrightarrow> rules_concurrent ?cc \<and> (RuleRunnerPoolSize ?cc \<le> 0
      \<or> (\<exists>err. antsNewPool env (RuleRunnerPoolSize ?cc) ?o = Some err))"
    by (auto simp: rule_pool_of_def rules_concurrent_def createRunnerPool_def NewAntsWorkerPool_def split: option.splits)
  have t: "(\<exists>err. token_pool_of env ?cc = Inl err) \<longleftrightarrow> tokens_concurrent ?cc \<and> (TokenPoolSize ?cc \<le> 0
      \<or> (\<exists>err. antsNewPool env (TokenPoolSize ?cc) ?o = Some err))"
    by (auto simp: token_pool_of_def tokens_concurrent_def createTokenPool_def NewAntsWorkerPool_def split: option.splits)
  show ?thesis
    unfolding Let_def r [symmetric] t [symmetric]
    by (auto simp: MakeByteAnalyzer_def Let_def split: sum.splits)
qed

lemma open_created [simp]:
  "open_pools (created rp) = pool_list rp"
  "open_pools (created rp @ created tp) = pool_list rp @ pool_list tp"
  by (cases rp; cases tp; simp add: open_pools_def created_def)+

lemma stopped_pools: "open_pools (created rp @ created tp @ Stop_events rp tp) = []"
  by (cases rp; cases tp; simp add: open_pools_def created_def Stop_events_def runner_Stop_events_def)

lemma rule_pool_created:
  "rule_pool_of env cc = Inr (Some p) \<longleftrightarrow> rules_concurrent cc \<and> 0 < RuleRunnerPoolSize cc
     \<and> antsNewPool env (RuleRunnerPoolSize cc) (WithPanicHandler # poolOptions cc) = None
     \<and> p = \<lparr>pool_size = RuleRunnerPoolSize cc, pool_options = WithPanicHandler # poolOptions cc\<rparr>"
  by (auto simp: rule_pool_of_def rules_concurrent_def createRunnerPool_def NewAntsWorkerPool_def split: option.splits)

lemma MakeByteAnalyzer_Inl:
  assumes "MakeByteAnalyzer env options = (Inl err, evs)"
  shows "evs = (case buildCacheStore env (ro_Cache options) of Inl _ \<Rightarrow> []
     | Inr _ \<Rightarrow> (case rule_pool_of env (ro_Concurrency options) of Inl _ \<Rightarrow> [] | Inr rp \<Rightarrow> created rp))"
  using assms by (auto simp: MakeByteAnalyzer_def Let_def split: sum.splits)

lemma failed_pools:
  fixes options :: "ClientOption RunnerOptions"
  defines "cc \<equiv> ro_Concurrency options"
  defines "rule_pool \<equiv> \<lparr>pool_size = RuleRunnerPoolSize cc, pool_options = WithPanicHandler # poolOptions cc\<rparr>"
  assumes "MakeByteAnalyzer env options = (Inl err, evs)"
  shows "open_pools evs = (if \<not> isl (buildCacheStore env (ro_Cache options)) \<and> rule_pool_of env cc = Inr (Some rule_pool)
      then [rule_pool] else [])"
proof -
  have [simp]: "open_pools [] = []" by (simp add: open_pools_def)
  have p: "p = rule_pool" if "rule_pool_of env cc = Inr (Some p)" for p
    using that by (simp add: rule_pool_created rule_pool_def)
  show ?thesis
    unfolding MakeByteAnalyzer_Inl [OF assms(3)] cc_def [symmetric]
    using p
    by (cases "buildCacheStore env (ro_Cache options)"; cases "rule_pool_of env cc"; cases "projr (rule_pool_of env cc)") auto
qed

text \<open>C40: The pools of a call of \<open>MakeByteAnalyzer\<close>, over its whole trace of creations and
  releases.  When it returns an analyzer, the open pools are the pools its runner and its token
  processing use, and stopping the analyzer leaves none open.  When it returns an error, which
  leaves the caller nothing to stop, no pool is open, except that the rule pool stays open for
  ever exactly when the cache and the rule pool could be built, so that it was the token pool
  that failed.\<close>

theorem construction_pools:
  fixes env :: "'v environment" and options :: "ClientOption RunnerOptions"
  defines "cc \<equiv> ro_Concurrency options"
  defines "rule_pool \<equiv> \<lparr>pool_size = RuleRunnerPoolSize cc, pool_options = WithPanicHandler # poolOptions cc\<rparr>"
  shows "case MakeByteAnalyzer env options of
      (Inr ba, evs) \<Rightarrow> \<exists>store rp tp. buildCacheStore env (ro_Cache options) = Inr store
        \<and> rule_pool_of env cc = Inr rp \<and> token_pool_of env cc = Inr tp
        \<and> ruleRunner ba = Some (choose_runner env options store rp) \<and> pool ba = map_option (token_behaviour env) tp
        \<and> open_pools evs = pool_list rp @ pool_list tp \<and> open_pools (evs @ Stop_events rp tp) = []
    | (Inl err, evs) \<Rightarrow> open_pools evs =
        (if \<not> isl (buildCacheStore env (ro_Cache options)) \<and> rules_concurrent cc \<and> 0 < RuleRunnerPoolSize cc
           \<and> antsNewPool env (RuleRunnerPoolSize cc) (WithPanicHandler # poolOptions cc) = None
         then [rule_pool] else [])"
proof (cases "MakeByteAnalyzer env options" rule: prod.exhaust)
  case (Pair r evs)
  show ?thesis
  proof (cases r)
    case (Inl err)
    show ?thesis
      unfolding Pair Inl prod.case sum.case failed_pools [OF Pair [unfolded Inl]]
      unfolding cc_def [symmetric] rule_pool_def by (simp only: rule_pool_created simp_thms)
  next
    case (Inr ba)
    from Pair [unfolded Inr] obtain store rp tp where
      b: "buildCacheStore env (ro_Cache options) = Inr store" "rule_pool_of env cc = Inr rp" "token_pool_of env cc = Inr tp"
      "ba = \<lparr>ruleRunner = Some (choose_runner env options store rp), pool = map_option (token_behaviour env) tp\<rparr>"
      "evs = created rp @ created tp"
      unfolding cc_def by (rule MakeByteAnalyzer_Inr)
    then show ?thesis
      unfolding Pair Inr prod.case sum.case by (intro exI [of _ store] exI [of _ rp] exI [of _ tp]) (simp add: stopped_pools)
  qed
qed

end
