(* ===== verification/Configurations.thy ===== *)
theory Configurations
  imports Factory
begin

text \<open>
  What the analyzers of every configuration of \<open>src/analyzer/factory.go\<close> have in common: the
  tokens to which a rule applies are replaced as an applicable rule demands, and when all
  rules have the same settings the output does not depend on the configuration at all.
  First what the default rules stand for (\<open>pii\<close>).
\<close>

section \<open>Personal data in a text\<close>

text \<open>What the default rules stand for, said without the code of the matchers: the digits of a
  CPF or CNPJ with their check digits, an alphanumeric CNPJ, an address with one at-sign and
  a dotted domain that is not a number, an IP address, a payment card number.\<close>

definition email_shape :: "bytes \<Rightarrow> bool" where
  "email_shape s \<longleftrightarrow>
     (\<exists>local l r. s = local @ 64 # l @ 46 # r \<and> 64 \<notin> set (local @ l @ r) \<and> 46 \<notin> set r
        \<and> local \<noteq> [] \<and> l \<noteq> [] \<and> r \<noteq> [] \<and> \<not> list_all (\<lambda>b. digit_byte b \<or> b = 46) (l @ r))"

text \<open>The same by splitting at the at-sign and at the last dot, for evaluation.\<close>

definition email_check :: "bytes \<Rightarrow> bool" where
  "email_check s \<longleftrightarrow>
     (let local = takeWhile (\<lambda>b. b \<noteq> 64) s; dom = tl (dropWhile (\<lambda>b. b \<noteq> 64) s);
          r = takeWhile (\<lambda>b. b \<noteq> 46) (rev dom); l = tl (dropWhile (\<lambda>b. b \<noteq> 46) (rev dom))
      in 64 \<in> set s \<and> local \<noteq> [] \<and> 64 \<notin> set dom \<and> l \<noteq> [] \<and> r \<noteq> []
         \<and> \<not> list_all (\<lambda>b. digit_byte b \<or> b = 46) dom)"

lemma split_first: "a \<in> set xs \<Longrightarrow> xs = takeWhile (\<lambda>b. b \<noteq> a) xs @ a # tl (dropWhile (\<lambda>b. b \<noteq> a) xs)"
  by (induction xs) auto

lemma rest_found: "tl (dropWhile (\<lambda>b. b \<noteq> a) xs) \<noteq> [] \<Longrightarrow> a \<in> set xs"
  by (induction xs) (auto split: if_splits)

lemma email_shape_check: "email_shape s \<longleftrightarrow> email_check s"
proof
  assume "email_shape s"
  then obtain local l r where s: "s = local @ 64 # l @ 46 # r" "64 \<notin> set (local @ l @ r)" "46 \<notin> set r"
    "local \<noteq> []" "l \<noteq> []" "r \<noteq> []" "\<not> list_all (\<lambda>b. digit_byte b \<or> b = 46) (l @ r)"
    unfolding email_shape_def by blast
  have "takeWhile (\<lambda>b. b \<noteq> 64) s = local" "dropWhile (\<lambda>b. b \<noteq> 64) s = 64 # l @ 46 # r"
    using s(2) unfolding s(1) by (auto simp: takeWhile_append dropWhile_append)
  moreover have "takeWhile (\<lambda>b. b \<noteq> 46) (rev (l @ 46 # r)) = rev r" "dropWhile (\<lambda>b. b \<noteq> 46) (rev (l @ 46 # r)) = 46 # rev l"
    using s(3) by (auto simp: takeWhile_append dropWhile_append)
  ultimately show "email_check s" using s by (simp add: email_check_def Let_def)
next
  assume c: "email_check s"
  let ?dom = "tl (dropWhile (\<lambda>b. b \<noteq> 64) s)"
  let ?r = "takeWhile (\<lambda>b. b \<noteq> 46) (rev ?dom)" and ?l = "tl (dropWhile (\<lambda>b. b \<noteq> 46) (rev ?dom))"
  have s: "s = takeWhile (\<lambda>b. b \<noteq> 64) s @ 64 # ?dom"
    using c by (intro split_first) (simp add: email_check_def Let_def)
  have "?l \<noteq> []" using c by (simp add: email_check_def Let_def)
  then have "46 \<in> set (rev ?dom)" by (rule rest_found)
  then have "rev ?dom = ?r @ 46 # ?l" by (rule split_first)
  then have "rev (rev ?dom) = rev (?r @ 46 # ?l)" by (rule arg_cong)
  then have dom: "?dom = rev ?l @ 46 # rev ?r" by simp
  have "64 \<notin> set (takeWhile (\<lambda>b. b \<noteq> 64) s)" "46 \<notin> set ?r" by (auto dest: set_takeWhileD)
  moreover have "64 \<notin> set ?dom" using c by (simp add: email_check_def Let_def)
  then have "64 \<notin> set (rev ?l @ rev ?r)" by (subst (asm) dom) simp
  moreover have "\<not> list_all (\<lambda>b. digit_byte b \<or> b = 46) ?dom" using c by (simp add: email_check_def Let_def)
  then have "\<not> list_all (\<lambda>b. digit_byte b \<or> b = 46) (rev ?l @ rev ?r)" by (subst (asm) dom) simp
  moreover have "takeWhile (\<lambda>b. b \<noteq> 64) s \<noteq> []" "rev ?l \<noteq> []" "rev ?r \<noteq> []" using c by (auto simp: email_check_def Let_def)
  moreover have "s = takeWhile (\<lambda>b. b \<noteq> 64) s @ 64 # rev ?l @ 46 # rev ?r" using s dom by argo
  ultimately show "email_shape s"
    unfolding email_shape_def
    by (intro exI [of _ "takeWhile (\<lambda>b. b \<noteq> 64) s"] exI [of _ "rev ?l"] exI [of _ "rev ?r"] conjI) simp_all
qed

definition card_shape :: "bytes \<Rightarrow> bool" where
  "card_shape s \<longleftrightarrow>
     (let d = card_digits s in length d = 16 \<and> list_all digit_byte d
        \<and> (d ! 0 = 52 \<or> (d ! 0 = 53 \<and> 49 \<le> d ! 1 \<and> d ! 1 \<le> 53)))"

definition pii :: "bytes \<Rightarrow> bool" where
  "pii s \<longleftrightarrow> cpf_valid (digits_of s) \<or> cnpj_valid (digits_of s)
     \<or> cnpj_alnum_valid (map upper_byte (filter (\<lambda>b. \<not> cnpj_fmt b) s))
     \<or> email_shape s \<or> MatchIP s \<or> (card_shape s \<and> s \<notin> set testCreditCardNumbers)"

lemma card_shape_iff: "card_shape s \<longleftrightarrow> MatchVisaCreditCard s \<or> MatchMasterCardCreditCard s"
  by (auto simp: card_shape_def MatchVisa_iff MatchMasterCard_iff Let_def)

lemma pii_default: "first_match c default_rules s \<noteq> None \<longleftrightarrow> pii s"
  unfolding first_match_Some_iff default_rules_def pii_def email_shape_def MatchEmailV2_iff [symmetric]
    card_shape_iff MatchCPF_digits [symmetric] MatchCNPJ_digits [symmetric] MatchCNPJV2_valid [symmetric]
  by (auto simp: default_applies MatchTestCreditCard_def list_ex_iff)

section \<open>Rules that replace alike\<close>

text \<open>When all rules have the same settings, it does not matter which applicable rule decides.\<close>

lemma uniform_text:
  assumes "\<forall>r\<in>set rules. Settings r = stg" "\<forall>(t, d)\<in>set tds. conc_allowed c rules (Content t) d"
  shows "anonymized_text data pos tds = anonymized_text data pos (decide_all (first_match c rules) (map fst tds))"
  using assms(2)
proof (induction tds arbitrary: pos)
  case (Cons td tds)
  obtain t d where td: "td = (t, d)" by fastforce
  have same: "Settings r = stg" if "first_match c rules (Content t) = Some r" for r
    using assms(1) first_match_SomeD [OF that] by blast
  have al: "conc_allowed c rules (Content t) d" using Cons.prems td by simp
  then have "(case d of None \<Rightarrow> Content t | Some r \<Rightarrow> replacement (Settings r) (Content t)) =
      (case first_match c rules (Content t) of None \<Rightarrow> Content t | Some r \<Rightarrow> replacement (Settings r) (Content t))"
  proof (cases d)
    case (Some x)
    then have x: "x \<in> set rules" "applies c (Content t) x" using al by (auto simp: conc_allowed_def)
    then obtain r where r: "first_match c rules (Content t) = Some r"
      using first_match_Some_iff [of c rules "Content t"] by blast
    show ?thesis using Some r same [OF r] x assms(1) by simp
  qed (simp add: conc_allowed_def)
  with Cons td show ?case by (simp add: decide_all_def)
qed (simp add: decide_all_def)

lemma allowed_findings:
  assumes "map fst tds = ts" "\<forall>(t, d)\<in>set tds. conc_allowed c rules (Content t) d"
  shows "(\<exists>t r. (t, Some r) \<in> set tds) \<longleftrightarrow> (\<exists>t\<in>set ts. first_match c rules (Content t) \<noteq> None)"
proof
  assume "\<exists>t r. (t, Some r) \<in> set tds"
  then obtain t r where tr: "(t, Some r) \<in> set tds" by blast
  then have "conc_allowed c rules (Content t) (Some r)" using assms(2) by fast
  then have "first_match c rules (Content t) \<noteq> None"
    using first_match_Some_iff [of c rules "Content t"] by (auto simp: conc_allowed_def)
  moreover have "t \<in> set ts" using tr assms(1) by (metis fst_conv image_eqI list.set_map)
  ultimately show "\<exists>t\<in>set ts. first_match c rules (Content t) \<noteq> None" by blast
next
  assume "\<exists>t\<in>set ts. first_match c rules (Content t) \<noteq> None"
  then obtain t where t: "t \<in> set ts" "first_match c rules (Content t) \<noteq> None" by blast
  then obtain d where td: "(t, d) \<in> set tds" using assms(1) by auto
  then have "conc_allowed c rules (Content t) d" using assms(2) by fast
  with t(2) have "d \<noteq> None" by (cases d) (simp_all add: conc_allowed_def)
  with td show "\<exists>t r. (t, Some r) \<in> set tds" by blast
qed

section \<open>Every configuration\<close>

definition ready :: "('v \<Rightarrow> bytes \<Rightarrow> bytes \<Rightarrow> bytes option) \<Rightarrow> ClientOption RunnerOptions \<Rightarrow> (Entity \<Rightarrow> bytes \<Rightarrow> bool) \<Rightarrow> ctx \<Rightarrow> Rule list \<Rightarrow> 'v an_state \<Rightarrow> bool" where
  "ready hash options verdict c rules s \<longleftrightarrow>
     (if rules_concurrent (ro_Concurrency options) then ready_conc hash options verdict c rules s
      else ready_serial hash options verdict c rules s)"

text \<open>What is relied on of the libraries: clients keep their laws, the token pool runs every task
  once, the workers of the rule pool are not disturbed, and shared flights end soundly.\<close>

definition lawful :: "'v environment \<Rightarrow> ('v \<Rightarrow> bytes \<Rightarrow> bytes \<Rightarrow> bytes option) \<Rightarrow> ClientOption RunnerOptions \<Rightarrow> (Entity \<Rightarrow> bytes \<Rightarrow> bool) \<Rightarrow> bytes \<Rightarrow> bool" where
  "lawful env hash options verdict data \<longleftrightarrow> clients_lawful env hash
     \<and> (\<forall>p. orderly (token_behaviour env p) data)
     \<and> (\<forall>p c d missing. undisturbed c d missing (rule_behaviour env p c d missing))
     \<and> flight_ok verdict (coalescing options) (rule_flights env)"

text \<open>With either runner a built analyzer has a sound runner.\<close>

lemma built_sound:
  assumes "lawful env hash options verdict data" "buildCacheStore env (ro_Cache options) = Inr store"
    "rule_pool_of env (ro_Concurrency options) = Inr rp"
  shows "sound_runner (runner_Process (choose_runner env options store rp)) (ready hash options verdict) conc_allowed"
proof (cases rp)
  case None
  then have "ready hash options verdict = ready_serial hash options verdict"
    using assms(3) rule_pool_off [of env "ro_Concurrency options"] by (simp add: ready_def fun_eq_iff)
  moreover have "rule_runner (runner_Process (choose_runner env options store None)) (ready_serial hash options verdict) first_match"
    using assms(1,2) by (intro built_serial) (simp_all add: lawful_def)
  ultimately show ?thesis
    unfolding None by unfold_locales (metis rule_runner.proc_decides first_match_allowed)
next
  case (Some p)
  then have "ready hash options verdict = ready_conc hash options verdict"
    using assms(3) rule_pool_off [of env "ro_Concurrency options"] by (auto simp: ready_def fun_eq_iff)
  moreover have "sound_runner (runner_Process (choose_runner env options store (Some p))) (ready_conc hash options verdict) conc_allowed"
    using assms(1,2) by (intro built_conc) (simp_all add: lawful_def)
  ultimately show ?thesis unfolding Some by simp
qed

lemma every_configuration:
  assumes "MakeByteAnalyzer env options = (Inr ba, pools)" "lawful env hash options verdict data"
    "ready hash options verdict (WithWorkID (WithLogger c logger) uuid) rules s"
    "rules \<noteq> []" "data \<noteq> []" "\<forall>r\<in>set rules. settings_ok (Settings r)"
  shows "\<exists>tds ws details s'. Anonymize ba logger uuid c rules data s = (ws, Inr details, s')
     \<and> map fst tds = tokens data \<and> concat ws = anonymized_text data 0 tds
     \<and> (\<forall>(t, d)\<in>set tds. conc_allowed (WithWorkID (WithLogger c logger) uuid) rules (Content t) d)
     \<and> (HasFindings details \<longleftrightarrow> (\<exists>t r. (t, Some r) \<in> set tds))
     \<and> ready hash options verdict (WithWorkID (WithLogger c logger) uuid) rules s'"
proof -
  let ?c = "WithWorkID (WithLogger c logger) uuid"
  from assms(1) obtain store rp tp where b: "buildCacheStore env (ro_Cache options) = Inr store"
    "rule_pool_of env (ro_Concurrency options) = Inr rp"
    "ba = \<lparr>ruleRunner = Some (choose_runner env options store rp), pool = map_option (token_behaviour env) tp\<rparr>"
    by (rule MakeByteAnalyzer_Inr)
  let ?r = "choose_runner env options store rp" and ?pl = "map_option (token_behaviour env) tp"
  note sr = built_sound [OF assms(2) b(1,2)]
  have r: "?r = \<lparr>runner_Process = runner_Process ?r, runner_Stop = runner_Stop ?r\<rparr>" by simp
  have ok: "\<forall>d r. conc_allowed ?c rules d (Some r) \<longrightarrow> settings_ok (Settings r)"
    using assms(6) by (simp add: conc_allowed_def)
  have ord: "pool_orderly ?pl data" using assms(2) by (auto simp: pool_orderly_def lawful_def)
  obtain tds ws details s' where
    "Anonymize ba logger uuid c rules data s = (ws, Inr details, s')" "map fst tds = tokens data"
    "sound_runner.decisions_ok conc_allowed ?c rules tds" "concat ws = anonymized_text data 0 tds"
    "HasFindings details \<longleftrightarrow> (\<exists>t r. (t, Some r) \<in> set tds)" "ready hash options verdict ?c rules s'"
    using sound_runner.analyzer_output [OF sr assms(3-5) ok ord, of "runner_Stop ?r", folded r b(3)]
    by (elim exE conjE) (rule that)
  then show ?thesis
    unfolding sound_runner.decisions_ok_def [OF sr] by (intro exI conjI)
qed

text \<open>Rules that replace alike make every configuration write the same text.\<close>

lemma uniform_configuration:
  assumes "MakeByteAnalyzer env options = (Inr ba, pools)" "lawful env hash options verdict data"
    "ready hash options verdict (WithWorkID (WithLogger c logger) uuid) rules s"
    "rules \<noteq> []" "data \<noteq> []" "\<forall>r\<in>set rules. settings_ok (Settings r)" "\<forall>r\<in>set rules. Settings r = stg"
  defines "f \<equiv> first_match (WithWorkID (WithLogger c logger) uuid) rules"
  shows "\<exists>ws details s'. Anonymize ba logger uuid c rules data s = (ws, Inr details, s')
     \<and> concat ws = anonymized_text data 0 (decide_all f (tokens data))
     \<and> (HasFindings details \<longleftrightarrow> (\<exists>t\<in>set (tokens data). f (Content t) \<noteq> None))
     \<and> ready hash options verdict (WithWorkID (WithLogger c logger) uuid) rules s'"
proof -
  obtain tds ws details s' where out: "Anonymize ba logger uuid c rules data s = (ws, Inr details, s')"
    "map fst tds = tokens data" "concat ws = anonymized_text data 0 tds"
    "\<forall>(t, d)\<in>set tds. conc_allowed (WithWorkID (WithLogger c logger) uuid) rules (Content t) d"
    "HasFindings details \<longleftrightarrow> (\<exists>t r. (t, Some r) \<in> set tds)"
    "ready hash options verdict (WithWorkID (WithLogger c logger) uuid) rules s'"
    using every_configuration [OF assms(1-6)] by blast
  have "concat ws = anonymized_text data 0 (decide_all f (tokens data))"
    unfolding out(3) uniform_text [OF assms(7) out(4)] out(2) f_def ..
  moreover have "HasFindings details \<longleftrightarrow> (\<exists>t\<in>set (tokens data). f (Content t) \<noteq> None)"
    unfolding out(5) allowed_findings [OF out(2,4)] f_def ..
  ultimately show ?thesis using out(1,6) by (intro exI conjI)
qed

text \<open>A state that is ready in one context is ready in every other in which the matchers give the
  same answers.\<close>

lemma ready_context:
  assumes "ready hash options verdict c rules s" "verdicts_agree verdict c' rules"
  shows "ready hash options verdict c' rules s"
  using assms by (simp add: ready_def ready_serial_def ready_conc_def serial_inv_def conc_inv_def split: if_splits)

lemma ready_agree: "ready hash options verdict c rules s \<Longrightarrow> verdicts_agree verdict c rules"
  by (simp add: ready_def ready_serial_def ready_conc_def serial_inv_def conc_inv_def split: if_splits)

lemma default_verdicts:
  assumes "verdicts_agree verdict c default_rules"
  shows "verdicts_agree verdict c' default_rules"
proof -
  have "\<forall>r\<in>set default_rules. \<forall>d. rule_match r c d = rule_match r c' d"
    by (simp add: default_rules_def default_rule_defs as_Matcher_def matcher_Match_def prebuilt_langs)
  with assms show ?thesis by (simp add: verdicts_agree_def)
qed

section \<open>Calls in sequence\<close>

text \<open>A client that calls one analyzer again and again: every call has a logger, a work id, a
  context and an input.\<close>

fun anonymize_all :: "'s ByteAnalyzer \<Rightarrow> Rule list \<Rightarrow> (string \<times> string \<times> ctx \<times> bytes) list \<Rightarrow> 's \<Rightarrow> (bytes \<times> AnonymizationDetails result) list \<times> 's" where
  "anonymize_all ba rules [] s = ([], s)"
| "anonymize_all ba rules ((logger, uuid, c, data) # rqs) s =
     (let (ws, r, s') = Anonymize ba logger uuid c rules data s;
          (outs, s'') = anonymize_all ba rules rqs s'
      in ((concat ws, r) # outs, s''))"

end
