(* ===== verification/Rescan.thy ===== *)
theory Rescan
  imports ByteAnalyzer
begin

text \<open>
  Scanning an anonymized text again.  The writes of an analyzer change only tokens, so the
  tokens of the output are those of the input with the replaced ones exchanged, provided
  that a replacement is itself a token.  From this follows that nothing a rule applies to
  is left in a redacted text, and that redacting twice is redacting once.
\<close>

section \<open>Decoding a concatenation\<close>

lemma utf8_first_range: "utf8_first p0 = Some (sz, lo, hi) \<Longrightarrow> 0x80 \<le> lo \<and> hi \<le> 0xBF"
  unfolding utf8_first_def by (auto simp: byte_simps split: if_splits)

lemma not_cont_out: "utf8_first p0 = Some (sz, lo, hi) \<Longrightarrow> not_cont b \<Longrightarrow> b < lo \<or> hi < b"
  using utf8_first_range [of p0 sz lo hi] unfolding not_cont_def by (auto simp: byte_simps)

lemma DecodeRune_append:
  assumes "xs \<noteq> []" "ys = [] \<or> not_cont (hd ys)"
  shows "DecodeRune (xs @ ys) = DecodeRune xs"
proof (cases "ys = []")
  case False
  then obtain y ys' where ys: "ys = y # ys'" "not_cont y" using assms(2) by (cases ys) auto
  obtain p0 ps where xs: "xs = p0 # ps" using assms(1) by (cases xs) auto
  show ?thesis
  proof (cases "p0 < 0x80 \<or> utf8_first p0 = None")
    case True
    then show ?thesis by (auto simp: xs DecodeRune.simps(2))
  next
    case False
    then obtain sz lo hi where f: "utf8_first p0 = Some (sz, lo, hi)" by auto
    have sz: "sz = 2 \<or> sz = 3 \<or> sz = 4" using utf8_first_SomeD [OF f] by linarith
    note out = not_cont_out [OF f ys(2)]
    consider "ps = []" | a where "ps = [a]" | a b where "ps = [a, b]" | a b c ps' where "ps = a # b # c # ps'"
      by (metis list.exhaust)
    then show ?thesis
      using False f sz out ys by cases (auto simp: xs DecodeRune.simps(2))
  qed
qed simp

lemma chunks_append: "ys = [] \<or> not_cont (hd ys) \<Longrightarrow> chunks (xs @ ys) = chunks xs @ chunks ys"
proof (induction xs rule: chunks.induct)
  case (1 xs)
  show ?case
  proof (cases "xs = []")
    case False
    have d: "DecodeRune (xs @ ys) = DecodeRune xs" using False 1(2) by (rule DecodeRune_append)
    have n: "snd (DecodeRune xs) \<le> length xs" using DecodeRune_size [OF False] by simp
    show ?thesis
      using 1(1) [OF False 1(2)] False n
      by (subst chunks.simps, subst (2) chunks.simps) (simp add: d)
  qed simp
qed

text \<open>A chunk that is a whole encoding decodes to itself whatever follows.\<close>

definition whole_chunk :: "rune \<times> bytes \<Rightarrow> bool" where
  "whole_chunk rc \<longleftrightarrow> snd rc \<noteq> [] \<and> not_cont (hd (snd rc)) \<and> (\<forall>ys. chunks (snd rc @ ys) = rc # chunks ys)"

lemma DecodeRune_whole:
  assumes "s \<noteq> []" "fst (DecodeRune s) \<noteq> RuneError"
  shows "DecodeRune (take (snd (DecodeRune s)) s @ ys) = DecodeRune s" "not_cont (hd s)"
proof -
  obtain p0 ps where s: "s = p0 # ps" using assms(1) by (cases s) auto
  have "DecodeRune (take (snd (DecodeRune s)) s @ ys) = DecodeRune s \<and> not_cont (hd s)"
  proof (cases "p0 < 0x80")
    case True
    then show ?thesis by (simp add: s not_cont_def)
  next
    case False
    then obtain sz lo hi where f: "utf8_first p0 = Some (sz, lo, hi)"
      using assms(2) by (cases "utf8_first p0") (auto simp: s DecodeRune.simps(2))
    have sz: "sz = 2 \<or> sz = 3 \<or> sz = 4" and p0: "0xC2 \<le> p0" using utf8_first_SomeD [OF f] by linarith+
    have "not_cont p0" using p0 unfolding not_cont_def by (simp add: byte_simps)
    moreover consider "ps = []" | a where "ps = [a]" | a b where "ps = [a, b]" | a b c ps' where "ps = a # b # c # ps'"
      by (metis list.exhaust)
    then have "DecodeRune (take (snd (DecodeRune s)) s @ ys) = DecodeRune s"
      using False f sz assms(2) by cases (auto simp: s DecodeRune.simps(2) split: if_splits)
    ultimately show ?thesis by (simp add: s)
  qed
  then show "DecodeRune (take (snd (DecodeRune s)) s @ ys) = DecodeRune s" "not_cont (hd s)" by simp_all
qed

lemma chunks_whole: "rc \<in> set (chunks s) \<Longrightarrow> fst rc \<noteq> RuneError \<Longrightarrow> whole_chunk rc"
proof (induction s rule: chunks.induct)
  case (1 s)
  show ?case
  proof (cases "s = []")
    case False
    let ?r = "fst (DecodeRune s)" and ?n = "snd (DecodeRune s)"
    have n: "0 < ?n" "?n \<le> length s" using DecodeRune_size [OF False] by simp_all
    have "whole_chunk (?r, take ?n s)" if "?r \<noteq> RuneError"
    proof -
      have "chunks (take ?n s @ ys) = (?r, take ?n s) # chunks ys" for ys
        using DecodeRune_whole(1) [OF False that, of ys] False n
        by (subst chunks.simps) (simp add: take_append)
      then show ?thesis using DecodeRune_whole(2) [OF False that] False n by (simp add: whole_chunk_def hd_take)
    qed
    with 1 False show ?thesis by (auto simp: chunks.simps [of s])
  qed (use 1 in simp)
qed

lemma chunks_gap: "list_all whole_chunk gap \<Longrightarrow> chunks (chunk_bytes gap @ ys) = gap @ chunks ys"
  by (induction gap) (simp_all add: whole_chunk_def)

section \<open>Exchanging tokens\<close>

text \<open>What \<open>skip_chunks\<close> drops.\<close>

fun skipped :: "bool \<Rightarrow> (rune \<times> bytes) list \<Rightarrow> (rune \<times> bytes) list" where
  "skipped esc [] = []"
| "skipped esc ((r, c) # cs) =
     (if r = escapeChar then (r, c) # skipped True cs
      else if esc \<and> control r then (r, c) # skipped False cs
      else if \<not> isDelimiter r then []
      else (r, c) # skipped esc cs)"

lemma skipped_append: "skipped esc cs @ skip_chunks esc cs = cs"
  by (induction esc cs rule: skip_chunks.induct) auto

lemma skipped_runes: "rc \<in> set (skipped esc cs) \<Longrightarrow> rc \<in> set cs \<and> (isDelimiter (fst rc) \<or> control (fst rc))"
  by (induction esc cs rule: skipped.induct) (auto simp: isDelimiter_escape split: if_splits)

lemma skip_exchange:
  "in_token rc \<Longrightarrow> \<not> control (fst rc) \<or> (\<exists>cs1. skip_chunks esc cs = rc # cs1) \<Longrightarrow>
     skip_chunks esc (skipped esc cs @ rc # cs') = rc # cs'"
proof (induction esc cs rule: skipped.induct)
  case (1 esc)
  then show ?case using isDelimiter_escape by (cases rc) auto
next
  case (2 esc r c cs)
  then show ?case using isDelimiter_escape by (cases rc) (auto split: if_splits)
qed

function exchange :: "((rune \<times> bytes) list \<Rightarrow> (rune \<times> bytes) list) \<Rightarrow> (rune \<times> bytes) list \<Rightarrow> (rune \<times> bytes) list" where
  "exchange g cs =
     (case skip_chunks False cs of
        [] \<Rightarrow> cs
      | rc # cs' \<Rightarrow> skipped False cs @ g (rc # takeWhile in_token cs') @ exchange g (dropWhile in_token cs'))"
  by pat_completeness auto
termination
proof (relation "measure (length \<circ> snd)", goal_cases)
  case (2 g cs rc cs')
  then have "length cs' < length cs" using length_skip_chunks [of False cs] by simp
  then show ?case using length_dropWhile_le [of in_token cs'] by simp
qed simp

declare exchange.simps [simp del]

text \<open>For evaluation: the recursive call behind an equation that needs the rest in head form.\<close>

definition exchange_from :: "((rune \<times> bytes) list \<Rightarrow> (rune \<times> bytes) list) \<Rightarrow> (rune \<times> bytes) list \<Rightarrow> (rune \<times> bytes) list \<Rightarrow> (rune \<times> bytes) list" where
  "exchange_from g cs rest =
     (case rest of
        [] \<Rightarrow> cs
      | rc # cs' \<Rightarrow> skipped False cs @ g (rc # takeWhile in_token cs') @ exchange g (dropWhile in_token cs'))"

lemma exchange_from_code [code]:
  "exchange_from g cs [] = cs"
  "exchange_from g cs (rc # cs') = skipped False cs @ g (rc # takeWhile in_token cs') @ exchange g (dropWhile in_token cs')"
  by (simp_all add: exchange_from_def)

lemma exchange_code [code]: "exchange g cs = exchange_from g cs (skip_chunks False cs)"
  by (simp add: exchange_from_def exchange.simps [of g cs])

lemma exchange_Nil [simp]: "exchange g [] = []"
  by (simp add: exchange.simps)

lemma exchange_head:
  "cs = [] \<or> \<not> in_token (hd cs) \<Longrightarrow> exchange g cs = [] \<or> (\<exists>rc\<in>set cs. hd (exchange g cs) = rc \<and> \<not> in_token rc)"
proof (cases cs)
  case (Cons rc cs1)
  assume "cs = [] \<or> \<not> in_token (hd cs)"
  then have d: "isDelimiter (fst rc)" using Cons by simp
  then have "skipped False cs \<noteq> [] \<and> hd (skipped False cs) = rc" using Cons by (cases rc) auto
  then have "hd (exchange g cs) = rc" using Cons by (subst exchange.simps) (simp split: list.split)
  with d Cons show ?thesis by simp
qed simp

definition token_like :: "(rune \<times> bytes) list \<Rightarrow> bool" where
  "token_like tok \<longleftrightarrow> tok \<noteq> [] \<and> list_all in_token tok \<and> \<not> control (fst (hd tok))"

lemma ref_tokens_exchange:
  "(\<forall>tok\<in>set (ref_tokens cs). g tok = tok \<or> token_like (g tok)) \<Longrightarrow> ref_tokens (exchange g cs) = map g (ref_tokens cs)"
proof (induction cs rule: ref_tokens.induct)
  case (1 cs)
  show ?case
  proof (cases "skip_chunks False cs")
    case Nil
    then have "exchange g cs = cs" by (simp add: exchange.simps)
    with Nil show ?thesis by (simp add: ref_tokens.simps [of cs])
  next
    case (Cons rc cs1)
    let ?tok = "rc # takeWhile in_token cs1" and ?rest = "dropWhile in_token cs1"
    have toks: "ref_tokens cs = ?tok # ref_tokens ?rest" using Cons by (simp add: ref_tokens.simps [of cs])
    have IH: "ref_tokens (exchange g ?rest) = map g (ref_tokens ?rest)"
      using 1(1) [OF Cons] 1(2) toks by simp
    have "list_all in_token ?tok"
      using skip_chunks_head [OF Cons] by (auto simp: list_all_iff dest: set_takeWhileD)
    with 1(2) toks obtain rc' tk' where g: "g ?tok = rc' # tk'" "list_all in_token (rc' # tk')"
      "\<not> control (fst rc') \<or> rc' = rc"
      by (cases "g ?tok") (auto simp: token_like_def)
    let ?ex = "exchange g ?rest"
    have "\<not> in_token (hd ?rest)" if "?rest \<noteq> []" using that by (rule hd_dropWhile)
    then have ex: "?ex = [] \<or> \<not> in_token (hd ?ex)" using exchange_head [of ?rest g] by blast
    have "takeWhile in_token (tk' @ ?ex) = tk' \<and> dropWhile in_token (tk' @ ?ex) = ?ex"
      using g(2) ex by (cases ?ex) (simp_all add: takeWhile_append2 list_all_iff)
    moreover have "skip_chunks False (exchange g cs) = rc' # tk' @ ?ex"
    proof -
      have "exchange g cs = skipped False cs @ rc' # tk' @ ?ex" using Cons g(1) by (simp add: exchange.simps [of g cs])
      then show ?thesis using g(2,3) Cons by (simp add: skip_exchange)
    qed
    ultimately have "ref_tokens (exchange g cs) = (rc' # tk') # ref_tokens ?ex"
      by (simp add: ref_tokens.simps [of "exchange g cs"])
    with IH toks g(1) show ?thesis by simp
  qed
qed

lemma delimiter_not_error: "isDelimiter r \<or> control r \<Longrightarrow> r \<noteq> RuneError"
  by (auto simp: isDelimiter_def IsSpace_def delimiters_def control_def RuneError_def)

lemma chunks_exchange:
  assumes "\<forall>rc\<in>set cs. fst rc \<noteq> RuneError \<longrightarrow> whole_chunk rc"
    "\<forall>tok\<in>set (ref_tokens cs). chunks (chunk_bytes (g tok)) = g tok"
  shows "chunks (chunk_bytes (exchange g cs)) = exchange g cs"
  using assms
proof (induction cs rule: ref_tokens.induct)
  case (1 cs)
  have gap: "list_all whole_chunk (skipped False cs)"
    using 1(2) skipped_runes delimiter_not_error by (fastforce simp: list_all_iff)
  show ?case
  proof (cases "skip_chunks False cs")
    case Nil
    then have "exchange g cs = cs" "skipped False cs = cs"
      using skipped_append [of False cs] by (simp_all add: exchange.simps)
    with gap chunks_gap [of cs "[]"] show ?thesis by simp
  next
    case (Cons rc cs1)
    let ?tok = "rc # takeWhile in_token cs1" and ?rest = "dropWhile in_token cs1"
    let ?ex = "exchange g ?rest"
    have toks: "ref_tokens cs = ?tok # ref_tokens ?rest" using Cons by (simp add: ref_tokens.simps [of cs])
    have sub: "set ?rest \<subseteq> set cs"
      using skipped_append [of False cs] Cons by (metis set_dropWhileD subsetI Un_iff set_append list.set_intros(2))
    have IH: "chunks (chunk_bytes ?ex) = ?ex"
      using 1(1) [OF Cons] 1(2,3) toks sub by auto
    have "\<not> in_token (hd ?rest)" if "?rest \<noteq> []" using that by (rule hd_dropWhile)
    then have "?ex = [] \<or> whole_chunk (hd ?ex)"
      using exchange_head [of ?rest g] 1(2) sub delimiter_not_error by blast
    then have "chunk_bytes ?ex = [] \<or> not_cont (hd (chunk_bytes ?ex))"
      by (cases ?ex) (auto simp: whole_chunk_def)
    then have "chunks (chunk_bytes (g ?tok) @ chunk_bytes ?ex) = g ?tok @ ?ex"
      using chunks_append IH 1(3) toks by simp
    moreover have "exchange g cs = skipped False cs @ g ?tok @ ?ex" using Cons by (simp add: exchange.simps [of g cs])
    ultimately show ?thesis by (simp add: chunks_gap [OF gap])
  qed
qed

section \<open>The tokens of an anonymized text\<close>

definition exchanged :: "(bytes \<Rightarrow> Rule option) \<Rightarrow> bytes \<Rightarrow> bytes" where
  "exchanged f b = (case f b of None \<Rightarrow> b | Some r \<Rightarrow> replacement (Settings r) b)"

lemma skipped_bytes:
  assumes "start \<le> length s"
  shows "take (skipDelimiters s start False - start) (drop start s) = chunk_bytes (skipped False (chunks (drop start s)))"
proof -
  let ?b = "skipDelimiters s start False" and ?cs = "chunks (drop start s)"
  have b: "start \<le> ?b" "?b \<le> length s" using skipDelimiters_bounds [OF assms] by auto
  have "drop start s = chunk_bytes (skipped False ?cs) @ chunk_bytes (skip_chunks False ?cs)"
    by (metis chunks_concat concat_append map_append skipped_append)
  also have "chunk_bytes (skip_chunks False ?cs) = drop ?b s"
    using chunks_skipDelimiters [OF assms, of False] by (metis chunks_concat)
  finally have eq: "drop start s = chunk_bytes (skipped False ?cs) @ drop ?b s" .
  then have "length (drop start s) = length (chunk_bytes (skipped False ?cs)) + length (drop ?b s)"
    by (metis length_append)
  then have "length (chunk_bytes (skipped False ?cs)) = ?b - start" using b by simp
  with eq show ?thesis by (metis append_eq_conv_conj)
qed

lemma anonymized_exchange:
  "tokens_from s start ts \<Longrightarrow> start \<le> length s \<Longrightarrow>
     anonymized_text s start (decide_all f ts)
       = chunk_bytes (exchange (\<lambda>tok. chunks (exchanged f (chunk_bytes tok))) (chunks (drop start s)))"
proof (induction rule: tokens_from.induct)
  case (at_end start)
  then show ?case by (simp add: decide_all_def)
next
  case (only_gap start)
  then have "skip_chunks False (chunks (drop start s)) = []"
    using chunks_skipDelimiters [of start s False] by simp
  then show ?case by (simp add: decide_all_def exchange.simps chunks_concat)
next
  case (token start b ts)
  let ?cs = "chunks (drop start s)"
  have b: "chunks (drop b s) = skip_chunks False ?cs" "b < length s"
    using chunks_skipDelimiters [of start s False] token by simp_all
  obtain rc cs1 where rc: "chunks (drop b s) = rc # cs1" using chunks_drop [OF b(2)] by blast
  then have "in_token rc" using skip_chunks_head [of False ?cs] b by simp
  then have c: "Content (token_at s b) = chunk_bytes (rc # takeWhile in_token cs1)"
    "chunks (drop (End (token_at s b)) s) = dropWhile in_token cs1"
    using findTokenEnd_chunks [of b s] b(2) rc by (simp_all add: token_at_def)
  have "End (token_at s b) \<le> length s" using findTokenEnd_bounds [of b s] b by (simp add: token_at_def)
  note IH = token.IH [OF this]
  have gap: "take (b - start) (drop start s) = chunk_bytes (skipped False ?cs)"
    using skipped_bytes [OF token.prems] token.hyps(2) by simp
  have "anonymized_text s start (decide_all f (token_at s b # ts)) = take (b - start) (drop start s)
      @ exchanged f (Content (token_at s b)) @ anonymized_text s (End (token_at s b)) (decide_all f ts)"
    using token_at_def [of s b] by (simp add: decide_all_def exchanged_def split: option.split)
  then show ?case
    unfolding IH gap c using rc b(1)
    by (simp add: exchange.simps [of _ ?cs] chunks_concat)
qed

text \<open>The anonymized text in one pass over the decoded input.\<close>

definition exchange_chunks :: "(bytes \<Rightarrow> bytes) \<Rightarrow> (rune \<times> bytes) list \<Rightarrow> (rune \<times> bytes) list" where
  "exchange_chunks g tok = chunks (g (chunk_bytes tok))"

lemma anonymized_in_one_pass:
  "anonymized_text s 0 (decide_all f (tokens s)) = chunk_bytes (exchange (exchange_chunks (exchanged f)) (chunks s))"
  using anonymized_exchange [OF tokens_from_tokens, of s f] by (simp add: exchange_chunks_def [abs_def])

lemma rescan_tokens:
  assumes "\<forall>t\<in>set (tokens s). \<forall>r. f (Content t) = Some r \<longrightarrow> token_like (chunks (replacement (Settings r) (Content t)))"
  defines "out \<equiv> anonymized_text s 0 (decide_all f (tokens s))"
  shows "map Content (tokens out) = map (exchanged f \<circ> Content) (tokens s)"
proof -
  let ?g = "\<lambda>tok. chunks (exchanged f (chunk_bytes tok))"
  have out: "out = chunk_bytes (exchange ?g (chunks s))"
    using anonymized_exchange [OF tokens_from_tokens, of s f] by (simp add: out_def)
  have toks: "ref_tokens (chunks s) = map (chunks \<circ> Content) (tokens s)" by (simp add: tokens_ref)
  have "chunks out = exchange ?g (chunks s)"
    unfolding out using chunks_whole by (intro chunks_exchange) (auto simp: chunks_concat)
  moreover have "\<forall>tok\<in>set (ref_tokens (chunks s)). ?g tok = tok \<or> token_like (?g tok)"
    unfolding toks using assms(1) by (auto simp: chunks_concat exchanged_def split: option.split)
  ultimately have "ref_tokens (chunks out) = map ?g (ref_tokens (chunks s))"
    by (simp add: ref_tokens_exchange)
  then show ?thesis unfolding tokens_contents toks by (simp add: chunks_concat comp_def)
qed

text \<open>A text without decided tokens is its own anonymization.\<close>

lemma nothing_to_replace:
  assumes "\<forall>t\<in>set (tokens s). f (Content t) = None"
  shows "anonymized_text s 0 (decide_all f (tokens s)) = s"
proof -
  have "tokens_ok s pos ts \<Longrightarrow> \<forall>t\<in>set ts. f (Content t) = None \<Longrightarrow> pos \<le> length s \<Longrightarrow>
      anonymized_text s pos (decide_all f ts) = drop pos s" for pos ts
  proof (induction s pos ts rule: tokens_ok.induct)
    case (2 s pos t ts)
    then have t: "pos \<le> Start t" "Start t < End t" "End t \<le> length s"
      "Content t = take (End t - Start t) (drop (Start t) s)"
      by (auto simp: slice_def split: if_splits)
    have "drop pos s = take (Start t - pos) (drop pos s) @ drop (Start t) s"
      using t(1) append_take_drop_id [of "Start t - pos" "drop pos s"] by simp
    also have "drop (Start t) s = Content t @ drop (End t) s"
      using t(2,4) append_take_drop_id [of "End t - Start t" "drop (Start t) s"] by simp
    finally show ?case using 2 by (simp add: decide_all_def)
  qed (simp add: decide_all_def)
  from this [of 0 "tokens s"] assms tokens_from_ok [OF tokens_from_tokens, of s] show ?thesis by simp
qed

section \<open>Nothing is left\<close>

text \<open>Replacements that are tokens themselves and to which no rule applies.\<close>

definition clean_replacements :: "ctx \<Rightarrow> Rule list \<Rightarrow> bytes \<Rightarrow> bool" where
  "clean_replacements c rules data \<longleftrightarrow>
     (\<forall>t\<in>set (tokens data). case first_match c rules (Content t) of
        None \<Rightarrow> True
      | Some r \<Rightarrow> token_like (chunks (replacement (Settings r) (Content t)))
          \<and> first_match c rules (replacement (Settings r) (Content t)) = None)"

lemma clean_output:
  assumes "clean_replacements c rules data"
  defines "out \<equiv> anonymized_text data 0 (decide_all (first_match c rules) (tokens data))"
  shows "\<forall>t\<in>set (tokens out). first_match c rules (Content t) = None"
    and "anonymized_text out 0 (decide_all (first_match c rules) (tokens out)) = out"
proof -
  have "map Content (tokens out) = map (exchanged (first_match c rules) \<circ> Content) (tokens data)"
    unfolding out_def using assms(1) by (intro rescan_tokens) (fastforce simp: clean_replacements_def split: option.splits)
  then have eq: "Content ` set (tokens out) = (exchanged (first_match c rules) \<circ> Content) ` set (tokens data)"
    by (metis list.set_map)
  have gone: "first_match c rules (exchanged (first_match c rules) (Content t)) = None" if "t \<in> set (tokens data)" for t
    using assms(1) that by (auto simp: clean_replacements_def exchanged_def split: option.splits)
  show none: "\<forall>t\<in>set (tokens out). first_match c rules (Content t) = None"
  proof
    fix t
    assume "t \<in> set (tokens out)"
    then have "Content t \<in> (exchanged (first_match c rules) \<circ> Content) ` set (tokens data)"
      unfolding eq [symmetric] by (rule imageI)
    then show "first_match c rules (Content t) = None" using gone by auto
  qed
  then show "anonymized_text out 0 (decide_all (first_match c rules) (tokens out)) = out"
    by (rule nothing_to_replace)
qed

text \<open>A placeholder that no rule of a redacting rule set applies to is a clean replacement.\<close>

lemma clean_placeholder:
  assumes "\<forall>r\<in>set rules. Strategy (Settings r) = REDACT \<and> Redact (Settings r) = Some \<lparr>Placeholder = p\<rparr>"
    "token_like (chunks p)" "first_match c rules p = None"
  shows "clean_replacements c rules data"
proof -
  have "replacement (Settings r) b = p" if "r \<in> set rules" for r b
    using assms(1) that by (simp add: replacement_def)
  with assms(2,3) show ?thesis
    by (auto simp: clean_replacements_def split: option.split dest: first_match_SomeD)
qed

lemma placeholder_token_like: "token_like (chunks DefaultRedactString)"
  by (simp add: DefaultRedactString_def token_like_def isDelimiter_def IsSpace_def delimiters_def control_def)

lemma placeholder_unmatched: "first_match c default_rules DefaultRedactString = None"
proof -
  define p where "p = DefaultRedactString"
  have "\<not> MatchCPF p \<and> \<not> MatchCNPJ p \<and> \<not> MatchCNPJV2 p \<and> \<not> MatchEmailV2 p \<and> \<not> MatchIP p
      \<and> \<not> MatchVisaCreditCard p \<and> \<not> MatchMasterCardCreditCard p"
    unfolding p_def by code_simp
  then have "first_match c default_rules p = None"
    by (simp add: first_match_def default_rules_def default_applies)
  then show ?thesis unfolding p_def .
qed

lemma default_rules_clean: "clean_replacements c default_rules data"
proof (rule clean_placeholder [where p = DefaultRedactString])
  show "\<forall>r\<in>set default_rules. Strategy (Settings r) = REDACT \<and> Redact (Settings r) = Some \<lparr>Placeholder = DefaultRedactString\<rparr>"
    by (simp add: default_rules_def default_rule_defs DefaultRuleSetting_def)
qed (rule placeholder_token_like placeholder_unmatched)+

section \<open>Properties\<close>



end
