(* ===== verification/Examples.thy ===== *)
theory Examples
  imports Configurations Rescan
begin

text \<open>
  The programs under \<open>src/examples/\<close>: their rules, inputs, runs and what they print.  The time
  the concurrent example measures is an argument, as text.
\<close>

section \<open>Options left at their zero values\<close>

definition zero_options :: "ClientOption RunnerOptions" where
  "zero_options = \<lparr>ro_Cache = \<lparr>co_Enabled = False, co_TTL = 0, co_TTLJitterPercentage = 0, SingleflightEnabled = False,
       co_DisableInMemoryCache = False, RedisAddr = [], RedisDisableClusterMode = False, RedisUsername = [],
       RedisPassword = [], RedisDialTimeout = 0, RedisReadTimeout = 0, RedisWriteTimeout = 0, RedisPoolSize = 0,
       RedisMinIdleConns = 0, RedisInsecureSkipVerify = False, RedisPingOnConnect = False,
       co_ValkeyConfigMutator = None, TracingEnabled = False\<rparr>,
     ro_Concurrency = \<lparr>conc_Enabled = False, ConcurrentTokenProcessing = False, ConcurrentRuleProcessing = False,
       RuleRunnerPoolSize = 0, TokenPoolSize = 0, MaxGoroutineIdleTimeout = 0\<rparr>\<rparr>"

definition example_analyzer :: "(unit run_state \<times> (bytes \<Rightarrow> flight) list) StringAnalyzer" where
  "example_analyzer = NewStringAnalyzer (Some (serial_runner (NewSerialRulesRuner zero_options (Some NoopRuleMatchingCache))))"

definition example_state :: "unit run_state \<times> (bytes \<Rightarrow> flight) list" where
  "example_state = (\<lparr>cache_state = (), trace = []\<rparr>, [])"

section \<open>Printing\<close>

text \<open>\<open>fmt.Println\<close>, and the verbs \<open>%v\<close> for a boolean and a slice of entities and \<open>%d\<close>.\<close>

definition Println :: "bytes \<Rightarrow> bytes" where
  "Println b = b @ [10]"

definition format_bool :: "bool \<Rightarrow> bytes" where
  "format_bool b = (if b then str ''true'' else str ''false'')"

definition format_slice :: "Entity list \<Rightarrow> bytes" where
  "format_slice es = str (''['' @ joinNames '' '' es @ '']'')"

fun format_nat :: "nat \<Rightarrow> bytes" where
  "format_nat n = (if n < 10 then [48 + of_nat n] else format_nat (n div 10) @ [48 + of_nat (n mod 10)])"

declare format_nat.simps [simp del]

text \<open>The characters of the source that are not ASCII, in UTF-8.\<close>

definition em_dash :: string where "em_dash = [CHR 0xE2, CHR 0x80, CHR 0x94]"
definition bullet :: string where "bullet = [CHR 0xE2, CHR 0x80, CHR 0xA2]"
definition box_line :: string where "box_line = [CHR 0xE2, CHR 0x94, CHR 0x80]"
definition box_double :: string where "box_double = [CHR 0xE2, CHR 0x95, CHR 0x90]"
definition box_side :: string where "box_side = [CHR 0xE2, CHR 0x95, CHR 0x91]"

section \<open>The basic example\<close>

definition basic_rules :: "Rule list" where
  "basic_rules = [DefaultCPFRule, DefaultEmailRule, DefaultCreditCardRule]"

definition basic_input :: bytes where
  "basic_input = str ''User report:'' @ [10]
     @ str ''  Name: Maria Silva'' @ [10]
     @ str ''  CPF: 529.982.247-25'' @ [10]
     @ str ''  Email: maria.silva@example.com'' @ [10]
     @ str ''  Card: 4532-0167-4352-9607'' @ [10]"

definition basic_print :: "bytes \<times> AnonymizationDetails \<Rightarrow> bytes" where
  "basic_print rd =
     (let (result, details) = rd in
      Println (str ''=== Anonymization Results ==='')
      @ Println (str ''Has findings: '' @ format_bool (HasFindings details))
      @ (if HasFindings details
         then Println (str ''Detected entities:   '' @ format_slice (DetectedEntities details))
           @ Println (str ''Anonymized entities: '' @ format_slice (AnonymizedEntities details))
         else [])
      @ Println (str ''--- Anonymized output ---'')
      @ result)"

definition basic_main :: "string \<Rightarrow> string \<Rightarrow> bytes result" where
  "basic_main logger uuid =
     map_sum id basic_print
       (fst (StringAnalyzer_Anonymize example_analyzer logger uuid background basic_rules basic_input example_state))"

section \<open>The custom rules example\<close>

definition len_pattern :: "string \<Rightarrow> nat \<Rightarrow> BasePattern" where
  "len_pattern n k = NewBasePattern n (\<lambda>c b. (length b \<ge> k, []))"

definition prefix_pattern :: "string \<Rightarrow> bytes \<Rightarrow> BasePattern" where
  "prefix_pattern n p = NewBasePattern n (\<lambda>c b. (HasPrefix b p, []))"

definition apiKeyMatcher :: PatternMatcher where
  "apiKeyMatcher = NewPatternMatcher ''API_KEY''
     (And_pattern (prefix_pattern ''startsWith(sk-)'' (str ''sk-'')) (len_pattern ''len>=24'' 24))"

definition testKeyException :: Exception where
  "testKeyException = \<lparr>Reason = ''Test API keys (sk-test-*) are safe and can appear in logs'',
     exc_Matcher = as_Matcher (NewPatternMatcher ''TEST_API_KEY''
       (prefix_pattern ''startsWith(sk-test-)'' (str ''sk-test-'')))\<rparr>"

definition apiKeyRule :: Rule where
  "apiKeyRule = \<lparr>Disable = False, rule_Name = ''api_key'',
     Description = ''Production API keys (sk-*, excluding sk-test-*)'', rule_Matcher = as_Matcher apiKeyMatcher,
     Exceptions = [testKeyException],
     Settings = \<lparr>Strategy = REDACT, Redact = Some \<lparr>Placeholder = str ''[REDACTED_API_KEY]''\<rparr>, Mask = None\<rparr>\<rparr>"

definition orderIDMatcher :: PatternMatcher where
  "orderIDMatcher = NewPatternMatcher ''ORDER_ID''
     (And_pattern
       (Or_pattern (prefix_pattern ''startsWith(ORD-)'' (str ''ORD-'')) (prefix_pattern ''startsWith(PO-)'' (str ''PO-'')))
       (len_pattern ''len>=12'' 12))"

definition orderIDRule :: Rule where
  "orderIDRule = \<lparr>Disable = False, rule_Name = ''order_id'',
     Description = ''Order/Purchase Order IDs '' @ em_dash @ '' mask the numeric suffix'',
     rule_Matcher = as_Matcher orderIDMatcher, Exceptions = [],
     Settings = \<lparr>Strategy = MASK, Redact = None, Mask = Some \<lparr>MaskingChar = str ''*'', MaxSize = 4\<rparr>\<rparr>\<rparr>"

definition hexCharPattern :: BasePattern where
  "hexCharPattern = NewBasePattern ''hexCharsOnly'' (\<lambda>c b. (list_all (\<lambda>x.
     (x \<ge> ch (CHR ''0'') \<and> x \<le> ch (CHR ''9'')) \<or> (x \<ge> ch (CHR ''a'') \<and> x \<le> ch (CHR ''f''))
     \<or> (x \<ge> ch (CHR ''A'') \<and> x \<le> ch (CHR ''F''))) b, []))"

definition secretMatcher :: PatternMatcher where
  "secretMatcher = NewPatternMatcher ''INTERNAL_SECRET''
     (And_pattern (And_pattern hexCharPattern (len_pattern ''len>=32'' 32))
       (Not_pattern (NewBasePattern ''isUUID'' (\<lambda>c b. (MatchUUID b, [])))))"

definition secretRule :: Rule where
  "secretRule = \<lparr>Disable = False, rule_Name = ''internal_secret'',
     Description = ''Long hex tokens that are not UUIDs '' @ em_dash @ '' potential internal secrets'',
     rule_Matcher = as_Matcher secretMatcher, Exceptions = [],
     Settings = \<lparr>Strategy = REDACT, Redact = Some \<lparr>Placeholder = str ''[SECRET]''\<rparr>, Mask = None\<rparr>\<rparr>"

definition custom_rules :: "Rule list" where
  "custom_rules = [apiKeyRule, orderIDRule, secretRule]"

definition custom_input :: bytes where
  "custom_input = str ''Deployment report:'' @ [10]
     @ str ''  API Key: sk-live-abcd1234efgh5678ijkl'' @ [10]
     @ str ''  Test Key: sk-test-0000deadbeefcafe0000'' @ [10]
     @ str ''  Order: ORD-20250605123'' @ [10]
     @ str ''  Purchase: PO-987654321098'' @ [10]
     @ str ''  Secret: af37c8b92d1e4f6a8b3c1d9e2f4a7c6b0'' @ [10]
     @ str ''  Request ID: 550e8400-e29b-41d4-a716-446655440000'' @ [10]"

definition rule_line :: "Rule \<Rightarrow> bytes" where
  "rule_line r =
     (let strategy = (if Strategy (Settings r) = MASK then ''MASK'' else ''REDACT'');
          exceptionNote = (if length (Exceptions r) > 0
                           then str '' (with '' @ format_nat (length (Exceptions r)) @ str '' exception(s))'' else [])
      in Println (str (''  '' @ bullet @ '' '' @ rule_Name r @ '' ['' @ strategy @ '']'') @ exceptionNote))"

definition custom_print :: "bytes \<times> AnonymizationDetails \<Rightarrow> bytes" where
  "custom_print rd =
     (let (result, details) = rd; bar = concat (replicate 52 box_double) in
      Println (str ([CHR 0xE2, CHR 0x95, CHR 0x94] @ bar @ [CHR 0xE2, CHR 0x95, CHR 0x97]))
      @ Println (str (box_side @ ''     Custom Rules '' @ em_dash @ '' Anonymization Results          '' @ box_side))
      @ Println (str ([CHR 0xE2, CHR 0x95, CHR 0x9A] @ bar @ [CHR 0xE2, CHR 0x95, CHR 0x9D]))
      @ Println []
      @ Println (str ''Has findings: '' @ format_bool (HasFindings details))
      @ Println (str ''Detected entities:   '' @ format_slice (DetectedEntities details))
      @ Println (str ''Anonymized entities: '' @ format_slice (AnonymizedEntities details))
      @ Println []
      @ Println (str (box_line @ box_line @ box_line @ '' Rules Applied '' @ box_line @ box_line @ box_line))
      @ concat (map rule_line custom_rules)
      @ Println []
      @ Println (str (box_line @ box_line @ box_line @ '' Anonymized Output '' @ box_line @ box_line @ box_line))
      @ Println (str ''Observe:'')
      @ Println (str ''  - sk-live-... is REDACTED entirely'')
      @ Println (str ''  - sk-test-... is preserved (exception)'')
      @ Println (str ''  - ORD-... and PO-... are MASKED (first 4 chars visible)'')
      @ Println (str ''  - af37c8b... (hex secret) is REDACTED'')
      @ Println (str ''  - The UUID is left intact (excluded by Not composition)'')
      @ Println []
      @ result)"

definition custom_main :: "string \<Rightarrow> string \<Rightarrow> bytes result" where
  "custom_main logger uuid =
     map_sum id custom_print
       (fst (StringAnalyzer_Anonymize example_analyzer logger uuid background custom_rules custom_input example_state))"

section \<open>The concurrent example\<close>

record log_record =
  line :: bytes
  log_token :: bytes

definition log_records :: "log_record list" where
  "log_records = [
     \<lparr>line = str ''2026-06-05T10:15:00Z [INFO ] Request handled user=maria.silva email=maria.silva@example.com'', log_token = str ''maria.silva@example.com''\<rparr>,
     \<lparr>line = str ''2026-06-05T10:15:01Z [INFO ] Request handled user=joao.souza email=joao.souza@corp.io'', log_token = str ''joao.souza@corp.io''\<rparr>,
     \<lparr>line = str ''2026-06-05T10:15:02Z [INFO ] New account CPF 52998224725 registered via mobile app'', log_token = str ''52998224725''\<rparr>,
     \<lparr>line = str ''2026-06-05T10:15:03Z [INFO ] New account CPF 12345678909 created successfully'', log_token = str ''12345678909''\<rparr>,
     \<lparr>line = str ''2026-06-05T10:15:04Z [INFO ] New account CPF 98765432100 approved by compliance'', log_token = str ''98765432100''\<rparr>,
     \<lparr>line = str ''2026-06-05T10:15:05Z [INFO ] Payment 4532016743529607 authorized for order #8812'', log_token = str ''4532016743529607''\<rparr>,
     \<lparr>line = str ''2026-06-05T10:15:06Z [INFO ] Payment 5500000000000004 processed via gateway'', log_token = str ''5500000000000004''\<rparr>,
     \<lparr>line = str ''2026-06-05T10:15:07Z [INFO ] Payment 4111111111111111 declined insufficient funds'', log_token = str ''4111111111111111''\<rparr>,
     \<lparr>line = str ''2026-06-05T10:15:08Z [INFO ] Client 192.168.1.10 connected from VPN endpoint'', log_token = str ''192.168.1.10''\<rparr>,
     \<lparr>line = str ''2026-06-05T10:15:09Z [INFO ] Client 10.0.0.5 established websocket session'', log_token = str ''10.0.0.5''\<rparr>,
     \<lparr>line = str ''2026-06-05T10:15:10Z [INFO ] Client 172.16.0.1 disconnected after timeout'', log_token = str ''172.16.0.1''\<rparr>]"

definition noise_lines :: bytes where
  "noise_lines = str ''2026-06-05T10:15:11Z [DEBUG] cache hit key=session:abc123 ttl=300'' @ [10]
     @ str ''2026-06-05T10:15:12Z [DEBUG] db query latency=2ms rows=42'' @ [10]
     @ str ''2026-06-05T10:15:13Z [TRACE] rpc call service=payments method=charge'' @ [10]
     @ str ''2026-06-05T10:15:14Z [DEBUG] metrics scraped total_requests=15420'' @ [10]
     @ str ''2026-06-05T10:15:15Z [INFO ] health check passed, all services healthy'' @ [10]"

definition largeInput :: bytes where
  "largeInput = concat (replicate 6 (concat (map (\<lambda>r. line r @ [10]) log_records) @ noise_lines))"

definition concurrent_rules :: "Rule list" where
  "concurrent_rules = [DefaultCPFRule, DefaultCNPJRule, DefaultEmailRule, DefaultCreditCardRule, DefaultIPRule,
     \<lparr>Disable = False, rule_Name = ''vehicle_vin'', Description = ''Vehicle Identification Number'',
      rule_Matcher = as_Matcher VINMatcher, Exceptions = [], Settings = DefaultRuleSetting\<rparr>]"

definition token_mode_options :: "ClientOption RunnerOptions" where
  "token_mode_options = zero_options\<lparr>ro_Concurrency := (ro_Concurrency zero_options)
     \<lparr>conc_Enabled := True, ConcurrentTokenProcessing := True, TokenPoolSize := 8\<rparr>\<rparr>"

definition rule_mode_options :: "ClientOption RunnerOptions" where
  "rule_mode_options = zero_options\<lparr>ro_Concurrency := (ro_Concurrency zero_options)
     \<lparr>conc_Enabled := True, ConcurrentRuleProcessing := True, RuleRunnerPoolSize := 8\<rparr>\<rparr>"

text \<open>One of the three blocks of the program: the panic when no analyzer is built, or the output,
  the details and the state after the deferred \<open>Stop\<close>.  The deferred calls run when \<open>main\<close>
  returns; the three analyzers share no state.\<close>

definition run_mode :: "string \<Rightarrow> ClientOption RunnerOptions \<Rightarrow> 'v environment \<Rightarrow> string \<Rightarrow> string \<Rightarrow> 'v an_state \<Rightarrow> string + (bytes \<times> AnonymizationDetails result \<times> 'v an_state)" where
  "run_mode label opts env logger uuid s =
     (case fst (MakeByteAnalyzer env opts) of
        Inl err \<Rightarrow> Inl (''failed to create '' @ label @ '' analyzer: '' @ err)
      | Inr ba \<Rightarrow>
          (let (out, details, s') = Anonymize_to buffer_write ba logger uuid background concurrent_rules [] largeInput s
           in Inr (fst out, details, snd (Stop ba s'))))"

definition serial_mode :: "string \<times> ClientOption RunnerOptions" where
  "serial_mode = (''serial'', zero_options)"

definition token_mode :: "string \<times> ClientOption RunnerOptions" where
  "token_mode = (''token-concurrent'', token_mode_options)"

definition rule_mode :: "string \<times> ClientOption RunnerOptions" where
  "rule_mode = (''rule-concurrent'', rule_mode_options)"

definition concurrent_modes :: "(string \<times> ClientOption RunnerOptions) list" where
  "concurrent_modes = [serial_mode, token_mode, rule_mode]"

definition printResult :: "bytes \<Rightarrow> bytes \<Rightarrow> AnonymizationDetails \<Rightarrow> bytes \<Rightarrow> bytes" where
  "printResult label output details elapsed =
     (let bar = str (concat (replicate 53 box_line)) in
      Println bar
      @ Println label
      @ Println (str ''  Elapsed:        '' @ elapsed)
      @ Println (str ''  Has findings:   '' @ format_bool (HasFindings details))
      @ Println (str ''  Detected:       '' @ format_slice (DetectedEntities details))
      @ Println (str ''  Anonymized:     '' @ format_slice (AnonymizedEntities details))
      @ Println (str ''  Output length:  '' @ format_nat (length output) @ str '' bytes'')
      @ Println bar)"

definition mode_titles :: "bytes list" where
  "mode_titles = [str ''Serial (baseline)'', str ''Concurrent Token Processing (pool=8)'',
     str ''Concurrent Rule Processing (pool=8)'']"

text \<open>What ends the program early: the panic of a mode that builds no analyzer, or one inside
  \<open>Anonymize\<close>.\<close>

datatype main_panic = BuildPanic string | RunPanic go_panic

text \<open>What differs from run to run: the work id, the measured time and the state the analyzer
  starts in.\<close>

record 'v mode_run =
  mr_uuid :: string
  mr_elapsed :: bytes
  mr_state :: "'v an_state"

fun run_modes :: "'v environment \<Rightarrow> string \<Rightarrow> (bytes \<times> (string \<times> ClientOption RunnerOptions) \<times> 'v mode_run) list \<Rightarrow> bytes \<times> main_panic option" where
  "run_modes env logger [] = ([], None)"
| "run_modes env logger ((title, (label, opts), r) # ms) =
     (case run_mode label opts env logger (mr_uuid r) (mr_state r) of
        Inl err \<Rightarrow> ([], Some (BuildPanic err))
      | Inr (output, Inl p, s') \<Rightarrow> ([], Some (RunPanic p))
      | Inr (output, Inr details, s') \<Rightarrow>
          (let (rest, p) = run_modes env logger ms
           in (printResult title output details (mr_elapsed r) @ Println [] @ rest, p)))"

definition concurrent_closing :: bytes where
  "concurrent_closing =
     Println (str ''All three modes completed successfully.'')
     @ Println (str ''Note: For small inputs the goroutine overhead may make concurrent'')
     @ Println (str ''modes slower than serial. The benefit increases with input size'')
     @ Println (str (''and rule count '' @ em_dash @ '' try with larger payloads to see the speedup.''))"

definition concurrent_main :: "'v environment \<Rightarrow> string \<Rightarrow> 'v mode_run list \<Rightarrow> bytes \<times> main_panic option" where
  "concurrent_main env logger runs =
     (let (out, p) = run_modes env logger (zip mode_titles (zip concurrent_modes runs))
      in (str ''Input size: '' @ format_nat (length largeInput) @ Println (str '' bytes'') @ Println []
          @ out @ (if p = None then concurrent_closing else []), p))"

lemmas mode_defs = concurrent_modes_def serial_mode_def token_mode_def rule_mode_def token_mode_options_def
  rule_mode_options_def zero_options_def

section \<open>Running an example\<close>

lemma example_state_inv:
  "distinct (map rule_entity rules) \<Longrightarrow> serial_inv (\<lambda>w d e. None) (rule_verdict c rules) False c rules example_state"
  unfolding example_state_def by (rule noop_inv)

lemma example_run:
  fixes logger uuid :: string
  assumes "distinct (map rule_entity rules)" "rules \<noteq> []" "data \<noteq> []" "\<forall>r\<in>set rules. settings_ok (Settings r)"
  defines "f \<equiv> first_match (WithWorkID (WithLogger background logger) uuid) rules"
  shows "\<exists>details. fst (StringAnalyzer_Anonymize example_analyzer logger uuid background rules data example_state)
       = Inr (chunk_bytes (exchange (exchange_chunks (exchanged f)) (chunks data)), details)
     \<and> (HasFindings details \<longleftrightarrow> (\<exists>t\<in>set (tokens data). f (Content t) \<noteq> None))
     \<and> set (DetectedEntities details) = {rule_entity r | t r. t \<in> set (tokens data) \<and> f (Content t) = Some r}"
proof -
  let ?ba = "\<lparr>ruleRunner = Some \<lparr>runner_Process = serial_step \<lparr>sr_cache = Some NoopRuleMatchingCache, sr_coalescing = False\<rparr>,
      runner_Stop = (\<lambda>sf. sf)\<rparr>, pool = None\<rparr>"
  have ba: "byteAnalyzer example_analyzer = ?ba"
    by (simp add: example_analyzer_def NewStringAnalyzer_def NewByteAnalyzer_def serial_runner_def NewSerialRulesRuner_def
        coalescing_def zero_options_def)
  have "\<exists>ws details s'. Anonymize ?ba logger uuid background rules data example_state = (ws, Inr details, s')
     \<and> concat ws = anonymized_text data 0 (decide_all f (tokens data))
     \<and> (HasFindings details \<longleftrightarrow> (\<exists>t\<in>set (tokens data). f (Content t) \<noteq> None))
     \<and> set (DetectedEntities details) = {rule_entity r | t r. t \<in> set (tokens data) \<and> f (Content t) = Some r}"
    unfolding f_def
    by (rule serial_noop.analyzer_decides [OF example_state_inv [OF assms(1)] assms(2,3)])
      (use assms(4) in \<open>auto dest: first_match_SomeD\<close>)
  then obtain ws details s' where "Anonymize ?ba logger uuid background rules data example_state = (ws, Inr details, s')"
    "concat ws = anonymized_text data 0 (decide_all f (tokens data))"
    "HasFindings details \<longleftrightarrow> (\<exists>t\<in>set (tokens data). f (Content t) \<noteq> None)"
    "set (DetectedEntities details) = {rule_entity r | t r. t \<in> set (tokens data) \<and> f (Content t) = Some r}"
    by blast
  then show ?thesis
    by (intro exI [of _ details] conjI)
      (simp_all add: StringAnalyzer_Anonymize_def Anonymize_to_def ba buffer_collects anonymized_in_one_pass)
qed

section \<open>What the custom rules detect\<close>

definition api_key_token :: "bytes \<Rightarrow> bool" where
  "api_key_token b \<longleftrightarrow> HasPrefix b (str ''sk-'') \<and> 24 \<le> length b \<and> \<not> HasPrefix b (str ''sk-test-'')"

definition order_token :: "bytes \<Rightarrow> bool" where
  "order_token b \<longleftrightarrow> (HasPrefix b (str ''ORD-'') \<or> HasPrefix b (str ''PO-'')) \<and> 12 \<le> length b"

definition secret_token :: "bytes \<Rightarrow> bool" where
  "secret_token b \<longleftrightarrow> list_all isHexDigit b \<and> 32 \<le> length b"

lemma len_contract [contracts]: "pattern_contract (len_pattern n k) (\<lambda>b. k \<le> length b)"
  by unfold_locales (simp_all add: len_pattern_def NewBasePattern_def)

lemma prefix_contract [contracts]: "pattern_contract (prefix_pattern n p) (\<lambda>b. HasPrefix b p)"
  by unfold_locales (simp_all add: prefix_pattern_def NewBasePattern_def)

lemma hex_contract [contracts]: "pattern_contract hexCharPattern (list_all isHexDigit)"
proof -
  have "(\<lambda>x. (x \<ge> ch (CHR ''0'') \<and> x \<le> ch (CHR ''9'')) \<or> (x \<ge> ch (CHR ''a'') \<and> x \<le> ch (CHR ''f''))
     \<or> (x \<ge> ch (CHR ''A'') \<and> x \<le> ch (CHR ''F''))) = isHexDigit"
    by (simp add: fun_eq_iff isHexDigit_def)
  then show ?thesis by unfold_locales (simp_all add: hexCharPattern_def NewBasePattern_def)
qed

lemma uuid_contract [contracts]: "pattern_contract (NewBasePattern n (\<lambda>c b. (MatchUUID b, []))) MatchUUID"
  by unfold_locales (simp_all add: NewBasePattern_def)

interpretation api_c: pattern_contract "pattern apiKeyMatcher" "\<lambda>b. HasPrefix b (str ''sk-'') \<and> 24 \<le> length b"
  unfolding apiKeyMatcher_def NewPatternMatcher_def PatternMatcher.simps by (rule contracts)+

interpretation order_c: pattern_contract "pattern orderIDMatcher" order_token
  unfolding orderIDMatcher_def NewPatternMatcher_def PatternMatcher.simps order_token_def by (rule contracts)+

text \<open>A UUID has dashes, so no UUID is a string of hexadecimal digits.\<close>

lemma hex_not_uuid: "list_all isHexDigit b \<Longrightarrow> \<not> MatchUUID b"
  using MatchUUID_nth [of b 8] MatchUUID_length [of b] isHexDigit_not_dash [of "b ! 8"]
  by (auto simp: list_all_length)

interpretation secret_c: pattern_contract "pattern secretMatcher" secret_token
  unfolding secretMatcher_def NewPatternMatcher_def PatternMatcher.simps
  by (rule contract_cong, (rule contracts)+) (use hex_not_uuid in \<open>auto simp: secret_token_def\<close>)

lemma custom_applies:
  "applies c b apiKeyRule \<longleftrightarrow> api_key_token b"
  "applies c b orderIDRule \<longleftrightarrow> order_token b"
  "applies c b secretRule \<longleftrightarrow> secret_token b"
proof -
  have test: "Matcher_Match (exc_Matcher testKeyException) c b = HasPrefix b (str ''sk-test-'')"
    using pattern_contract.Match_lang [OF prefix_contract]
    by (simp add: testKeyException_def as_Matcher_def matcher_Match_def NewPatternMatcher_def)
  show "applies c b apiKeyRule \<longleftrightarrow> api_key_token b"
    by (auto simp: applies_def apiKeyRule_def as_Matcher_def matcher_Match_def api_c.Match_lang test api_key_token_def)
  show "applies c b orderIDRule \<longleftrightarrow> order_token b" "applies c b secretRule \<longleftrightarrow> secret_token b"
    by (simp_all add: applies_def orderIDRule_def secretRule_def as_Matcher_def matcher_Match_def
        order_c.Match_lang secret_c.Match_lang)
qed

definition custom_exchange :: "bytes \<Rightarrow> bytes" where
  "custom_exchange b =
     (if api_key_token b then str ''[REDACTED_API_KEY]''
      else if order_token b then str ''****'' @ drop 4 b
      else if secret_token b then str ''[SECRET]'' else b)"

lemma custom_exchanged: "exchanged (first_match c custom_rules) b = custom_exchange b"
proof -
  have masked: "replacement (Settings orderIDRule) b = str ''****'' @ drop 4 b" if "order_token b"
  proof -
    have "mask_count \<lparr>MaskingChar = str ''*'', MaxSize = 4\<rparr> (length b) = 4"
      using that by (simp add: mask_count_def order_token_def)
    then show ?thesis
      by (simp add: replacement_def orderIDRule_def MASK_def REDACT_def numeral_eq_Suc)
  qed
  have "replacement (Settings apiKeyRule) b = str ''[REDACTED_API_KEY]''" "replacement (Settings secretRule) b = str ''[SECRET]''"
    by (simp_all add: replacement_def apiKeyRule_def secretRule_def)
  with masked show ?thesis
    by (simp add: exchanged_def custom_exchange_def first_match_def custom_rules_def custom_applies del: str_Cons)
qed

lemma custom_rules_ok:
  "distinct (map rule_entity custom_rules)" "custom_rules \<noteq> []" "\<forall>r\<in>set custom_rules. settings_ok (Settings r)"
  by (simp_all add: custom_rules_def settings_ok_def apiKeyRule_def orderIDRule_def secretRule_def REDACT_def MASK_def
      as_Matcher_def NewPatternMatcher_def apiKeyMatcher_def orderIDMatcher_def secretMatcher_def)

section \<open>What the basic example detects\<close>

definition basic_exchange :: "bytes \<Rightarrow> bytes" where
  "basic_exchange b =
     (if cpf_valid (digits_of b) \<or> email_check b \<or> (card_shape b \<and> b \<notin> set testCreditCardNumbers)
      then DefaultRedactString else b)"

lemma basic_applies:
  "applies c b DefaultCPFRule \<longleftrightarrow> cpf_valid (digits_of b)"
  "applies c b DefaultEmailRule \<longleftrightarrow> email_check b"
  "applies c b DefaultCreditCardRule \<longleftrightarrow> card_shape b \<and> b \<notin> set testCreditCardNumbers"
  by (auto simp: default_applies card_shape_iff email_shape_check [symmetric] email_shape_def MatchEmailV2_iff
      MatchCPF_digits MatchTestCreditCard_def list_ex_iff)

lemma basic_exchanged: "exchanged (first_match c basic_rules) b = basic_exchange b"
proof -
  have "replacement (Settings r) b = DefaultRedactString" if "r \<in> set basic_rules" for r
    using that by (auto simp: basic_rules_def default_rule_defs DefaultRuleSetting_def replacement_def)
  then show ?thesis
    by (auto simp: exchanged_def basic_exchange_def first_match_def basic_rules_def basic_applies)
qed

text \<open>A changed text means that there were findings.\<close>

lemma changed_findings:
  assumes "chunk_bytes (exchange (exchange_chunks (exchanged f)) (chunks data)) \<noteq> data"
  shows "\<exists>t\<in>set (tokens data). f (Content t) \<noteq> None"
  using assms nothing_to_replace [of data f] unfolding anonymized_in_one_pass by blast

text \<open>The texts of the tokens, for evaluation.\<close>

definition token_texts :: "bytes \<Rightarrow> bytes list" where
  "token_texts data = map chunk_bytes (ref_tokens (chunks data))"

lemma token_texts_tokens: "token_texts data = map Content (tokens data)"
  by (simp add: token_texts_def tokens_contents)

definition ref_tokens_from :: "(rune \<times> bytes) list \<Rightarrow> (rune \<times> bytes) list list" where
  "ref_tokens_from cs = (case cs of [] \<Rightarrow> [] | rc # cs' \<Rightarrow> (rc # takeWhile in_token cs') # ref_tokens (dropWhile in_token cs'))"

lemma ref_tokens_code [code]:
  "ref_tokens cs = ref_tokens_from (skip_chunks False cs)"
  "ref_tokens_from [] = []"
  "ref_tokens_from (rc # cs') = (rc # takeWhile in_token cs') # ref_tokens (dropWhile in_token cs')"
  by (simp_all add: ref_tokens_from_def ref_tokens.simps [of cs])

text \<open>The entities a run reports, from what decides them for each text.\<close>

lemma reported_entities:
  assumes "\<And>b. map_option rule_entity (f b) = ent b"
  shows "{rule_entity r | t r. t \<in> set (tokens data) \<and> f (Content t) = Some r} = set (List.map_filter ent (token_texts data))"
proof -
  have "(\<exists>r. f b = Some r \<and> e = rule_entity r) \<longleftrightarrow> ent b = Some e" for b e
    using assms [of b] by (cases "f b") auto
  then show ?thesis unfolding token_texts_tokens map_filter_def by (auto simp: image_iff) (metis option.sel)+
qed

lemma example_reports:
  fixes logger uuid :: string
  assumes "distinct (map rule_entity rules)" "rules \<noteq> []" "data \<noteq> []" "\<forall>r\<in>set rules. settings_ok (Settings r)"
    and ent: "\<And>b. map_option rule_entity (first_match (WithWorkID (WithLogger background logger) uuid) rules b) = ent b"
  shows "\<exists>es es'. distinct es \<and> distinct es' \<and> set es = set (List.map_filter ent (token_texts data)) \<and> set es' = set es
     \<and> fst (StringAnalyzer_Anonymize example_analyzer logger uuid background rules data example_state)
       = Inr (chunk_bytes (exchange (exchange_chunks (exchanged (first_match (WithWorkID (WithLogger background logger) uuid) rules))) (chunks data)),
           \<lparr>HasFindings = List.map_filter ent (token_texts data) \<noteq> [], DetectedEntities = es, AnonymizedEntities = es'\<rparr>)"
proof -
  let ?f = "first_match (WithWorkID (WithLogger background logger) uuid) rules"
  obtain details where run: "fst (StringAnalyzer_Anonymize example_analyzer logger uuid background rules data example_state)
       = Inr (chunk_bytes (exchange (exchange_chunks (exchanged ?f)) (chunks data)), details)"
    and es: "set (DetectedEntities details) = {rule_entity r | t r. t \<in> set (tokens data) \<and> ?f (Content t) = Some r}"
    using example_run [OF assms(1-4), of logger uuid] by blast
  have set: "set (DetectedEntities details) = set (List.map_filter ent (token_texts data))"
    unfolding es by (rule reported_entities [OF ent])
  note ok = string_details_ok [OF run]
  have "HasFindings details \<longleftrightarrow> List.map_filter ent (token_texts data) \<noteq> []"
    using ok set by (metis set_empty)
  then have "details = \<lparr>HasFindings = List.map_filter ent (token_texts data) \<noteq> [],
      DetectedEntities = DetectedEntities details, AnonymizedEntities = AnonymizedEntities details\<rparr>" by simp
  with run ok set show ?thesis
    by (intro exI [of _ "DetectedEntities details"] exI [of _ "AnonymizedEntities details"]) simp
qed

definition basic_entity :: "bytes \<Rightarrow> Entity option" where
  "basic_entity b =
     (if cpf_valid (digits_of b) then Some EntityCPF
      else if email_check b then Some EntityEmail
      else if card_shape b \<and> b \<notin> set testCreditCardNumbers then Some EntityCreditCard else None)"

definition custom_entity :: "bytes \<Rightarrow> Entity option" where
  "custom_entity b =
     (if api_key_token b then Some ''API_KEY''
      else if order_token b then Some ''ORDER_ID''
      else if secret_token b then Some ''INTERNAL_SECRET'' else None)"

lemma basic_decides: "map_option rule_entity (first_match c basic_rules b) = basic_entity b"
proof -
  have "rule_entity DefaultCPFRule = EntityCPF" "rule_entity DefaultEmailRule = EntityEmail"
    "rule_entity DefaultCreditCardRule = EntityCreditCard"
    by (simp_all add: default_rule_defs as_Matcher_def matcher_defs)
  then show ?thesis by (simp add: basic_entity_def first_match_def basic_rules_def basic_applies)
qed

lemma custom_decides: "map_option rule_entity (first_match c custom_rules b) = custom_entity b"
  by (simp add: custom_entity_def first_match_def custom_rules_def custom_applies)
    (simp add: apiKeyRule_def orderIDRule_def secretRule_def as_Matcher_def apiKeyMatcher_def orderIDMatcher_def
      secretMatcher_def NewPatternMatcher_def)

lemma basic_entities: "List.map_filter basic_entity (token_texts basic_input) = [EntityCPF, EntityEmail, EntityCreditCard]"
  by code_simp

lemma custom_entities:
  "List.map_filter custom_entity (token_texts custom_input) = [''API_KEY'', ''ORDER_ID'', ''ORDER_ID'', ''INTERNAL_SECRET'']"
  by code_simp

text \<open>Every replacement differs from the token it replaces.\<close>

lemma custom_changes: "custom_exchange b \<noteq> b \<longleftrightarrow> (\<exists>e. custom_entity b = Some e)"
proof -
  have "b \<noteq> str ''****'' @ drop 4 b" if "order_token b"
  proof
    assume "b = str ''****'' @ drop 4 b"
    from arg_cong [OF this, of hd] have "hd b = 42" by simp
    with that show False by (cases b) (auto simp: order_token_def HasPrefix_def)
  qed
  moreover have "api_key_token b \<Longrightarrow> b \<noteq> str ''[REDACTED_API_KEY]''" "secret_token b \<Longrightarrow> b \<noteq> str ''[SECRET]''"
    by (auto simp: api_key_token_def secret_token_def HasPrefix_def)
  ultimately show ?thesis by (auto simp: custom_exchange_def custom_entity_def simp del: str_Cons)
qed

definition custom_chunks :: "(rune \<times> bytes) list \<Rightarrow> (rune \<times> bytes) list" where
  "custom_chunks = exchange_chunks custom_exchange"

definition basic_chunks :: "(rune \<times> bytes) list \<Rightarrow> (rune \<times> bytes) list" where
  "basic_chunks = exchange_chunks basic_exchange"

lemma chunks_of_examples [code]:
  "custom_chunks tok = chunks (custom_exchange (chunk_bytes tok))"
  "basic_chunks tok = chunks (basic_exchange (chunk_bytes tok))"
  by (simp_all add: custom_chunks_def basic_chunks_def exchange_chunks_def)

definition custom_output :: bytes where
  "custom_output = str ''Deployment report:'' @ [10]
     @ str ''  API Key: [REDACTED_API_KEY]'' @ [10]
     @ str ''  Test Key: sk-test-0000deadbeefcafe0000'' @ [10]
     @ str ''  Order: ****20250605123'' @ [10]
     @ str ''  Purchase: ****87654321098'' @ [10]
     @ str ''  Secret: [SECRET]'' @ [10]
     @ str ''  Request ID: 550e8400-e29b-41d4-a716-446655440000'' @ [10]"

definition basic_output :: bytes where
  "basic_output = str ''User report:'' @ [10]
     @ str ''  Name: Maria Silva'' @ [10]
     @ str ''  CPF: <REDACTED>'' @ [10]
     @ str ''  Email: <REDACTED>'' @ [10]
     @ str ''  Card: <REDACTED>'' @ [10]"

lemma custom_text: "chunk_bytes (exchange custom_chunks (chunks custom_input)) = custom_output"
  by code_simp

lemma basic_text: "chunk_bytes (exchange basic_chunks (chunks basic_input)) = basic_output"
  by code_simp

lemma outputs_differ: "custom_output \<noteq> custom_input" "basic_output \<noteq> basic_input" "custom_input \<noteq> []" "basic_input \<noteq> []"
  by code_simp+

section \<open>The three modes\<close>

definition concurrent_exchange :: "bytes \<Rightarrow> bytes" where
  "concurrent_exchange b = (if pii b \<or> MatchVIN b then DefaultRedactString else b)"

text \<open>A state without pending flights whose runner is not stopped.\<close>

definition fresh :: "'v an_state \<Rightarrow> bool" where
  "fresh s \<longleftrightarrow> fst (snd s) = [] \<and> \<not> snd (snd s)"

lemma vin_applies:
  "applies c d \<lparr>Disable = False, rule_Name = n, Description = e, rule_Matcher = as_Matcher VINMatcher,
     Exceptions = [], Settings = stg\<rparr> \<longleftrightarrow> MatchVIN d"
  by (simp add: applies_def as_Matcher_def matcher_Match_def vin_c.Match_lang)

lemma concurrent_detects: "first_match c concurrent_rules b \<noteq> None \<longleftrightarrow> pii b \<or> MatchVIN b"
  unfolding pii_default [of c b, symmetric] first_match_Some_iff
  by (auto simp: concurrent_rules_def default_rules_def vin_applies)

lemma concurrent_uniform: "\<forall>r\<in>set concurrent_rules. Settings r = DefaultRuleSetting"
  by (simp add: concurrent_rules_def default_rule_defs)

lemma concurrent_settings_ok: "\<forall>r\<in>set concurrent_rules. settings_ok (Settings r)"
  using concurrent_uniform by (simp add: settings_ok_def DefaultRuleSetting_def REDACT_def MASK_def)

lemma concurrent_exchanged: "exchanged (first_match c concurrent_rules) b = concurrent_exchange b"
proof (cases "first_match c concurrent_rules b")
  case None
  then show ?thesis using concurrent_detects [of c b] by (simp add: exchanged_def concurrent_exchange_def)
next
  case (Some r)
  then have "Settings r = DefaultRuleSetting" using concurrent_uniform first_match_SomeD by blast
  then have "replacement (Settings r) b = DefaultRedactString"
    by (simp add: replacement_def DefaultRuleSetting_def)
  then show ?thesis using Some concurrent_detects [of c b] by (simp add: exchanged_def concurrent_exchange_def)
qed

lemma concurrent_verdicts: "verdicts_agree (rule_verdict background concurrent_rules) c concurrent_rules"
proof -
  have "distinct (map rule_entity concurrent_rules)"
    by (simp add: concurrent_rules_def default_rule_defs as_Matcher_def matcher_defs entity_defs)
  then have "verdicts_agree (rule_verdict background concurrent_rules) background concurrent_rules"
    by (rule distinct_entities_agree)
  moreover have "\<forall>r\<in>set concurrent_rules. \<forall>d. rule_match r c d = rule_match r background d"
    by (simp add: concurrent_rules_def default_rule_defs as_Matcher_def matcher_Match_def prebuilt_langs vin_c.Match_lang)
  ultimately show ?thesis by (simp add: verdicts_agree_def)
qed

lemma no_cache_negatives:
  assumes "clients_lawful env hash" "\<not> co_Enabled options"
  shows "cache_store.negatives_only (store_content hash options) verdict w"
proof -
  have "buildCacheStore env options = Inr NoopRuleMatchingCache" using assms(2) by (simp add: buildCacheStore_def)
  from cache_store.negatives_only_def [OF built_store [OF assms(1) this]] assms(2) show ?thesis
    by (simp add: store_content_def)
qed

lemma fresh_ready:
  assumes "fresh s" "clients_lawful env hash" "\<not> co_Enabled (ro_Cache options)" "verdicts_agree verdict c rules"
  shows "ready hash options verdict c rules s"
  using assms(1,4) no_cache_negatives [OF assms(2,3)]
  by (simp add: ready_def ready_serial_def ready_conc_def serial_inv_def conc_inv_def get_serial_def get_conc_def fresh_def)

lemma largeInput_not_empty: "largeInput \<noteq> []"
  by (simp add: largeInput_def noise_lines_def numeral_eq_Suc)

lemma mode_facts:
  assumes "(label, opts) \<in> set concurrent_modes"
  shows "\<not> co_Enabled (ro_Cache opts)" "coalescing opts = False"
  using assms
  by (auto simp: mode_defs coalescing_def)

lemma mode_built:
  assumes "(label, opts) \<in> set concurrent_modes" "antsNewPool env 8 [WithPanicHandler] = None"
  shows "\<exists>ba pools. MakeByteAnalyzer env opts = (Inr ba, pools)"
  using assms
  by (auto simp: mode_defs MakeByteAnalyzer_def
      buildCacheStore_def rule_pool_of_def token_pool_of_def createRunnerPool_def createTokenPool_def NewAntsWorkerPool_def
      poolOptions_def)

definition report_ok :: "AnonymizationDetails \<Rightarrow> bool" where
  "report_ok d \<longleftrightarrow> (HasFindings d \<longleftrightarrow> (\<exists>t\<in>set (tokens largeInput). pii (Content t) \<or> MatchVIN (Content t)))
     \<and> (HasFindings d \<longleftrightarrow> DetectedEntities d \<noteq> []) \<and> distinct (DetectedEntities d) \<and> distinct (AnonymizedEntities d)
     \<and> set (AnonymizedEntities d) = set (DetectedEntities d)"

lemma mode_runs:
  assumes "lawful env hash zero_options (rule_verdict background concurrent_rules) largeInput"
    and "antsNewPool env 8 [WithPanicHandler] = None"
    and "fresh s" "(label, opts) \<in> set concurrent_modes"
  shows "\<exists>details s'. run_mode label opts env logger uuid s
       = Inr (chunk_bytes (exchange (exchange_chunks concurrent_exchange) (chunks largeInput)), Inr details, s')
     \<and> report_ok details"
proof -
  let ?c = "WithWorkID (WithLogger background logger) uuid" and ?v = "rule_verdict background concurrent_rules"
  obtain ba pools where ba: "MakeByteAnalyzer env opts = (Inr ba, pools)" using mode_built [OF assms(4,2)] by blast
  have "coalescing zero_options = False" by (simp add: coalescing_def zero_options_def)
  then have law: "lawful env hash opts ?v largeInput" using assms(1) mode_facts(2) [OF assms(4)] by (simp add: lawful_def)
  then have "clients_lawful env hash" by (simp add: lawful_def)
  then have ready: "ready hash opts ?v ?c concurrent_rules s"
    by (rule fresh_ready [OF assms(3) _ mode_facts(1) [OF assms(4)] concurrent_verdicts])
  have ne: "concurrent_rules \<noteq> []" by (simp add: concurrent_rules_def)
  have ex: "exchange_chunks (exchanged (first_match ?c concurrent_rules)) = exchange_chunks concurrent_exchange"
    by (simp add: fun_eq_iff exchange_chunks_def concurrent_exchanged)
  obtain ws details s' where
    "Anonymize ba logger uuid background concurrent_rules largeInput s = (ws, Inr details, s')"
    "concat ws = chunk_bytes (exchange (exchange_chunks concurrent_exchange) (chunks largeInput))"
    "HasFindings details \<longleftrightarrow> (\<exists>t\<in>set (tokens largeInput). pii (Content t) \<or> MatchVIN (Content t))"
    using uniform_configuration [OF ba law ready ne largeInput_not_empty concurrent_settings_ok concurrent_uniform]
    unfolding concurrent_detects anonymized_in_one_pass ex by blast
  with details_ok [OF this(1)] show ?thesis
    by (intro exI [of _ details] exI [of _ "snd (Stop ba s')"])
      (simp add: run_mode_def ba Anonymize_to_def buffer_collects report_ok_def)
qed

section \<open>Properties\<close>



text \<open>The basic and the custom rules example run to their end and print exactly these texts; the
  order of the entities in the two lists is the one in which Go ranges over a map.\<close>

lemma examples_print:
  "(\<exists>es es'. distinct es \<and> distinct es' \<and> set es = {EntityCPF, EntityEmail, EntityCreditCard} \<and> set es' = set es
      \<and> basic_main logger uuid = Inr (basic_print (basic_output,
          \<lparr>HasFindings = True, DetectedEntities = es, AnonymizedEntities = es'\<rparr>)))
   \<and> (\<exists>es es'. distinct es \<and> distinct es' \<and> set es = {''API_KEY'', ''ORDER_ID'', ''INTERNAL_SECRET''} \<and> set es' = set es
      \<and> custom_main logger uuid = Inr (custom_print (custom_output,
          \<lparr>HasFindings = True, DetectedEntities = es, AnonymizedEntities = es'\<rparr>)))"
proof -
  let ?c = "WithWorkID (WithLogger background logger) uuid"
  have basic: "distinct (map rule_entity basic_rules)" "basic_rules \<noteq> []" "\<forall>r\<in>set basic_rules. settings_ok (Settings r)"
    by (simp_all add: basic_rules_def settings_ok_def default_rule_defs DefaultRuleSetting_def REDACT_def MASK_def
        as_Matcher_def matcher_defs entity_defs)
  have chunks: "exchange_chunks (exchanged (first_match ?c basic_rules)) = basic_chunks"
    "exchange_chunks (exchanged (first_match ?c custom_rules)) = custom_chunks"
    by (simp_all add: fun_eq_iff exchange_chunks_def chunks_of_examples basic_exchanged custom_exchanged)
  have "\<exists>es es'. distinct es \<and> distinct es' \<and> set es = {EntityCPF, EntityEmail, EntityCreditCard} \<and> set es' = set es
      \<and> basic_main logger uuid = Inr (basic_print (basic_output,
          \<lparr>HasFindings = True, DetectedEntities = es, AnonymizedEntities = es'\<rparr>))"
    using example_reports [where logger = logger and uuid = uuid, OF basic(1,2) outputs_differ(4) basic(3) basic_decides]
    unfolding basic_main_def chunks basic_text basic_entities
    by (elim exE conjE) (rule exI, rule exI, intro conjI, assumption+, simp_all)
  moreover have "\<exists>es es'. distinct es \<and> distinct es' \<and> set es = {''API_KEY'', ''ORDER_ID'', ''INTERNAL_SECRET''} \<and> set es' = set es
      \<and> custom_main logger uuid = Inr (custom_print (custom_output,
          \<lparr>HasFindings = True, DetectedEntities = es, AnonymizedEntities = es'\<rparr>))"
    using example_reports [where logger = logger and uuid = uuid, OF custom_rules_ok(1,2) outputs_differ(3) custom_rules_ok(3) custom_decides]
    unfolding custom_main_def chunks custom_text custom_entities
    by (elim exE conjE) (rule exI, rule exI, intro conjI, assumption+, simp_all)
  ultimately show ?thesis by blast
qed

text \<open>C25: The concurrent example runs to its end: its three modes (serial, concurrent tokens,
  concurrent rules) build their analyzers and write the same bytes, the log with every
  token that is personal data or a vehicle number replaced by the placeholder, so that the
  three reports it prints give the same output length, and the closing text follows.  Each
  report says that there are findings exactly when the log holds such a token, and lists
  the same entities as detected and as anonymized, each once.  The client library keeps its
  laws, the pools accept and run every task, pools of size eight can be built, and each
  analyzer starts in a fresh state.\<close>

theorem concurrent_example_modes_agree:
  assumes "lawful env hash zero_options (rule_verdict background concurrent_rules) largeInput"
    and "antsNewPool env 8 [WithPanicHandler] = None"
    and "fresh (mr_state r1)" "fresh (mr_state r2)" "fresh (mr_state r3)"
  defines "out \<equiv> chunk_bytes (exchange (exchange_chunks concurrent_exchange) (chunks largeInput))"
  shows "\<exists>d1 d2 d3. concurrent_main env logger [r1, r2, r3] =
       (str ''Input size: '' @ format_nat (length largeInput) @ Println (str '' bytes'') @ Println []
        @ printResult (mode_titles ! 0) out d1 (mr_elapsed r1) @ Println []
        @ printResult (mode_titles ! 1) out d2 (mr_elapsed r2) @ Println []
        @ printResult (mode_titles ! 2) out d3 (mr_elapsed r3) @ Println []
        @ concurrent_closing, None)
     \<and> report_ok d1 \<and> report_ok d2 \<and> report_ok d3"
proof -
  have mem: "serial_mode \<in> set concurrent_modes" "token_mode \<in> set concurrent_modes" "rule_mode \<in> set concurrent_modes"
    by (simp_all add: concurrent_modes_def)
  note run = mode_runs [OF assms(1,2), folded out_def]
  obtain d1 s1 where r1: "run_mode ''serial'' zero_options env logger (mr_uuid r1) (mr_state r1) = Inr (out, Inr d1, s1)"
    and f1: "report_ok d1"
    using run [OF assms(3) mem(1) [unfolded serial_mode_def], of logger "mr_uuid r1"] by (elim exE conjE) (rule that)
  obtain d2 s2 where r2: "run_mode ''token-concurrent'' token_mode_options env logger (mr_uuid r2) (mr_state r2) = Inr (out, Inr d2, s2)"
    and f2: "report_ok d2"
    using run [OF assms(4) mem(2) [unfolded token_mode_def], of logger "mr_uuid r2"] by (elim exE conjE) (rule that)
  obtain d3 s3 where r3: "run_mode ''rule-concurrent'' rule_mode_options env logger (mr_uuid r3) (mr_state r3) = Inr (out, Inr d3, s3)"
    and f3: "report_ok d3"
    using run [OF assms(5) mem(3) [unfolded rule_mode_def], of logger "mr_uuid r3"] by (elim exE conjE) (rule that)
  have zip: "zip mode_titles (zip concurrent_modes [r1, r2, r3]) =
      [(mode_titles ! 0, (''serial'', zero_options), r1), (mode_titles ! 1, (''token-concurrent'', token_mode_options), r2),
       (mode_titles ! 2, (''rule-concurrent'', rule_mode_options), r3)]"
    by (simp add: mode_titles_def concurrent_modes_def serial_mode_def token_mode_def rule_mode_def del: str_Cons)
  have "concurrent_main env logger [r1, r2, r3] =
       (str ''Input size: '' @ format_nat (length largeInput) @ Println (str '' bytes'') @ Println []
        @ printResult (mode_titles ! 0) out d1 (mr_elapsed r1) @ Println []
        @ printResult (mode_titles ! 1) out d2 (mr_elapsed r2) @ Println []
        @ printResult (mode_titles ! 2) out d3 (mr_elapsed r3) @ Println []
        @ concurrent_closing, None)"
    unfolding concurrent_main_def zip
    by (simp only: run_modes.simps r1 r2 r3 sum.case prod.case Let_def append_assoc append_Nil2 if_True simp_thms)
  with f1 f2 f3 show ?thesis by (intro exI [of _ d1] exI [of _ d2] exI [of _ d3]) simp
qed

theorem concurrent_example_modes_agree_witness:
  "\<exists>text. concurrent_main mem_env ''log''
      (replicate 3 \<lparr>mr_uuid = ''id'', mr_elapsed = str ''1ms'', mr_state = empty_state\<rparr>) = (text, None)"
proof -
  let ?r = "\<lparr>mr_uuid = ''id'', mr_elapsed = str ''1ms'', mr_state = empty_state\<rparr>"
  have law: "lawful mem_env mem_hash zero_options (rule_verdict background concurrent_rules) largeInput"
    by (simp add: lawful_def mem_env_lawful mem_env_orderly mem_undisturbed mem_flights)
  have pool: "antsNewPool mem_env 8 [WithPanicHandler] = None" by (simp add: mem_env_def)
  have fresh: "fresh (mr_state ?r)" by (simp add: fresh_def empty_state_def)
  have "replicate 3 ?r = [?r, ?r, ?r]" by (simp add: numeral_3_eq_3)
  with concurrent_example_modes_agree [OF law pool fresh fresh fresh, of "''log''"] show ?thesis by metis
qed

end
