(* ===== verification/Burst.thy ===== *)
theory Burst
  imports SerialRunner
begin

text \<open>
  Concurrent calls of \<open>SerialRulesRunner.Process\<close> on one store and one coalescer.  The single
  call of \<open>SerialRunner\<close> takes what the coalescer does as an argument; here the group of
  \<open>golang.org/x/sync/singleflight\<close>, with the calls it runs and the callers that wait for
  them, is part of the state, and the steps of the callers and of the goroutines that run
  the shared functions interleave freely.  A step is a stretch of code with at most one
  access to shared state (the store or the group's map).
\<close>

section \<open>State\<close>

text \<open>A call of \<open>Process\<close>; \<open>rq_deadline\<close> says whether its context can become done.\<close>

record request =
  rq_ctx :: ctx
  rq_rules :: "Rule list"
  rq_data :: bytes
  rq_deadline :: bool

datatype caller =
    Fresh
  | Classified "ruleView list" "missingEvaluation list"
  | Awaiting nat "ruleView list" "missingEvaluation list"
  | Resumed "ruleView list" "missingEvaluation list" results "run_error option"
  | Returned "Rule option"

text \<open>A call of the group: the function still runs, has computed its results, has forgotten its
  key by the deferred \<open>Forget\<close>, or \<open>doCall\<close> has sent the results to the channels of its
  callers.\<close>

datatype stage =
    Running
  | Computed results "run_error option"
  | Forgotten results "run_error option"
  | Sent results "run_error option"

record call =
  call_ctx :: ctx
  call_data :: bytes
  call_missing :: "missingEvaluation list"
  call_stage :: stage

record 'w burst =
  shared :: "'w run_state"
  group :: "bytes \<Rightarrow> nat option"
  calls :: "call list"
  callers :: "nat \<Rightarrow> caller"

definition start_burst :: "'w run_state \<Rightarrow> 'w burst" where
  "start_burst st = \<lparr>shared = st, group = (\<lambda>d. None), calls = [], callers = (\<lambda>i. Fresh)\<rparr>"

section \<open>Steps\<close>

text \<open>\<open>DoChan\<close> either registers a new call and starts its goroutine, or adds a channel to the call
  in flight for the key.\<close>

inductive burst_step :: "'w CacheStore \<Rightarrow> bool \<Rightarrow> (nat \<Rightarrow> request) \<Rightarrow> nat \<Rightarrow> 'w burst \<Rightarrow> 'w burst \<Rightarrow> bool"
  for store coal rq n where
  read: "i < n \<Longrightarrow> callers s i = Fresh \<Longrightarrow>
    read_cached store (rq_ctx (rq i)) (rq_data (rq i)) (shared s) = (cached, st') \<Longrightarrow>
    classifyRules (rq_ctx (rq i)) (rq_rules (rq i)) (rq_data (rq i)) cached = (views, missing) \<Longrightarrow>
    burst_step store coal rq n s (s\<lparr>shared := st', callers := (callers s)(i := Classified views missing)\<rparr>)"
| nothing_missing: "i < n \<Longrightarrow> callers s i = Classified views [] \<Longrightarrow>
    burst_step store coal rq n s (s\<lparr>callers := (callers s)(i := Returned (in_order_pass views []))\<rparr>)"
| alone: "i < n \<Longrightarrow> callers s i = Classified views missing \<Longrightarrow> missing \<noteq> [] \<Longrightarrow> \<not> coal \<Longrightarrow>
    leader_computation store (rq_ctx (rq i)) (rq_data (rq i)) missing (shared s) = (Some results, err, st') \<Longrightarrow>
    burst_step store coal rq n s (s\<lparr>shared := st', callers := (callers s)(i := Resumed views missing results err)\<rparr>)"
| lead: "i < n \<Longrightarrow> callers s i = Classified views missing \<Longrightarrow> missing \<noteq> [] \<Longrightarrow> coal \<Longrightarrow>
    group s (tokenFlightKey (rq_data (rq i))) = None \<Longrightarrow>
    burst_step store coal rq n s (s\<lparr>
      group := (group s)(tokenFlightKey (rq_data (rq i)) := Some (length (calls s))),
      calls := calls s @ [\<lparr>call_ctx = rq_ctx (rq i), call_data = rq_data (rq i), call_missing = missing, call_stage = Running\<rparr>],
      callers := (callers s)(i := Awaiting (length (calls s)) views missing)\<rparr>)"
| join: "i < n \<Longrightarrow> callers s i = Classified views missing \<Longrightarrow> missing \<noteq> [] \<Longrightarrow> coal \<Longrightarrow>
    group s (tokenFlightKey (rq_data (rq i))) = Some k \<Longrightarrow>
    burst_step store coal rq n s (s\<lparr>callers := (callers s)(i := Awaiting k views missing)\<rparr>)"
| compute: "k < length (calls s) \<Longrightarrow> call_stage (calls s ! k) = Running \<Longrightarrow>
    leader_computation store (call_ctx (calls s ! k)) (call_data (calls s ! k)) (call_missing (calls s ! k)) (shared s)
      = (Some results, err, st') \<Longrightarrow>
    burst_step store coal rq n s (s\<lparr>shared := st',
      calls := (calls s)[k := (calls s ! k)\<lparr>call_stage := Computed results err\<rparr>]\<rparr>)"
| forget: "k < length (calls s) \<Longrightarrow> call_stage (calls s ! k) = Computed results err \<Longrightarrow>
    burst_step store coal rq n s (s\<lparr>
      group := (group s)(tokenFlightKey (call_data (calls s ! k)) := None),
      calls := (calls s)[k := (calls s ! k)\<lparr>call_stage := Forgotten results err\<rparr>]\<rparr>)"
| deliver: "k < length (calls s) \<Longrightarrow> call_stage (calls s ! k) = Forgotten results err \<Longrightarrow>
    burst_step store coal rq n s (s\<lparr>
      group := (if group s (tokenFlightKey (call_data (calls s ! k))) = Some k
                then (group s)(tokenFlightKey (call_data (calls s ! k)) := None) else group s),
      calls := (calls s)[k := (calls s ! k)\<lparr>call_stage := Sent results err\<rparr>]\<rparr>)"
| receive: "i < n \<Longrightarrow> callers s i = Awaiting k views missing \<Longrightarrow> call_stage (calls s ! k) = Sent results err \<Longrightarrow>
    burst_step store coal rq n s (s\<lparr>callers := (callers s)(i := Resumed views missing results err)\<rparr>)"
| cancel: "i < n \<Longrightarrow> callers s i = Awaiting k views missing \<Longrightarrow> rq_deadline (rq i) \<Longrightarrow>
    burst_step store coal rq n s (s\<lparr>
      shared := log_err ''Cancelled while waiting for token evaluation'' (Some CtxErr) (shared s),
      callers := (callers s)(i := Returned (in_order_pass views []))\<rparr>)"
| finish: "i < n \<Longrightarrow> callers s i = Resumed views missing results err \<Longrightarrow>
    finish_residual store (rq_ctx (rq i)) (rq_data (rq i)) missing results
      (log_err ''Failed to save matching rules in cache'' err (shared s)) = (evaluated, st') \<Longrightarrow>
    burst_step store coal rq n s (s\<lparr>shared := st', callers := (callers s)(i := Returned (in_order_pass views evaluated))\<rparr>)"

abbreviation bursts :: "'w CacheStore \<Rightarrow> bool \<Rightarrow> (nat \<Rightarrow> request) \<Rightarrow> nat \<Rightarrow> 'w burst \<Rightarrow> 'w burst \<Rightarrow> bool" where
  "bursts store coal rq n \<equiv> (burst_step store coal rq n)\<^sup>*\<^sup>*"

section \<open>Invariant\<close>

definition view_ok :: "(Entity \<Rightarrow> bytes \<Rightarrow> bool) \<Rightarrow> request \<Rightarrow> ruleView list \<Rightarrow> missingEvaluation list \<Rightarrow> bool" where
  "view_ok verdict q views missing \<longleftrightarrow>
     (\<exists>cached. (\<forall>e b. map_of cached e = Some b \<longrightarrow> \<not> b \<and> \<not> verdict e (rq_data q))
        \<and> classifyRules (rq_ctx q) (rq_rules q) (rq_data q) cached = (views, missing))"

definition caller_ok :: "(Entity \<Rightarrow> bytes \<Rightarrow> bool) \<Rightarrow> call list \<Rightarrow> request \<Rightarrow> caller \<Rightarrow> bool" where
  "caller_ok verdict cs q p \<longleftrightarrow>
     (case p of
        Fresh \<Rightarrow> True
      | Classified views missing \<Rightarrow> view_ok verdict q views missing
      | Awaiting k views missing \<Rightarrow> view_ok verdict q views missing \<and> k < length cs \<and> call_data (cs ! k) = rq_data q
      | Resumed views missing results err \<Rightarrow> view_ok verdict q views missing \<and> sound_results verdict (rq_data q) results
      | Returned r \<Rightarrow> rq_deadline q \<or> r = first_match (rq_ctx q) (rq_rules q) (rq_data q))"

definition call_ok :: "(Entity \<Rightarrow> bytes \<Rightarrow> bool) \<Rightarrow> call \<Rightarrow> bool" where
  "call_ok verdict c \<longleftrightarrow>
     (case call_stage c of
        Running \<Rightarrow> missing_ok verdict (call_ctx c) (call_data c) (call_missing c)
      | Computed r e \<Rightarrow> sound_results verdict (call_data c) r
      | Forgotten r e \<Rightarrow> sound_results verdict (call_data c) r
      | Sent r e \<Rightarrow> sound_results verdict (call_data c) r)"

text \<open>A call is in flight while its key is registered, and delivered once its results are sent.\<close>

definition in_flight :: "call \<Rightarrow> bool" where
  "in_flight c \<longleftrightarrow> (case call_stage c of Running \<Rightarrow> True | Computed r e \<Rightarrow> True | _ \<Rightarrow> False)"

definition delivered :: "call \<Rightarrow> bool" where
  "delivered c \<longleftrightarrow> (case call_stage c of Sent r e \<Rightarrow> True | _ \<Rightarrow> False)"

lemma in_flight_Running: "call_stage c = Running \<Longrightarrow> in_flight c"
  by (simp add: in_flight_def)

text \<open>The map of the group holds exactly the calls in flight, one for a key.\<close>

definition group_ok :: "'w burst \<Rightarrow> bool" where
  "group_ok s \<longleftrightarrow> (\<forall>d k. group s d = Some k \<longleftrightarrow> k < length (calls s) \<and> call_data (calls s ! k) = d \<and> in_flight (calls s ! k))"

lemma not_in_flight: "\<not> in_flight (c\<lparr>call_stage := Sent r e\<rparr>)" "\<not> in_flight (c\<lparr>call_stage := Forgotten r e\<rparr>)"
  by (simp_all add: in_flight_def)

lemma group_ok_unique:
  "group_ok s \<Longrightarrow> j < length (calls s) \<Longrightarrow> k < length (calls s) \<Longrightarrow>
     call_data (calls s ! j) = call_data (calls s ! k) \<Longrightarrow> in_flight (calls s ! j) \<Longrightarrow> in_flight (calls s ! k) \<Longrightarrow> j = k"
  unfolding group_ok_def by (metis option.inject)

lemma view_missing_ok:
  "view_ok verdict q views missing \<Longrightarrow> verdicts_agree verdict (rq_ctx q) (rq_rules q) \<Longrightarrow>
     missing_ok verdict (rq_ctx q) (rq_data q) missing"
  unfolding view_ok_def classifyRules_def using classify_missing_ok by (metis snd_conv)

lemma view_first_match:
  assumes "view_ok verdict q views missing" "verdicts_agree verdict (rq_ctx q) (rq_rules q)"
    "answers verdict (rq_data q) missing ev"
  shows "in_order_pass views ev = first_match (rq_ctx q) (rq_rules q) (rq_data q)"
proof -
  obtain cached where c: "\<forall>e b. map_of cached e = Some b \<longrightarrow> \<not> b \<and> \<not> verdict e (rq_data q)"
    "classify_loop (rq_ctx q) (rq_data q) cached (rq_rules q) [] = (views, missing)"
    using assms(1) by (auto simp: view_ok_def classifyRules_def)
  have "\<And>e b. map_of cached e = Some b \<Longrightarrow> \<not> b \<and> \<not> verdict e (rq_data q)" using c(1) by blast
  from in_order_pass_first_match [OF assms(2) this, where cached = cached and queued = "[]" and ev = ev] c(2) assms(3)
  show ?thesis by simp
qed

lemma caller_ok_later:
  "caller_ok verdict cs q p \<Longrightarrow> length cs \<le> length cs' \<Longrightarrow>
     (\<And>k. k < length cs \<Longrightarrow> call_data (cs' ! k) = call_data (cs ! k)) \<Longrightarrow> caller_ok verdict cs' q p"
  by (auto simp: caller_ok_def split: caller.splits)

lemma callers_upd:
  "(\<forall>j<n. caller_ok verdict cs (rq j) (ph j)) \<Longrightarrow> caller_ok verdict cs (rq i) p \<Longrightarrow>
     \<forall>j<n. caller_ok verdict cs (rq j) ((ph(i := p)) j)"
  by simp

lemma calls_upd:
  "(\<forall>c\<in>set cs. call_ok verdict c) \<Longrightarrow> call_ok verdict c' \<Longrightarrow> \<forall>c\<in>set (cs[k := c']). call_ok verdict c"
  using set_update_subset_insert [of cs k c'] by blast

text \<open>Moving one call to a later stage leaves the callers' phases in order.\<close>

lemma callers_after_stage:
  "(\<forall>j<n. caller_ok verdict cs (rq j) (ph j)) \<Longrightarrow>
     \<forall>j<n. caller_ok verdict (cs[k := (cs ! k)\<lparr>call_stage := g\<rparr>]) (rq j) (ph j)"
proof (intro allI impI)
  fix j
  assume a: "\<forall>j<n. caller_ok verdict cs (rq j) (ph j)" "j < n"
  have "call_data (cs[k := (cs ! k)\<lparr>call_stage := g\<rparr>] ! i) = call_data (cs ! i)" if "i < length cs" for i
    using that by (cases "k = i") simp_all
  with a show "caller_ok verdict (cs[k := (cs ! k)\<lparr>call_stage := g\<rparr>]) (rq j) (ph j)"
    by (simp add: caller_ok_later [where cs = cs])
qed

lemma callers_after_append:
  "(\<forall>j<n. caller_ok verdict cs (rq j) (ph j)) \<Longrightarrow> \<forall>j<n. caller_ok verdict (cs @ [c]) (rq j) (ph j)"
  by (simp add: caller_ok_later [where cs = cs] nth_append)

lemma leader_result:
  assumes "leader_computation store c d ms st = (Some results, err, st')" "missing_ok verdict c d ms"
  shows "sound_results verdict d results"
  using assms sound_matchMissing [OF assms(2)] by (auto simp: leader_computation_def Let_def split: prod.splits)

context cache_store
begin

definition burst_inv :: "(Entity \<Rightarrow> bytes \<Rightarrow> bool) \<Rightarrow> (nat \<Rightarrow> request) \<Rightarrow> nat \<Rightarrow> 'w burst \<Rightarrow> bool" where
  "burst_inv verdict rq n s \<longleftrightarrow> sound_state verdict (shared s)
     \<and> (\<forall>i<n. caller_ok verdict (calls s) (rq i) (callers s i))
     \<and> (\<forall>c\<in>set (calls s). call_ok verdict c) \<and> group_ok s"

lemma burst_inv_start: "sound_state verdict st \<Longrightarrow> burst_inv verdict rq n (start_burst st)"
  by (simp add: burst_inv_def start_burst_def caller_ok_def group_ok_def)

lemma burst_inv_step:
  assumes "burst_step store coal rq n s s'" "burst_inv verdict rq n s"
    "\<forall>i<n. verdicts_agree verdict (rq_ctx (rq i)) (rq_rules (rq i))"
  shows "burst_inv verdict rq n s'"
  using assms(1)
proof cases
  have st: "sound_state verdict (shared s)" and cl: "\<forall>i<n. caller_ok verdict (calls s) (rq i) (callers s i)"
    and cs: "\<forall>c\<in>set (calls s). call_ok verdict c" and g: "group_ok s"
    using assms(2) by (simp_all add: burst_inv_def)
  note agree = assms(3)
  {
    case (read i cached st' views missing)
    have "\<forall>e b. map_of cached e = Some b \<longrightarrow> \<not> b \<and> \<not> verdict e (rq_data (rq i))"
      using read_cached_facts(2) [OF st, of "rq_ctx (rq i)" "rq_data (rq i)"] read(4)
      unfolding read(4) fst_conv by blast
    then have "view_ok verdict (rq i) views missing" using read(5) unfolding view_ok_def by blast
    moreover have "sound_state verdict st'"
      using read_cached_facts(1) [OF st, of "rq_ctx (rq i)" "rq_data (rq i)"] read by simp
    ultimately show ?thesis using cl cs g by (simp add: read burst_inv_def caller_ok_def group_ok_def)
  next
    case (nothing_missing i views)
    then have "in_order_pass views [] = first_match (rq_ctx (rq i)) (rq_rules (rq i)) (rq_data (rq i))"
      using cl agree view_first_match [of verdict "rq i" views "[]" "[]"] by (auto simp: caller_ok_def answers_def)
    then show ?thesis using st cl cs g by (simp add: nothing_missing burst_inv_def caller_ok_def group_ok_def)
  next
    case (alone i views missing results err st')
    then have v: "view_ok verdict (rq i) views missing" using cl by (auto simp: caller_ok_def)
    then have ok: "missing_ok verdict (rq_ctx (rq i)) (rq_data (rq i)) missing"
      using view_missing_ok agree alone(2) by blast
    have "sound_state verdict st'"
      using leader_keeps [OF st ok] alone by simp
    with v leader_result [OF _ ok] alone cl cs g show ?thesis
      by (simp add: burst_inv_def caller_ok_def group_ok_def)
  next
    case (lead i views missing)
    have v: "view_ok verdict (rq i) views missing" using cl lead by (auto simp: caller_ok_def)
    then have ok: "missing_ok verdict (rq_ctx (rq i)) (rq_data (rq i)) missing"
      using view_missing_ok agree lead(2) by blast
    let ?cs = "calls s @ [\<lparr>call_ctx = rq_ctx (rq i), call_data = rq_data (rq i), call_missing = missing, call_stage = Running\<rparr>]"
    have "\<forall>j<n. caller_ok verdict ?cs (rq j) (callers s j)"
      using cl by (rule callers_after_append)
    moreover have "caller_ok verdict ?cs (rq i) (Awaiting (length (calls s)) views missing)"
      using v by (simp add: caller_ok_def)
    moreover have "\<not> (k < length (calls s) \<and> call_data (calls s ! k) = rq_data (rq i) \<and> in_flight (calls s ! k))" for k
      using g lead(6) unfolding group_ok_def tokenFlightKey_def by (metis option.distinct(1))
    then have "group_ok s'"
      using g unfolding lead(1) group_ok_def tokenFlightKey_def
      by (auto simp: nth_append in_flight_Running less_Suc_eq)
    ultimately show ?thesis
      using st cs ok by (simp add: lead(1) burst_inv_def call_ok_def)
  next
    case (join i views missing k)
    then have "k < length (calls s) \<and> call_data (calls s ! k) = rq_data (rq i)"
      using g by (simp add: group_ok_def tokenFlightKey_def)
    with join st cl cs g show ?thesis by (auto simp: burst_inv_def caller_ok_def group_ok_def)
  next
    case (compute k results err st')
    let ?c = "calls s ! k"
    have ok: "missing_ok verdict (call_ctx ?c) (call_data ?c) (call_missing ?c)"
      using cs compute nth_mem [of k "calls s"] by (fastforce simp: call_ok_def)
    have "call_ok verdict (?c\<lparr>call_stage := Computed results err\<rparr>)"
      using leader_result [OF _ ok] compute by (simp add: call_ok_def)
    moreover have "sound_state verdict st'" using leader_keeps [OF st ok] compute by simp
    moreover have "group_ok s'"
      using g compute by (auto simp: group_ok_def nth_list_update in_flight_def split: if_splits)
    ultimately show ?thesis
      using callers_after_stage [OF cl] calls_upd [OF cs] by (simp add: compute(1) burst_inv_def)
  next
    case (forget k results err)
    let ?c = "calls s ! k"
    have "call_ok verdict (?c\<lparr>call_stage := Forgotten results err\<rparr>)"
      using cs forget nth_mem [of k "calls s"] by (fastforce simp: call_ok_def)
    moreover have "j = k" if "j < length (calls s)" "call_data (calls s ! j) = call_data ?c" "in_flight (calls s ! j)" for j
      using group_ok_unique [OF g that(1) forget(2) that(2,3)] forget(3) by (simp add: in_flight_def)
    then have "group_ok s'"
      using g forget(2) unfolding forget(1) group_ok_def tokenFlightKey_def
      by (auto simp: nth_list_update not_in_flight)
    ultimately show ?thesis
      using st callers_after_stage [OF cl] calls_upd [OF cs] by (simp add: forget(1) burst_inv_def)
  next
    case (deliver k results err)
    let ?c = "calls s ! k"
    have "call_ok verdict (?c\<lparr>call_stage := Sent results err\<rparr>)"
      using cs deliver nth_mem [of k "calls s"] by (fastforce simp: call_ok_def)
    moreover have nf: "\<not> in_flight ?c" using deliver(3) by (simp add: in_flight_def)
    then have "group s d \<noteq> Some k" for d using g by (simp add: group_ok_def)
    then have "group_ok s'"
      using g nf deliver(2) unfolding deliver(1) group_ok_def tokenFlightKey_def
      by (auto simp: nth_list_update not_in_flight)
    ultimately show ?thesis
      using st callers_after_stage [OF cl] calls_upd [OF cs] by (simp add: deliver(1) burst_inv_def)
  next
    case (receive i k views missing results err)
    then have "k < length (calls s) \<and> call_data (calls s ! k) = rq_data (rq i) \<and> view_ok verdict (rq i) views missing"
      using cl by (auto simp: caller_ok_def)
    moreover from this have "sound_results verdict (rq_data (rq i)) results"
      using cs receive(4) nth_mem [of k "calls s"] by (fastforce simp: call_ok_def)
    ultimately show ?thesis using st cl cs g by (simp add: receive(1) burst_inv_def caller_ok_def group_ok_def)
  next
    case (cancel i k views missing)
    then show ?thesis using st cl cs g by (simp add: burst_inv_def caller_ok_def group_ok_def)
  next
    case (finish i views missing results err evaluated st')
    then have v: "view_ok verdict (rq i) views missing" "sound_results verdict (rq_data (rq i)) results"
      using cl by (auto simp: caller_ok_def)
    have ok: "missing_ok verdict (rq_ctx (rq i)) (rq_data (rq i)) missing"
      using view_missing_ok v agree finish(2) by blast
    let ?st = "log_err ''Failed to save matching rules in cache'' err (shared s)"
    have "answers verdict (rq_data (rq i)) missing evaluated"
      using finish_residual_answers [OF ok v(2), of store ?st] finish(4) by simp
    then have "in_order_pass views evaluated = first_match (rq_ctx (rq i)) (rq_rules (rq i)) (rq_data (rq i))"
      using view_first_match v agree finish(2) by blast
    moreover have "sound_state verdict st'"
      using finish_residual_keeps [of verdict ?st, OF _ ok, of results] finish(4) st by simp
    ultimately show ?thesis using cl cs g by (simp add: finish(1) burst_inv_def caller_ok_def group_ok_def)
  }
qed

lemma burst_inv_reachable:
  assumes "bursts store coal rq n (start_burst st) s" "sound_state verdict st"
    "\<forall>i<n. verdicts_agree verdict (rq_ctx (rq i)) (rq_rules (rq i))"
  shows "burst_inv verdict rq n s"
  using assms(1)
proof (induction rule: rtranclp_induct)
  case base
  then show ?case by (rule burst_inv_start [OF assms(2)])
next
  case (step y z)
  then show ?case using burst_inv_step assms(3) by blast
qed

end

section \<open>Termination and progress\<close>

fun caller_weight :: "caller \<Rightarrow> nat" where
  "caller_weight Fresh = 7"
| "caller_weight (Classified views missing) = 6"
| "caller_weight (Awaiting k views missing) = 2"
| "caller_weight (Resumed views missing results err) = 1"
| "caller_weight (Returned r) = 0"

fun stage_weight :: "stage \<Rightarrow> nat" where
  "stage_weight Running = 3"
| "stage_weight (Computed r e) = 2"
| "stage_weight (Forgotten r e) = 1"
| "stage_weight (Sent r e) = 0"

definition burst_work :: "nat \<Rightarrow> 'w burst \<Rightarrow> nat" where
  "burst_work n s = (\<Sum>i<n. caller_weight (callers s i)) + sum_list (map (stage_weight \<circ> call_stage) (calls s))"

lemma callers_weight_upd:
  fixes n :: nat
  assumes "i < n"
  shows "(\<Sum>j<n. caller_weight ((ph(i := p)) j)) + caller_weight (ph i) = (\<Sum>j<n. caller_weight (ph j)) + caller_weight p"
proof -
  have "(\<Sum>j<n. caller_weight (g j)) = caller_weight (g i) + (\<Sum>j\<in>{..<n} - {i}. caller_weight (g j))" for g
    using assms by (intro sum.remove) simp_all
  from this [of ph] this [of "ph(i := p)"] show ?thesis by simp
qed

lemma stage_weight_upd:
  assumes "k < length cs"
  shows "sum_list (map (stage_weight \<circ> call_stage) (cs[k := c])) + stage_weight (call_stage (cs ! k))
     = sum_list (map (stage_weight \<circ> call_stage) cs) + stage_weight (call_stage c)"
proof -
  have "stage_weight (call_stage (cs ! k)) \<le> sum_list (map (stage_weight \<circ> call_stage) cs)"
    using assms by (intro member_le_sum_list) force+
  then show ?thesis
    using assms by (simp add: map_update sum_list_update)
qed

lemma burst_work_decreases:
  assumes "burst_step store coal rq n s s'"
  shows "burst_work n s' < burst_work n s"
  using assms
proof cases
  case (compute k results err st')
  then show ?thesis
    using stage_weight_upd [of k "calls s" "(calls s ! k)\<lparr>call_stage := Computed results err\<rparr>"] by (simp add: burst_work_def)
next
  case (forget k results err)
  then show ?thesis
    using stage_weight_upd [of k "calls s" "(calls s ! k)\<lparr>call_stage := Forgotten results err\<rparr>"] by (simp add: burst_work_def)
next
  case (deliver k results err)
  then show ?thesis
    using stage_weight_upd [of k "calls s" "(calls s ! k)\<lparr>call_stage := Sent results err\<rparr>"] by (simp add: burst_work_def)
next
  case (lead i views missing)
  then show ?thesis
    using callers_weight_upd [of i n "callers s" "Awaiting (length (calls s)) views missing"] by (simp add: burst_work_def)
next
  case (read i cached st' views missing)
  then show ?thesis
    using callers_weight_upd [of i n "callers s" "Classified views missing"] by (simp add: burst_work_def)
next
  case (nothing_missing i views)
  then show ?thesis
    using callers_weight_upd [of i n "callers s" "Returned (in_order_pass views [])"] by (simp add: burst_work_def)
next
  case (alone i views missing results err st')
  then show ?thesis
    using callers_weight_upd [of i n "callers s" "Resumed views missing results err"] by (simp add: burst_work_def)
next
  case (join i views missing k)
  then show ?thesis
    using callers_weight_upd [of i n "callers s" "Awaiting k views missing"] by (simp add: burst_work_def)
next
  case (receive i k views missing results err)
  then show ?thesis
    using callers_weight_upd [of i n "callers s" "Resumed views missing results err"] by (simp add: burst_work_def)
next
  case (cancel i k views missing)
  then show ?thesis
    using callers_weight_upd [of i n "callers s" "Returned (in_order_pass views [])"] by (simp add: burst_work_def)
next
  case (finish i views missing results err evaluated st')
  then show ?thesis
    using callers_weight_upd [of i n "callers s" "Returned (in_order_pass views evaluated)"] by (simp add: burst_work_def)
qed

lemma leader_returns: "\<exists>err st'. leader_computation store c d ms st = (Some (matchMissing c d ms), err, st')"
  by (simp add: leader_computation_def case_prod_beta Let_def)

lemma burst_not_stuck:
  assumes "i < n" "\<nexists>r. callers s i = Returned r" "\<And>k vs ms. callers s i = Awaiting k vs ms \<Longrightarrow> k < length (calls s)"
  shows "\<exists>s'. burst_step store coal rq n s s'"
proof (cases "callers s i")
  case Fresh
  then show ?thesis using read [OF assms(1) Fresh] by (meson surj_pair)
next
  case (Classified views missing)
  show ?thesis
  proof (cases "missing = []")
    case True
    then show ?thesis using nothing_missing assms(1) Classified by blast
  next
    case False
    show ?thesis
    proof (cases coal)
      case True
      then show ?thesis
        using lead [OF assms(1) Classified False True] join [OF assms(1) Classified False True]
        by (cases "group s (tokenFlightKey (rq_data (rq i)))") blast+
    next
      case nc: False
      obtain err st' where "leader_computation store (rq_ctx (rq i)) (rq_data (rq i)) missing (shared s)
          = (Some (matchMissing (rq_ctx (rq i)) (rq_data (rq i)) missing), err, st')"
        using leader_returns by blast
      from alone [where rq = rq, OF assms(1) Classified False nc this] show ?thesis by blast
    qed
  qed
next
  case (Awaiting k views missing)
  then have "k < length (calls s)" by (rule assms(3))
  then have k: "k < length (calls s)" .
  show ?thesis
  proof (cases "call_stage (calls s ! k)")
    case Running
    let ?c = "calls s ! k"
    obtain err st' where "leader_computation store (call_ctx ?c) (call_data ?c) (call_missing ?c) (shared s)
        = (Some (matchMissing (call_ctx ?c) (call_data ?c) (call_missing ?c)), err, st')"
      using leader_returns by blast
    from compute [OF k Running this] show ?thesis by blast
  next
    case (Computed r e)
    from forget [OF k this] show ?thesis by blast
  next
    case (Forgotten r e)
    from deliver [OF k this] show ?thesis by blast
  next
    case (Sent r e)
    from receive [OF assms(1) Awaiting this] show ?thesis by blast
  qed
next
  case (Resumed views missing results err)
  then show ?thesis using finish [OF assms(1) Resumed] by (meson surj_pair)
qed (use assms(2) in blast)

lemma burst_wf: "wfP (\<lambda>s' s. burst_step store coal rq n s s')"
  by (rule wfp_if_convertible_to_nat [where f = "burst_work n"]) (rule burst_work_decreases)

lemma burst_runs_out: "\<exists>s'. bursts store coal rq n s s' \<and> (\<nexists>s''. burst_step store coal rq n s' s'')"
proof (induction s rule: wfp_induct_rule [OF burst_wf [of store coal rq n]])
  case (1 s)
  show ?case
  proof (cases "\<exists>s'. burst_step store coal rq n s s'")
    case True
    then obtain s' where s': "burst_step store coal rq n s s'" by blast
    from 1 [OF s'] s' show ?thesis by (meson converse_rtranclp_into_rtranclp)
  qed blast
qed

context cache_store
begin

lemma burst_end_returned:
  assumes "bursts store coal rq n (start_burst st) s" "sound_state verdict st"
    "\<forall>i<n. verdicts_agree verdict (rq_ctx (rq i)) (rq_rules (rq i))"
    "\<nexists>s'. burst_step store coal rq n s s'" "i < n"
  shows "\<exists>r. callers s i = Returned r"
proof (rule ccontr)
  assume "\<nexists>r. callers s i = Returned r"
  moreover have "caller_ok verdict (calls s) (rq i) (callers s i)"
    using burst_inv_reachable [OF assms(1-3)] assms(5) by (simp add: burst_inv_def)
  then have "callers s i = Awaiting k vs ms \<Longrightarrow> k < length (calls s)" for k vs ms
    by (simp add: caller_ok_def)
  ultimately show False using burst_not_stuck [OF assms(5)] assms(4) by blast
qed

end

section \<open>A burst of identical misses\<close>

definition covered_by :: "missingEvaluation list \<Rightarrow> missingEvaluation list \<Rightarrow> bool" where
  "covered_by ms ms' \<longleftrightarrow> me_entity ` set ms \<subseteq> me_entity ` set ms'"

text \<open>Every caller waits for the one call in flight, and misses no more than that call evaluates.\<close>

definition burst_joined :: "nat \<Rightarrow> nat \<Rightarrow> 'w burst \<Rightarrow> bool" where
  "burst_joined n k s \<longleftrightarrow> k < length (calls s) \<and> call_stage (calls s ! k) = Running
     \<and> (\<forall>j<length (calls s). j \<noteq> k \<longrightarrow> delivered (calls s ! j))
     \<and> (\<forall>i<n. \<exists>views missing. callers s i = Awaiting k views missing \<and> covered_by missing (call_missing (calls s ! k)))"

text \<open>From such a state on: the calls stay the same but for the stage of the one in flight, which
  saves at most once, and no caller has residual misses.\<close>

definition joined_caller :: "nat \<Rightarrow> call \<Rightarrow> caller \<Rightarrow> bool" where
  "joined_caller k c p \<longleftrightarrow>
     (case p of
        Awaiting k' views missing \<Rightarrow> k' = k \<and> covered_by missing (call_missing c)
      | Resumed views missing r e \<Rightarrow> residual_of r missing = []
      | Returned r \<Rightarrow> True
      | _ \<Rightarrow> False)"

definition after_burst :: "nat \<Rightarrow> nat \<Rightarrow> 'w burst \<Rightarrow> 'w burst \<Rightarrow> bool" where
  "after_burst n k s0 s \<longleftrightarrow>
     (\<exists>g. calls s = (calls s0)[k := (calls s0 ! k)\<lparr>call_stage := g\<rparr>]
        \<and> (\<forall>i<n. joined_caller k (calls s0 ! k) (callers s i))
        \<and> traffic (call_data (calls s0 ! k)) (if g = Running then 0 else 1) (shared s0) (shared s)
        \<and> (case g of Running \<Rightarrow> True
             | Computed r e \<Rightarrow> r = matchMissing (call_ctx (calls s0 ! k)) (call_data (calls s0 ! k)) (call_missing (calls s0 ! k))
             | Forgotten r e \<Rightarrow> r = matchMissing (call_ctx (calls s0 ! k)) (call_data (calls s0 ! k)) (call_missing (calls s0 ! k))
             | Sent r e \<Rightarrow> r = matchMissing (call_ctx (calls s0 ! k)) (call_data (calls s0 ! k)) (call_missing (calls s0 ! k))))"

lemma covered_no_residual: "covered_by ms ms' \<Longrightarrow> residual_of (matchMissing c d ms') ms = []"
proof -
  assume cov: "covered_by ms ms'"
  have all: "\<forall>m\<in>set ms'. map_of (matchMissing c d ms') (me_entity m) \<noteq> None"
    using leader_no_residual [of c d ms'] by (simp add: residual_of_def filter_empty_conv)
  have "map_of (matchMissing c d ms') (me_entity m) \<noteq> None" if "m \<in> set ms" for m
  proof -
    from cov that have "me_entity m \<in> me_entity ` set ms'" by (auto simp: covered_by_def)
    then obtain m' where "m' \<in> set ms'" "me_entity m = me_entity m'" by blast
    with all show ?thesis by simp
  qed
  then show ?thesis by (simp add: residual_of_def filter_empty_conv)
qed

lemma traffic_more: "traffic d m a b \<Longrightarrow> m \<le> n \<Longrightarrow> traffic d n a b"
  by (auto simp: traffic_def)

lemma traffic_logged: "traffic d m a b \<Longrightarrow> traffic d m a (log_err msg e b)"
  using traffic_trans [OF _ traffic_log] by fastforce

lemma after_burst_step:
  assumes "burst_step store coal rq n s s'" "after_burst n k s0 s" "burst_joined n k s0"
  shows "after_burst n k s0 s'"
proof -
  let ?c = "calls s0 ! k"
  obtain g where g: "calls s = (calls s0)[k := ?c\<lparr>call_stage := g\<rparr>]"
    "\<forall>i<n. joined_caller k ?c (callers s i)"
    "traffic (call_data ?c) (if g = Running then 0 else 1) (shared s0) (shared s)"
    "case g of Running \<Rightarrow> True
       | Computed r e \<Rightarrow> r = matchMissing (call_ctx ?c) (call_data ?c) (call_missing ?c)
       | Forgotten r e \<Rightarrow> r = matchMissing (call_ctx ?c) (call_data ?c) (call_missing ?c)
       | Sent r e \<Rightarrow> r = matchMissing (call_ctx ?c) (call_data ?c) (call_missing ?c)"
    using assms(2) unfolding after_burst_def by blast
  have k: "k < length (calls s0)" and others: "\<forall>j<length (calls s0). j \<noteq> k \<longrightarrow> delivered (calls s0 ! j)"
    using assms(3) by (simp_all add: burst_joined_def)
  have gk: "calls s ! k = ?c\<lparr>call_stage := g\<rparr>" using g(1) k by simp
  have only: "j = k" if "j < length (calls s)" "\<not> delivered (calls s ! j)" for j
    using that others g(1) by (cases "j = k") auto
  have keep: "after_burst n k s0 s'" if "calls s' = calls s" "\<forall>i<n. joined_caller k ?c (callers s' i)"
    "traffic (call_data ?c) (if g = Running then 0 else 1) (shared s0) (shared s')"
    unfolding after_burst_def using that g(1,4) by (intro exI [of _ g]) simp
  from assms(1) show ?thesis
  proof cases
    case (compute j results err st')
    then have j: "j = k" "g = Running" using only [of j] gk by (auto simp: delivered_def)
    have r: "results = matchMissing (call_ctx ?c) (call_data ?c) (call_missing ?c)" "st' = snd (snd (leader_computation
        store (call_ctx ?c) (call_data ?c) (call_missing ?c) (shared s)))"
      using compute(4) leader_returns [of store "call_ctx ?c" "call_data ?c" "call_missing ?c" "shared s"]
      by (auto simp: j gk)
    have "traffic (call_data ?c) (0 + 1) (shared s0) st'"
      unfolding r(2) using g(3) j(2) by (intro traffic_trans [OF _ traffic_leader]) simp
    then show ?thesis
      unfolding after_burst_def
      using g(1,2) gk r(1) by (intro exI [of _ "Computed results err"]) (simp add: compute(1) j)
  next
    case (forget j results err)
    then have j: "j = k" using only [of j] by (simp add: delivered_def)
    with forget(3) gk have gg: "g = Computed results err" by simp
    show ?thesis
      unfolding after_burst_def
      using g gk gg by (intro exI [of _ "Forgotten results err"]) (simp add: forget(1) j)
  next
    case (deliver j results err)
    then have j: "j = k" using only [of j] by (simp add: delivered_def)
    with deliver(3) gk have gg: "g = Forgotten results err" by simp
    show ?thesis
      unfolding after_burst_def
      using g gk gg by (intro exI [of _ "Sent results err"]) (simp add: deliver(1) j)
  next
    case (receive i j views missing results err)
    have j: "j = k" "covered_by missing (call_missing ?c)"
      using g(2) receive(2,3) by (auto simp: joined_caller_def)
    with receive(4) gk have "g = Sent results err" by simp
    with g(4) have "residual_of results missing = []" using covered_no_residual [OF j(2)] by simp
    with g(2,3) show ?thesis by (intro keep) (simp_all add: receive(1) joined_caller_def)
  next
    case (cancel i j views missing)
    with g(2,3) show ?thesis by (intro keep) (simp_all add: traffic_logged joined_caller_def)
  next
    case (finish i views missing results err evaluated st')
    then have "residual_of results missing = []" using g(2) by (auto simp: joined_caller_def)
    with finish(4) have "st' = log_err ''Failed to save matching rules in cache'' err (shared s)"
      by (simp add: finish_residual_def)
    with g(2,3) show ?thesis by (intro keep) (simp_all add: finish(1) traffic_logged joined_caller_def)
  qed (use g(2) in \<open>auto simp: joined_caller_def\<close>)
qed

lemma after_burst_reachable:
  assumes "bursts store coal rq n s s'" "burst_joined n k s"
  shows "after_burst n k s s'"
  using assms(1)
proof (induction rule: rtranclp_induct)
  case base
  have "\<forall>i<n. joined_caller k (calls s ! k) (callers s i)"
    using assms(2) by (fastforce simp: burst_joined_def joined_caller_def)
  moreover have "call_stage (calls s ! k) = Running" using assms(2) by (simp add: burst_joined_def)
  then have "calls s = (calls s)[k := (calls s ! k)\<lparr>call_stage := Running\<rparr>]"
    by (metis call.surjective call.update_convs(4) list_update_id)
  ultimately show ?case
    unfolding after_burst_def by (intro exI [of _ Running]) (simp add: traffic_refl)
next
  case (step y z)
  then show ?case using after_burst_step assms(2) by blast
qed

section \<open>Properties\<close>

text \<open>C9: Any number of concurrent runs over one store, coalesced or not, in every interleaving,
  when the rules of all runs are consistent with one verdict: rules of the same entity,
  whether of one run or of two, agree on every token.  The store starts with true negative
  answers only.  Then a run that returns without its context having a deadline returns the
  first applicable rule of its own rules and token, although its answers may have been
  computed by another run; the store keeps only true negative answers; and no two
  evaluations of the same token are ever in flight together when coalescing.\<close>

theorem concurrent_runs_agree:
  assumes "cache_store store content"
    and "cache_store.negatives_only content verdict (cache_state st)"
    and "\<forall>i<n. verdicts_agree verdict (rq_ctx (rq i)) (rq_rules (rq i))"
    and "bursts store coal rq n (start_burst st) s"
  shows "(\<forall>i<n. \<forall>r. callers s i = Returned r \<and> \<not> rq_deadline (rq i) \<longrightarrow>
            r = first_match (rq_ctx (rq i)) (rq_rules (rq i)) (rq_data (rq i)))
     \<and> cache_store.negatives_only content verdict (cache_state (shared s))
     \<and> (\<forall>j k. j < length (calls s) \<and> k < length (calls s) \<and> in_flight (calls s ! j) \<and> in_flight (calls s ! k)
          \<and> call_data (calls s ! j) = call_data (calls s ! k) \<longrightarrow> j = k)"
proof -
  have inv: "cache_store.burst_inv content verdict rq n s"
    using cache_store.burst_inv_reachable [OF assms(1,4,2,3)] .
  then have parts: "cache_store.negatives_only content verdict (cache_state (shared s))"
    "\<forall>i<n. caller_ok verdict (calls s) (rq i) (callers s i)" "group_ok s"
    by (simp_all add: cache_store.burst_inv_def [OF assms(1)])
  from parts(2) have "\<forall>i<n. \<forall>r. callers s i = Returned r \<and> \<not> rq_deadline (rq i) \<longrightarrow>
      r = first_match (rq_ctx (rq i)) (rq_rules (rq i)) (rq_data (rq i))"
    by (fastforce simp: caller_ok_def)
  with parts(1) group_ok_unique [OF parts(3)] show ?thesis by blast
qed

definition email_request :: request where
  "email_request = \<lparr>rq_ctx = background, rq_rules = default_rules, rq_data = str ''a@b.co'', rq_deadline = False\<rparr>"

lemma email_first: "first_match background default_rules (str ''a@b.co'') = Some DefaultEmailRule"
proof -
  define d where "d = str ''a@b.co''"
  have "\<not> MatchCPF d \<and> \<not> MatchCNPJ d \<and> \<not> MatchCNPJV2 d \<and> MatchEmailV2 d" unfolding d_def by code_simp
  then have "first_match background default_rules d = Some DefaultEmailRule"
    by (simp add: first_match_def default_rules_def default_applies)
  then show ?thesis unfolding d_def .
qed

theorem concurrent_runs_agree_witness:
  "\<exists>s. bursts NoopRuleMatchingCache True (\<lambda>i. email_request) 2 (start_burst \<lparr>cache_state = (), trace = []\<rparr>) s
     \<and> callers s 0 = Returned (Some DefaultEmailRule) \<and> callers s 1 = Returned (Some DefaultEmailRule)"
proof -
  let ?st = "\<lparr>cache_state = (), trace = []\<rparr>"
  let ?v = "rule_verdict background default_rules"
  obtain s where s: "bursts NoopRuleMatchingCache True (\<lambda>i. email_request) 2 (start_burst ?st) s"
    "\<nexists>s'. burst_step NoopRuleMatchingCache True (\<lambda>i. email_request) 2 s s'"
    using burst_runs_out by blast
  have neg: "noop.negatives_only ?v (cache_state ?st)" by (simp add: noop.negatives_only_def)
  have agree: "\<forall>i<2::nat. verdicts_agree ?v (rq_ctx email_request) (rq_rules email_request)"
    by (simp add: email_request_def distinct_entities_agree default_rules_consistent)
  have "\<forall>i<2. \<forall>r. callers s i = Returned r \<and> \<not> rq_deadline email_request \<longrightarrow>
      r = first_match (rq_ctx email_request) (rq_rules email_request) (rq_data email_request)"
    using concurrent_runs_agree [OF noop.cache_store_axioms neg agree s(1)] by blast
  then have "\<forall>i<2. \<forall>r. callers s i = Returned r \<longrightarrow> r = Some DefaultEmailRule"
    by (simp add: email_request_def email_first del: str_Cons)
  moreover have "\<forall>i<2. \<exists>r. callers s i = Returned r"
    using noop.burst_end_returned [OF s(1) neg agree s(2)] by blast
  ultimately have "callers s i = Returned (Some DefaultEmailRule)" if "i < 2" for i using that by fastforce
  with s(1) show ?thesis by auto
qed

text \<open>C10: Concurrent runs always end: there is no infinite sequence of steps, and a state from
  which no step is possible is one in which every run has returned, so no run is left
  waiting for a call that never delivers.\<close>

theorem concurrent_runs_terminate:
  assumes "cache_store store content"
    and "cache_store.negatives_only content verdict (cache_state st)"
    and "\<forall>i<n. verdicts_agree verdict (rq_ctx (rq i)) (rq_rules (rq i))"
  shows "wfP (\<lambda>s' s. burst_step store coal rq n s s') \<and>
     (bursts store coal rq n (start_burst st) s \<and> (\<nexists>s'. burst_step store coal rq n s s') \<longrightarrow>
        (\<forall>i<n. \<exists>r. callers s i = Returned r))"
  using burst_wf cache_store.burst_end_returned [OF assms(1) _ assms(2,3)] by blast

theorem concurrent_runs_terminate_witness:
  "\<exists>s. bursts NoopRuleMatchingCache True (\<lambda>i. email_request) 3 (start_burst \<lparr>cache_state = (), trace = []\<rparr>) s
     \<and> (\<forall>i<3. \<exists>r. callers s i = Returned r)"
proof -
  let ?st = "\<lparr>cache_state = (), trace = []\<rparr>"
  let ?v = "rule_verdict background default_rules"
  have neg: "noop.negatives_only ?v (cache_state ?st)" by (simp add: noop.negatives_only_def)
  have agree: "\<forall>i<3::nat. verdicts_agree ?v (rq_ctx email_request) (rq_rules email_request)"
    by (simp add: email_request_def distinct_entities_agree default_rules_consistent)
  obtain s where "bursts NoopRuleMatchingCache True (\<lambda>i. email_request) 3 (start_burst ?st) s"
    "\<nexists>s'. burst_step NoopRuleMatchingCache True (\<lambda>i. email_request) 3 s s'"
    using burst_runs_out by blast
  with concurrent_runs_terminate [OF noop.cache_store_axioms neg agree, of True s] show ?thesis by blast
qed

text \<open>C30: A burst of misses of one token costs one evaluation: once every run waits for the call
  in flight and misses no more than it evaluates, then until all have returned nothing is
  read from the store again and at most one batch is saved, for that token and negative.\<close>

theorem burst_saves_once:
  assumes "burst_joined n k s" and "bursts store coal rq n s s'"
  shows "\<exists>t. trace (shared s') = trace (shared s) @ t \<and> list_all (\<lambda>i. \<not> is_get i) t
     \<and> length (filter is_save t) \<le> 1 \<and> list_all (proper_save (call_data (calls s ! k))) t
     \<and> length (calls s') = length (calls s)"
proof -
  obtain g where "calls s' = (calls s)[k := (calls s ! k)\<lparr>call_stage := g\<rparr>]"
    "traffic (call_data (calls s ! k)) (if g = Running then 0 else 1) (shared s) (shared s')"
    using after_burst_reachable [OF assms(2,1)] unfolding after_burst_def by blast
  moreover from this have "traffic (call_data (calls s ! k)) 1 (shared s) (shared s')"
    by (auto elim: traffic_more)
  ultimately show ?thesis by (auto simp: traffic_def)
qed

definition waiting_burst :: "unit burst" where
  "waiting_burst = \<lparr>shared = \<lparr>cache_state = (), trace = [GotMatches (str ''x''), GotMatches (str ''x'')]\<rparr>, group = [str ''x'' \<mapsto> 0],
      calls = [\<lparr>call_ctx = background, call_data = str ''x'',
        call_missing = [\<lparr>me_entity = EntityEmail, me_rule = DefaultEmailRule\<rparr>], call_stage = Running\<rparr>],
      callers = (\<lambda>i. Awaiting 0 [] [\<lparr>me_entity = EntityEmail, me_rule = DefaultEmailRule\<rparr>])\<rparr>"

theorem burst_saves_once_witness:
  "\<exists>s'. bursts NoopRuleMatchingCache True (\<lambda>i. email_request\<lparr>rq_data := str ''x''\<rparr>) 2 waiting_burst s'
     \<and> (\<nexists>s''. burst_step NoopRuleMatchingCache True (\<lambda>i. email_request\<lparr>rq_data := str ''x''\<rparr>) 2 s' s'')
     \<and> length (filter is_save (trace (shared s'))) \<le> 1 \<and> length (filter is_get (trace (shared s'))) = 2"
proof -
  let ?rq = "\<lambda>i::nat. email_request\<lparr>rq_data := str ''x''\<rparr>"
  obtain s' where s': "bursts NoopRuleMatchingCache True ?rq 2 waiting_burst s'"
    "\<nexists>s''. burst_step NoopRuleMatchingCache True ?rq 2 s' s''"
    using burst_runs_out by blast
  have "burst_joined 2 0 waiting_burst" by (simp add: burst_joined_def covered_by_def waiting_burst_def)
  from burst_saves_once [OF this s'(1)] obtain t where
    "trace (shared s') = trace (shared waiting_burst) @ t" "list_all (\<lambda>i. \<not> is_get i) t" "length (filter is_save t) \<le> 1"
    by blast
  then have "length (filter is_save (trace (shared s'))) \<le> 1 \<and> length (filter is_get (trace (shared s'))) = 2"
    by (simp add: waiting_burst_def is_save_def is_get_def list_all_iff del: str_Cons)
  with s' show ?thesis by blast
qed

end
