(* ===== verification/RegexCompile.thy ===== *)
theory RegexCompile
  imports RegexPatterns
begin

text \<open>
  The initialisation of package \<open>pattern\<close>: \<open>regexp.MustCompile\<close> panics on a pattern it cannot
  parse, and the package compiles sixteen constants when it is loaded.
\<close>

definition compiled_patterns :: "string list" where
  "compiled_patterns =
     [phonePattern, cnpjAlphanumPattern, phonesWithExtsPattern, emailPattern, ipv4Pattern, ipv6Pattern,
      streetAddressPattern, zipCodePattern, poBoxPattern, ssnPattern, guidPattern, ibanPattern,
      uuid3Pattern, uuid4Pattern, uuid5Pattern, urlPattern]"

definition compiled_regexps :: "regex list" where
  "compiled_regexps =
     [phoneRegexp, cnpjAlphanumRegexp, phonesWithExtsRegexp, emailRegexp, ipv4Regexp, ipv6Regexp,
      streetAddressRegexp, zipCodeRegexp, poBoxRegexp, ssnRegexp, guidRegexp, ibanRegexp,
      uuid3Regexp, uuid4Regexp, uuid5Regexp, urlRegexp]"

lemmas regexp_defs = phoneRegexp_def cnpjAlphanumRegexp_def phonesWithExtsRegexp_def emailRegexp_def ipv4Regexp_def ipv6Regexp_def streetAddressRegexp_def zipCodeRegexp_def
  poBoxRegexp_def ssnRegexp_def guidRegexp_def ibanRegexp_def uuid3Regexp_def uuid4Regexp_def uuid5Regexp_def urlRegexp_def

section \<open>Every constant compiles\<close>

lemma phone_parses: "\<not> isl (syntax_Parse phonePattern)"
  by code_simp

lemma cnpjAlphanum_parses: "\<not> isl (syntax_Parse cnpjAlphanumPattern)"
  by code_simp

lemma phonesWithExts_parses: "\<not> isl (syntax_Parse phonesWithExtsPattern)"
  by code_simp

lemma email_parses: "\<not> isl (syntax_Parse emailPattern)"
  by code_simp

lemma ipv4_parses: "\<not> isl (syntax_Parse ipv4Pattern)"
  by code_simp

lemma ipv6_parses: "\<not> isl (syntax_Parse ipv6Pattern)"
  by code_simp

lemma streetAddress_parses: "\<not> isl (syntax_Parse streetAddressPattern)"
  by code_simp

lemma zipCode_parses: "\<not> isl (syntax_Parse zipCodePattern)"
  by code_simp

lemma poBox_parses: "\<not> isl (syntax_Parse poBoxPattern)"
  by code_simp

lemma ssn_parses: "\<not> isl (syntax_Parse ssnPattern)"
  by code_simp

lemma guid_parses: "\<not> isl (syntax_Parse guidPattern)"
  by code_simp

lemma iban_parses: "\<not> isl (syntax_Parse ibanPattern)"
  by code_simp

lemma uuid3_parses: "\<not> isl (syntax_Parse uuid3Pattern)"
  by code_simp

lemma uuid4_parses: "\<not> isl (syntax_Parse uuid4Pattern)"
  by code_simp

lemma uuid5_parses: "\<not> isl (syntax_Parse uuid5Pattern)"
  by code_simp

lemma url_parses: "\<not> isl (syntax_Parse urlPattern)"
  by code_simp

lemmas parses = phone_parses cnpjAlphanum_parses phonesWithExts_parses email_parses ipv4_parses ipv6_parses streetAddress_parses zipCode_parses
  poBox_parses ssn_parses guid_parses iban_parses uuid3_parses uuid4_parses uuid5_parses url_parses

section \<open>Loading the package\<close>

text \<open>Every pattern constant that the package compiles is accepted by the parser, so loading the
  package does not panic, and the variable holds the expression the constant stands for.\<close>

lemma patterns_compile:
  "list_all2 (\<lambda>p r. regexp_Compile p = Inr r) compiled_patterns compiled_regexps"
proof -
  have ok: "regexp_Compile p = Inr (MustCompile p)" if "\<not> isl (syntax_Parse p)" for p
    using that by (cases "syntax_Parse p") (simp_all add: MustCompile_def regexp_Compile_def)
  show ?thesis
    unfolding compiled_patterns_def compiled_regexps_def
    by (simp only: list_all2_Cons list_all2_Nil simp_thms regexp_defs) (intro conjI; rule ok, rule parses)
qed

end
