(* ===== verification/Spec2Isabelle.thy ===== *)
theory Spec2Isabelle
  imports Examples Burst Rescan RegexCompile
begin

text \<open>
  Leakspok finds personal data in text and anonymizes it.  A caller hands a list of rules, an
  input and a writer to an analyzer; the analyzer cuts the input into tokens, asks a rule
  runner for each token which rule applies, and writes the input with the tokens found
  replaced or masked.  A rule carries a matcher (a pattern over the bytes of a token) and
  exceptions.  Runners remember answers in a cache, share one evaluation among concurrent
  callers of the same token, and may evaluate matchers on a worker pool; the analyzer may
  itself process the tokens on a pool.  A factory puts these parts together from options.

  \<^bold>\<open>The theories and the code.\<close>

  \<^item> \<open>Prelude\<close>: bytes and runes as words, string literals, the panics of the language,
    slicing, shared list lemmas.
  \<^item> \<open>GoText\<close>, \<open>GoRegexp\<close>, \<open>GoNetip\<close>: what the source calls of Go's standard library: UTF-8
    decoding, \<open>unicode\<close> classes, \<open>bytes\<close> and \<open>strings\<close>, \<open>regexp\<close> (a relational meaning and
    an executable matcher shown equal), \<open>net.ParseIP\<close>.  \<open>RegexSyntax\<close>: the parser of \<open>regexp\<close>
    for the syntax that the source uses.
  \<^item> \<open>Tokenization\<close> (\<open>analyzer/tokenization.go\<close>): the iterator with its escape flag,
    \<open>TokenIterator\<close>, \<open>skipDelimiters\<close>, \<open>findTokenEnd\<close>.
  \<^item> \<open>Monitoring\<close> (\<open>monitoring/\<close>): the request context, log records and spans as events.
  \<^item> \<open>Pattern\<close> (\<open>pattern/pattern.go\<close>, \<open>pattern/meta.go\<close>): named patterns and combinators, with
    the contract \<open>pattern_contract\<close> (a language, well nested events, silence without monitoring).
  \<^item> \<open>RegexPatterns\<close>, \<open>RegexCompile\<close>, \<open>MatchFuncs\<close>, \<open>RegexFuncs\<close>, \<open>Checksums\<close>
    (\<open>pattern/regex.go\<close>): the pattern constants as written, the expressions compiled from them
    and every match function, the last theory for CPF and CNPJ.
  \<^item> \<open>Matchers\<close> (\<open>pattern/matcher.go\<close>, \<open>pattern/entity.go\<close>): the pre-built matchers, each an
    interpretation of \<open>pattern_contract\<close>.
  \<^item> \<open>Rules\<close> (\<open>analyzer/rules.go\<close>, \<open>rules.go\<close>): rules, exceptions, the default rules, and what
    a rule list promises for a token (\<open>applies\<close>, \<open>first_match\<close>).
  \<^item> \<open>Cache\<close> (\<open>analyzer/cache/\<close>): the store interface as the locale \<open>cache_store\<close>, the no-op
    store, the tracing decorator; \<open>Valkey\<close>: the store on a server.
  \<^item> \<open>Options\<close>, \<open>Factory\<close> (\<open>analyzer/factory.go\<close>, \<open>pool.go\<close>): option records, pools, and the
    construction of analyzers.
  \<^item> \<open>Singleflight\<close> (\<open>analyzer/singleflight_coalescer.go\<close>): one caller of a shared flight, with
    the contract \<open>token_flight\<close>; \<open>Burst\<close>: any number of callers with the flight group of the
    vendored \<open>singleflight\<close> package, as a step relation.
  \<^item> \<open>SerialRunner\<close>, \<open>ConcurrentRunner\<close> (\<open>analyzer/serial_runner.go\<close>, \<open>concurrent_runner.go\<close>):
    the two rule runners; the collection of worker results is a step relation over workers,
    result channel, contexts and the collector.
  \<^item> \<open>ByteAnalyzer\<close> (\<open>analyzer/byte_analyzer.go\<close>, \<open>string_analyzer.go\<close>): scanning, replacing,
    writing, stopping; runners enter through the locales \<open>sound_runner\<close> (an allowed rule) and
    \<open>rule_runner\<close> (a fixed decision), which both runners are shown to satisfy.
  \<^item> \<open>Rescan\<close>: the tokens of an output.  \<open>Configurations\<close>: what the analyzers of all
    configurations have in common, and what the default rules stand for (\<open>pii\<close>).
  \<^item> \<open>Examples\<close> (\<open>examples/\<close>): the rules, inputs, runs and outputs of the three example programs.
  \<^item> This theory: single calls and sequences of calls with the default rules.

  State is passed explicitly: a store has a state, a runner a store state and the trace of its
  calls (\<open>run_state\<close>), an analyzer its runner's state.  Panics are the left side of a sum.
  Every call a runner makes on the store and every error it logs is an item of the trace.

  \<^bold>\<open>What is shown.\<close>  Tokenization agrees with a reference tokenizer on decoded runes, and loses
  nothing but separators.  The match functions are characterised by the languages they accept:
  official check digits, card numbers, dotted addresses, GUIDs; patterns composed in any way
  mean what the composition says, and every compiled pattern constant parses.  The serial runner
  is determined for every store and all rules (\<open>serial_decision\<close>), and refines
  \<open>first_match\<close> for every lawful store and consistent rules, coalesced or not, also when any number of runs
  interleave; the concurrent one reports an applicable rule whenever there is one, and only
  applicable rules however its collection ends; both read the store once, save at most one
  batch, keep only true negative answers in the store, and their loops end.  The Valkey store keeps the
  store contract, and its expiry is known in every case.  The scan on a pool writes what the
  sequential scan writes.  Every configuration the factory accepts gives the specified output;
  with the default rules no personal data is left, whatever calls came before, and scanning
  the output again changes nothing.  The rules of the example programs work out as stated, and
  spans carry digests of tokens only.  Errors and shutdown have theorems of their own; the pools
  that a construction leaves open are read off its trace of creations and releases.  Some theorems
  record where code and documentation differ.

  \<^bold>\<open>Hypotheses.\<close>  Rules are consistent (\<open>verdicts_agree\<close>) when those of the same entity agree on
  every token, which holds of rules for different entities; without it only \<open>serial_decision\<close>,
  the traffic and the details theorems speak, and the runners do shadow a second rule of an
  entity.  Settings are valid (\<open>settings_ok\<close>) when a redacting or masking rule carries its
  parameters; the code dereferences them.  A store is sound (\<open>negatives_only\<close>) when it holds
  only true negative answers, which every run preserves.

  \<^bold>\<open>Parameters.\<close>  Third-party code, vendored or not, is an argument: the Valkey client (with the laws
  \<open>client_laws\<close>, which a server in memory satisfies), the pool library \<open>ants\<close> (which tasks it
  accepts, and in which order they run), the DataDog client, random numbers, SHA-256, fresh work
  ids, measured times, function symbols obtained by reflection, the caller's writer.

  \<^bold>\<open>Bounds and idealizations.\<close>  No definition uses fuel: loops over positions recurse with a
  measure, and the star of an expression is closed as often as the text has positions left,
  which \<open>set_ends\<close> shows to be enough.  Lengths and positions are natural numbers, as slices
  are shorter than the range of \<open>int\<close>; sizes in settings are unbounded integers.  Floating
  point is rational arithmetic followed by a rounding parameter.  A task of the token pool
  and a run of \<open>Process\<close> inside it are one step of the analyzer; \<open>Burst\<close> takes runs apart.
  Matchers are functions of the context and the token: they do not read the deadline, and
  matchers of rules are not nil.  The order of a slice built from a Go map is a fixed one, and
  properties speak of its set.

  \<^bold>\<open>Not modelled.\<close>  Generated mocks; the test server, which starts a container; pattern constants
  that are declared and never compiled, and the regexp syntax no compiled constant uses; the
  spans of the DataDog client behind the calls made on them; and the lock of the global tracer,
  which is read as a part of the context.
\<close>

section \<open>One call with the default rules\<close>

definition redacted :: "bytes \<Rightarrow> bytes \<Rightarrow> AnonymizationDetails result \<Rightarrow> bool" where
  "redacted data out r \<longleftrightarrow>
     map Content (tokens out) = map (\<lambda>t. if pii (Content t) then DefaultRedactString else Content t) (tokens data)
     \<and> (\<exists>details. r = Inr details \<and> (HasFindings details \<longleftrightarrow> (\<exists>t\<in>set (tokens data). pii (Content t))))
     \<and> (\<nexists>t. t \<in> set (tokens out) \<and> pii (Content t))"

lemma default_call:
  assumes "MakeByteAnalyzer env options = (Inr ba, pools)" "lawful env hash options verdict data"
    "ready hash options verdict (WithWorkID (WithLogger c logger) uuid) default_rules s"
  shows "\<exists>ws r s'. Anonymize ba logger uuid c default_rules data s = (ws, r, s') \<and> redacted data (concat ws) r
     \<and> ready hash options verdict (WithWorkID (WithLogger c logger) uuid) default_rules s'"
proof (cases "data = []")
  case True
  moreover have "tokens [] = []" by (simp add: token_eval)
  ultimately show ?thesis using assms(3) by (simp add: Anonymize_def no_details_def redacted_def Let_def)
next
  case False
  let ?c = "WithWorkID (WithLogger c logger) uuid"
  let ?f = "first_match ?c default_rules"
  have uni: "\<forall>r\<in>set default_rules. Settings r = DefaultRuleSetting"
    by (simp add: default_rules_def default_rule_defs)
  obtain ws details s' where out: "Anonymize ba logger uuid c default_rules data s = (ws, Inr details, s')"
    "ready hash options verdict ?c default_rules s'"
    and ws: "concat ws = anonymized_text data 0 (decide_all ?f (tokens data))"
    and found: "HasFindings details \<longleftrightarrow> (\<exists>t\<in>set (tokens data). ?f (Content t) \<noteq> None)"
    using uniform_configuration [OF assms(1-3) default_rules_ok(1) False default_rules_ok(2) uni] by blast
  have rep: "replacement (Settings r) b = DefaultRedactString" if "?f b = Some r" for r b
    using uni first_match_SomeD [OF that] by (simp add: replacement_def DefaultRuleSetting_def)
  have "map Content (tokens (concat ws)) = map (exchanged ?f \<circ> Content) (tokens data)"
    unfolding ws by (rule rescan_tokens) (simp add: rep placeholder_token_like)
  moreover have "exchanged ?f b = (if pii b then DefaultRedactString else b)" for b
    using rep [of b] pii_default [of ?c b] by (cases "?f b") (simp_all add: exchanged_def)
  ultimately have "map Content (tokens (concat ws))
      = map (\<lambda>t. if pii (Content t) then DefaultRedactString else Content t) (tokens data)" by simp
  moreover have "HasFindings details \<longleftrightarrow> (\<exists>t\<in>set (tokens data). pii (Content t))"
    unfolding found pii_default ..
  moreover have "\<nexists>t. t \<in> set (tokens (concat ws)) \<and> pii (Content t)"
    using clean_output(1) [OF default_rules_clean [of ?c data], folded ws] by (metis pii_default)
  ultimately have "redacted data (concat ws) (Inr details)" by (simp add: redacted_def)
  with out show ?thesis by blast
qed

section \<open>Properties\<close>

text \<open>C1: Whatever the options (cache, tracing, coalescing, token and rule concurrency), an
  analyzer built by the factory, not stopped and run with the default rules under a context
  that is not cancelled, with a client library that keeps its laws, pools that accept and run
  every task, shared flights that end with true answers and a cache that holds only true
  negative answers, writes a text whose tokens
  are those of the input with every token that is personal data replaced by the
  placeholder; it reports findings exactly when there was such a token; and no token of
  what it wrote is personal data.\<close>

theorem default_rules_leave_no_pii:
  assumes "MakeByteAnalyzer env options = (Inr ba, pools)"
    and "lawful env hash options verdict data"
    and "ready hash options verdict (WithWorkID (WithLogger c logger) uuid) default_rules s"
  shows "\<exists>ws details s'. Anonymize ba logger uuid c default_rules data s = (ws, Inr details, s')
     \<and> map Content (tokens (concat ws))
         = map (\<lambda>t. if pii (Content t) then DefaultRedactString else Content t) (tokens data)
     \<and> (HasFindings details \<longleftrightarrow> (\<exists>t\<in>set (tokens data). pii (Content t)))
     \<and> (\<nexists>t. t \<in> set (tokens (concat ws)) \<and> pii (Content t))"
proof -
  obtain ws r s' where "Anonymize ba logger uuid c default_rules data s = (ws, r, s')" "redacted data (concat ws) r"
    using default_call [OF assms] by blast
  moreover from this obtain details where "r = Inr details" unfolding redacted_def by blast
  ultimately show ?thesis
    by (intro exI [of _ ws] exI [of _ details] exI [of _ s']) (simp add: redacted_def)
qed

theorem default_rules_leave_no_pii_witness:
  "\<exists>ba pools ws details s'. MakeByteAnalyzer mem_env both_options = (Inr ba, pools)
     \<and> Anonymize ba ''log'' ''id'' background default_rules (str ''a@b.co ok'') empty_state = (ws, Inr details, s')
     \<and> HasFindings details
     \<and> map Content (tokens (concat ws)) = [DefaultRedactString, str ''ok'']"
proof -
  define d where "d = str ''a@b.co ok''"
  let ?c = "WithWorkID (WithLogger background ''log'') ''id''"
  let ?v = "rule_verdict ?c default_rules"
  obtain ba pools where ba: "MakeByteAnalyzer mem_env both_options = (Inr ba, pools)" using both_built by blast
  have law: "lawful mem_env mem_hash both_options ?v d"
    by (simp add: lawful_def mem_env_lawful mem_env_orderly mem_undisturbed mem_flights)
  have ready: "ready mem_hash both_options ?v ?c default_rules empty_state"
    by (simp add: ready_def both_concurrent both_ready)
  have "map Content (tokens d) = [str ''a@b.co'', str ''ok'']" unfolding d_def by code_simp
  then obtain t u where tu: "tokens d = [t, u]" "Content t = str ''a@b.co''" "Content u = str ''ok''" by auto
  have "MatchEmailV2 (str ''a@b.co'')" by code_simp
  then have "pii (str ''a@b.co'')"
    unfolding MatchEmailV2_iff email_shape_def [symmetric] by (simp add: pii_def del: str_Cons)
  moreover have "\<not> pii (str ''ok'')"
  proof -
    define e where "e = str ''ok''"
    have "\<not> MatchCPF e \<and> \<not> MatchCNPJ e \<and> \<not> MatchCNPJV2 e \<and> \<not> MatchEmailV2 e \<and> \<not> MatchIP e
        \<and> \<not> MatchVisaCreditCard e \<and> \<not> MatchMasterCardCreditCard e"
      unfolding e_def by code_simp
    then show ?thesis
      unfolding e_def [symmetric] pii_default [of background, symmetric]
      by (simp add: first_match_def default_rules_def default_applies)
  qed
  ultimately have "map (\<lambda>t. if pii (Content t) then DefaultRedactString else Content t) (tokens d)
      = [DefaultRedactString, str ''ok'']" "\<exists>t\<in>set (tokens d). pii (Content t)"
    by (simp_all add: tu del: str_Cons)
  with default_rules_leave_no_pii [OF ba law ready] ba show ?thesis
    unfolding d_def by (elim exE conjE) (intro exI conjI, assumption+, simp_all)
qed

text \<open>C2: The history of an analyzer does not matter.  Over any sequence of calls, each with its own
  context and input, on an analyzer of any configuration with its cache filling up, every
  call gives the output and the findings it would give on its own, and the state stays
  ready for the next one.  As in the first property, no context is cancelled, the analyzer is
  not stopped, and client, pools and flights behave as documented.\<close>

theorem history_does_not_matter:
  assumes "MakeByteAnalyzer env options = (Inr ba, pools)"
    and "\<forall>(logger, uuid, c, data)\<in>set rqs. lawful env hash options verdict data"
    and "ready hash options verdict background default_rules s"
  shows "list_all2 (\<lambda>(logger, uuid, c, data) (out, r). redacted data out r) rqs (fst (anonymize_all ba default_rules rqs s))
     \<and> ready hash options verdict background default_rules (snd (anonymize_all ba default_rules rqs s))"
  using assms(2,3)
proof (induction rqs arbitrary: s)
  case (Cons rq rqs)
  obtain logger uuid c data where rq: "rq = (logger, uuid, c, data)" by (cases rq) auto
  let ?c = "WithWorkID (WithLogger c logger) uuid"
  have agree: "verdicts_agree verdict c' default_rules" for c'
    using default_verdicts [OF ready_agree [OF Cons.prems(2)]] .
  have "lawful env hash options verdict data" using Cons.prems(1) rq by simp
  from default_call [OF assms(1) this ready_context [OF Cons.prems(2) agree]]
  obtain ws r s' where call: "Anonymize ba logger uuid c default_rules data s = (ws, r, s')" "redacted data (concat ws) r"
    "ready hash options verdict ?c default_rules s'" by blast
  have "ready hash options verdict background default_rules s'" by (rule ready_context [OF call(3) agree])
  with Cons.IH [of s'] Cons.prems(1) call(1,2) show ?case by (simp add: rq case_prod_beta)
qed simp

theorem history_does_not_matter_witness:
  "\<exists>ba pools. MakeByteAnalyzer mem_env both_options = (Inr ba, pools)
     \<and> list_all2 (\<lambda>(logger, uuid, c, data) (out, r). redacted data out r)
         [(''log'', ''1'', background, str ''a@b.co''), (''log'', ''2'', background, str ''a@b.co ok'')]
         (fst (anonymize_all ba default_rules
           [(''log'', ''1'', background, str ''a@b.co''), (''log'', ''2'', background, str ''a@b.co ok'')] empty_state))"
proof -
  let ?rqs = "[(''log'', ''1'', background, str ''a@b.co''), (''log'', ''2'', background, str ''a@b.co ok'')]"
  let ?v = "rule_verdict background default_rules"
  obtain ba pools where ba: "MakeByteAnalyzer mem_env both_options = (Inr ba, pools)" using both_built by blast
  have law: "\<forall>(logger, uuid, c, data)\<in>set ?rqs. lawful mem_env mem_hash both_options ?v data"
    by (simp add: lawful_def mem_env_lawful mem_env_orderly mem_undisturbed mem_flights del: str_Cons)
  have ready: "ready mem_hash both_options ?v background default_rules empty_state"
    by (simp add: ready_def both_concurrent both_ready)
  from history_does_not_matter [OF ba law ready] ba show ?thesis by blast
qed

end
